(* ===== verification/Prelude.thy ===== *)
theory Prelude
  imports Main "HOL-Library.Word" "HOL-Library.Sublist"
begin

text \<open>
  Shared vocabulary of the development: the functions of Go's \<^verbatim>\<open>strings\<close> and
  \<^verbatim>\<open>strconv\<close> packages that the gateway calls, as executable functions on byte strings
  (\<^typ>\<open>string\<close> is a list of 8-bit characters, which is what a Go string is), the
  collections of simplification facts the component theories extend, and the generic list
  lemmas about splitting and joining that several components share.
\<close>

named_theorems wire_simps \<open>unfolding rules for DNS messages\<close>

type_synonym u8 = "8 word"
type_synonym u16 = "16 word"
type_synonym u64 = "64 word"
type_synonym bytes = "8 word list"

text \<open>A Go call that returns \<^verbatim>\<open>(value, error)\<close>: \<^term>\<open>Inl\<close> carries the error text.\<close>

type_synonym 'a result = "string + 'a"

section \<open>Characters\<close>

definition code :: "char \<Rightarrow> nat" where
  "code c = of_char c"

definition is_digit :: "char \<Rightarrow> bool" where
  "is_digit c \<longleftrightarrow> 48 \<le> code c \<and> code c \<le> 57"

definition digit_val :: "char \<Rightarrow> nat" where
  "digit_val c = code c - 48"

definition is_lower :: "char \<Rightarrow> bool" where
  "is_lower c \<longleftrightarrow> 97 \<le> code c \<and> code c \<le> 122"

definition is_upper :: "char \<Rightarrow> bool" where
  "is_upper c \<longleftrightarrow> 65 \<le> code c \<and> code c \<le> 90"

definition lower_char :: "char \<Rightarrow> char" where
  "lower_char c = (if is_upper c then char_of (code c + 32) else c)"

definition upper_char :: "char \<Rightarrow> char" where
  "upper_char c = (if is_lower c then char_of (code c - 32) else c)"

definition is_ascii :: "string \<Rightarrow> bool" where
  "is_ascii s \<longleftrightarrow> list_all (\<lambda>c. code c < 128) s"

lemma code_lt_256 [simp]: "code c < 256"
  by (simp add: code_def)

lemma code_inject: "code c = code d \<longleftrightarrow> c = d"
  by (simp add: code_def)

lemma code_char_of [simp]: "n < 256 \<Longrightarrow> code (char_of n) = n"
  by (simp add: code_def)

lemma lower_char_id: "\<not> is_upper c \<Longrightarrow> lower_char c = c"
  by (simp add: lower_char_def)

lemma lower_char_idem [simp]: "lower_char (lower_char c) = lower_char c"
  by (auto simp: lower_char_def is_upper_def)

section \<open>The strings package\<close>

definition HasPrefix :: "string \<Rightarrow> string \<Rightarrow> bool" where
  "HasPrefix s p \<longleftrightarrow> prefix p s"

definition HasSuffix :: "string \<Rightarrow> string \<Rightarrow> bool" where
  "HasSuffix s p \<longleftrightarrow> suffix p s"

definition TrimSuffix :: "string \<Rightarrow> string \<Rightarrow> string" where
  "TrimSuffix s p = (if HasSuffix s p then take (length s - length p) s else s)"

definition TrimPrefix :: "string \<Rightarrow> string \<Rightarrow> string" where
  "TrimPrefix s p = (if HasPrefix s p then drop (length p) s else s)"

definition ContainsByte :: "string \<Rightarrow> char \<Rightarrow> bool" where
  "ContainsByte s c \<longleftrightarrow> c \<in> set s"

definition CountByte :: "string \<Rightarrow> char \<Rightarrow> nat" where
  "CountByte s c = count_list s c"

text \<open>\<^verbatim>\<open>strings.Split\<close> for a one-byte separator.\<close>

fun SplitByte :: "char \<Rightarrow> string \<Rightarrow> string list" where
  "SplitByte c [] = [[]]"
| "SplitByte c (x # xs) =
     (if x = c then [] # SplitByte c xs
      else (case SplitByte c xs of [] \<Rightarrow> [[x]] | y # ys \<Rightarrow> (x # y) # ys))"

text \<open>\<^verbatim>\<open>strings.Join\<close>.\<close>

fun Join :: "string list \<Rightarrow> string \<Rightarrow> string" where
  "Join [] sep = []"
| "Join [x] sep = x"
| "Join (x # y # xs) sep = x @ sep @ Join (y # xs) sep"

text \<open>\<^verbatim>\<open>strings.Index\<close> and, for a separator of any positive length, \<^verbatim>\<open>strings.Split\<close>.\<close>

fun Index :: "string \<Rightarrow> string \<Rightarrow> nat option" where
  "Index [] sep = (if sep = [] then Some 0 else None)"
| "Index (x # xs) sep = (if prefix sep (x # xs) then Some 0 else map_option Suc (Index xs sep))"

lemma Index_bound: "Index s sep = Some i \<Longrightarrow> i + length sep \<le> length s"
  by (induction s sep arbitrary: i rule: Index.induct)
    (auto split: if_splits dest: prefix_length_le)

function Split :: "string \<Rightarrow> string \<Rightarrow> string list" where
  "Split s sep =
     (if sep = [] then [s]
      else (case Index s sep of
              None \<Rightarrow> [s]
            | Some i \<Rightarrow> take i s # Split (drop (i + length sep) s) sep))"
  by pat_completeness auto
termination
proof (relation "measure (\<lambda>(s, sep). length s)", goal_cases)
  case 1
  show ?case by simp
next
  case (2 s sep i)
  then have "i + length sep \<le> length s" "0 < length sep" by (auto dest: Index_bound)
  then have "length s - (i + length sep) < length s" by linarith
  then show ?case by simp
qed

declare Split.simps [simp del]

text \<open>\<^verbatim>\<open>strings.Cut\<close> at a one-byte separator: the parts around its first occurrence.\<close>

definition CutByte :: "string \<Rightarrow> char \<Rightarrow> (string \<times> string) option" where
  "CutByte s c =
     (if c \<in> set s
      then Some (takeWhile (\<lambda>x. x \<noteq> c) s, tl (dropWhile (\<lambda>x. x \<noteq> c) s))
      else None)"

text \<open>
  \<^verbatim>\<open>strings.ToLower\<close>. Go lowers an ASCII string byte by byte; any other string goes through
  the Unicode tables of package \<^verbatim>\<open>unicode\<close>, which the parameter \<open>ul\<close> stands for.
  Every definition that lowers a string takes it as its first argument.
\<close>

definition ToLower :: "(string \<Rightarrow> string) \<Rightarrow> string \<Rightarrow> string" where
  "ToLower ul s = (if is_ascii s then map lower_char s else ul s)"

text \<open>
  Case folding of a string that is compared with an ASCII constant (\<^verbatim>\<open>strings.EqualFold\<close>,
  and the field lookup of \<^verbatim>\<open>encoding/json\<close>): ASCII letters fold to upper case, and
  the only other runes whose fold orbit meets ASCII are U+017F (bytes C5 BF, folds to S) and
  U+212A (bytes E2 84 AA, folds to K).
\<close>

fun foldName :: "string \<Rightarrow> string" where
  "foldName [] = []"
| "foldName (a # b # c # s) =
     (if a = CHR 0xE2 \<and> b = CHR 0x84 \<and> c = CHR 0xAA then CHR ''K'' # foldName s
      else if a = CHR 0xC5 \<and> b = CHR 0xBF then CHR ''S'' # foldName (c # s)
      else upper_char a # foldName (b # c # s))"
| "foldName [a, b] =
     (if a = CHR 0xC5 \<and> b = CHR 0xBF then [CHR ''S''] else [upper_char a, upper_char b])"
| "foldName [a] = [upper_char a]"

definition EqualFoldASCII :: "string \<Rightarrow> string \<Rightarrow> bool" where
  "EqualFoldASCII s t \<longleftrightarrow> foldName s = map upper_char t"

section \<open>Decimal numbers\<close>

fun itoa :: "nat \<Rightarrow> string" where
  "itoa n = (if n < 10 then [char_of (48 + n)] else itoa (n div 10) @ [char_of (48 + n mod 10)])"

declare itoa.simps [simp del]

definition atoi :: "string \<Rightarrow> nat" where
  "atoi s = foldl (\<lambda>n c. n * 10 + digit_val c) 0 s"

definition all_digits :: "string \<Rightarrow> bool" where
  "all_digits s \<longleftrightarrow> list_all is_digit s"

text \<open>\<^verbatim>\<open>strconv.ParseUint(s, 10, 16)\<close>: digits only, at least one, value at most 65535.\<close>

definition ParseUint16 :: "string \<Rightarrow> nat option" where
  "ParseUint16 s = (if s \<noteq> [] \<and> all_digits s \<and> atoi s \<le> 65535 then Some (atoi s) else None)"

lemma atoi_snoc [simp]: "atoi (s @ [c]) = atoi s * 10 + digit_val c"
  by (simp add: atoi_def)

lemma atoi_Nil [simp]: "atoi [] = 0"
  by (simp add: atoi_def)

lemma digit_val_char_of [simp]: "n < 10 \<Longrightarrow> digit_val (char_of (48 + n :: nat)) = n"
  by (simp add: digit_val_def)

lemma is_digit_char_of [simp]: "n < 10 \<Longrightarrow> is_digit (char_of (48 + n :: nat))"
  by (simp add: is_digit_def)

lemma digit_val_le: "is_digit c \<Longrightarrow> digit_val c \<le> 9"
  by (auto simp: is_digit_def digit_val_def)

lemma itoa_nonempty [simp]: "itoa n \<noteq> []"
  by (subst itoa.simps) simp

lemma itoa_small: "n < 10 \<Longrightarrow> itoa n = [char_of (48 + n)]"
  by (subst itoa.simps) simp

lemma itoa_digits [simp]: "all_digits (itoa n)"
proof (induction n rule: itoa.induct)
  case (1 n)
  then show ?case
    by (subst itoa.simps) (auto simp: all_digits_def)
qed

lemma atoi_itoa [simp]: "atoi (itoa n) = n"
proof (induction n rule: itoa.induct)
  case (1 n)
  show ?case
  proof (cases "n < 10")
    case True
    then show ?thesis
      by (subst itoa.simps) (simp add: atoi_def)
  next
    case False
    with 1 have "atoi (itoa (n div 10)) = n div 10" by simp
    with False show ?thesis
      by (subst itoa.simps) simp
  qed
qed

lemma itoa_no_leading_zero: "0 < n \<Longrightarrow> hd (itoa n) \<noteq> CHR ''0''"
proof (induction n rule: itoa.induct)
  case (1 n)
  show ?case
  proof (cases "n < 10")
    case True
    with 1 have "code (char_of (48 + n)) \<noteq> code CHR ''0''"
      by (simp add: code_def)
    then have "char_of (48 + n) \<noteq> CHR ''0''" by (simp only: code_inject) simp
    with True show ?thesis by (subst itoa.simps) auto
  next
    case False
    with 1 have "hd (itoa (n div 10)) \<noteq> CHR ''0''" by simp
    with False show ?thesis by (subst itoa.simps) simp
  qed
qed

lemma itoa_zero [simp]: "itoa 0 = ''0''"
proof -
  have "code (char_of (48 :: nat)) = code CHR ''0''" by (simp add: code_def)
  then have "char_of (48 :: nat) = CHR ''0''" by (simp only: code_inject)
  then show ?thesis by (subst itoa.simps) simp
qed

lemma digit_not_sep:
  "all_digits s \<Longrightarrow> \<not> is_digit c \<Longrightarrow> c \<notin> set s"
  by (auto simp: all_digits_def list_all_iff)

section \<open>Splitting and joining\<close>

lemma SplitByte_nonempty [simp]: "SplitByte c s \<noteq> []"
  by (induction s) (auto split: list.splits)

lemma SplitByte_no_sep: "c \<notin> set s \<Longrightarrow> SplitByte c s = [s]"
  by (induction s) auto

lemma SplitByte_append:
  "c \<notin> set s \<Longrightarrow> SplitByte c (s @ c # t) = s # SplitByte c t"
  by (induction s) auto

lemma SplitByte_concat: "SplitByte c (s @ c # t) = SplitByte c s @ SplitByte c t"
  by (induction s) (auto split: list.splits simp: append_eq_Cons_conv)

lemma SplitByte_parts: "x \<in> set (SplitByte c s) \<Longrightarrow> c \<notin> set x"
  by (induction s arbitrary: x) (auto split: list.splits if_splits)

lemma SplitByte_chars: "x \<in> set (SplitByte c s) \<Longrightarrow> set x \<subseteq> set s"
  by (induction s arbitrary: x) (force split: list.splits if_splits)+

lemma SplitByte_Join:
  "xs \<noteq> [] \<Longrightarrow> list_all (\<lambda>x. c \<notin> set x) xs \<Longrightarrow> SplitByte c (Join xs [c]) = xs"
  by (induction xs "[c]" rule: Join.induct) (auto simp: SplitByte_no_sep SplitByte_append)

lemma Join_SplitByte: "Join (SplitByte c s) [c] = s"
proof (induction s)
  case Nil
  show ?case by simp
next
  case (Cons x s)
  obtain y ys where "SplitByte c s = y # ys"
    using SplitByte_nonempty [of c s] by (cases "SplitByte c s") auto
  with Cons show ?case by (cases ys) auto
qed

lemma SplitByte_length: "length (SplitByte c s) = Suc (count_list s c)"
  by (induction s) (auto split: list.splits)

lemma list_all_split: "list_all P s \<Longrightarrow> x \<in> set (SplitByte c s) \<Longrightarrow> list_all P x"
  using SplitByte_chars by (fastforce simp: list_all_iff)

lemma Join_inject:
  assumes "Join xs [c] = Join ys [c]" "xs \<noteq> []" "ys \<noteq> []"
    and "list_all (\<lambda>x. c \<notin> set x) xs" "list_all (\<lambda>x. c \<notin> set x) ys"
  shows "xs = ys"
  using assms SplitByte_Join by metis

lemma takeWhile_sep: "c \<notin> set s \<Longrightarrow> takeWhile (\<lambda>x. x \<noteq> c) (s @ c # t) = s"
  by (induction s) auto

lemma dropWhile_sep: "c \<notin> set s \<Longrightarrow> dropWhile (\<lambda>x. x \<noteq> c) (s @ c # t) = c # t"
  by (induction s) auto

lemma sep_append_inject:
  "c \<notin> set a \<Longrightarrow> c \<notin> set b \<Longrightarrow> a @ c # s = b @ c # t \<Longrightarrow> a = b \<and> s = t"
  by (auto simp: append_eq_append_conv2 Cons_eq_append_conv append_eq_Cons_conv)

lemma CutByte_SomeD:
  assumes "CutByte s c = Some (a, b)"
  shows "s = a @ c # b" "c \<notin> set a"
proof -
  from assms have "c \<in> set s" by (simp add: CutByte_def split: if_splits)
  then obtain x y where xy: "s = x @ c # y" "c \<notin> set x" by (meson split_list_first)
  with assms show "s = a @ c # b" "c \<notin> set a"
    by (auto simp: CutByte_def takeWhile_sep dropWhile_sep)
qed

lemma prefix_sep:
  assumes "c \<notin> set m" "c \<notin> set n"
  shows "prefix (m @ [c]) (n @ c # v) \<longleftrightarrow> m = n"
proof
  assume "prefix (m @ [c]) (n @ c # v)"
  then obtain z where "n @ c # v = m @ c # z" by (auto simp: prefix_def)
  from sep_append_inject [OF assms(2,1) this] show "m = n" by simp
qed simp

section \<open>Trimming and lowering\<close>

lemma TrimSuffix_append [simp]: "TrimSuffix (s @ p) p = s"
  by (simp add: TrimSuffix_def HasSuffix_def suffix_def)

lemma TrimSuffix_id: "\<not> suffix p s \<Longrightarrow> TrimSuffix s p = s"
  by (simp add: TrimSuffix_def HasSuffix_def)

lemma set_TrimSuffix: "set (TrimSuffix s p) \<subseteq> set s"
  by (auto simp: TrimSuffix_def dest: in_set_takeD)

lemma suffix_single_iff: "suffix [c] s \<longleftrightarrow> s \<noteq> [] \<and> last s = c"
  by (cases s rule: rev_cases) auto

lemma ToLower_ascii: "is_ascii s \<Longrightarrow> ToLower ul s = map lower_char s"
  by (simp add: ToLower_def)

lemma ToLower_fixed:
  assumes "list_all (\<lambda>c. code c < 128 \<and> \<not> is_upper c) s"
  shows "ToLower ul s = s"
proof -
  have "is_ascii s" using assms by (auto simp: is_ascii_def list_all_iff)
  moreover have "map lower_char s = s"
    using assms by (auto simp: list_all_iff lower_char_id intro: map_idI)
  ultimately show ?thesis by (simp add: ToLower_def)
qed

lemma is_digit_lower_ascii: "is_digit c \<Longrightarrow> code c < 128 \<and> \<not> is_upper c"
  by (auto simp: is_digit_def is_upper_def)

lemma is_lower_ascii: "is_lower c \<Longrightarrow> code c < 128 \<and> \<not> is_upper c"
  by (auto simp: is_lower_def is_upper_def)

end
