(* ===== verification/Netip.thy ===== *)
theory Netip
  imports Prelude
begin

unbundle bit_operations_syntax

text \<open>
  The parts of Go's \<^verbatim>\<open>net/netip\<close> and \<^verbatim>\<open>net\<close> packages the gateway computes with:
  addresses and their successor and order, CIDR prefixes with containment and overlap, parsing
  and printing of both, and splitting and joining of host:port endpoints. The lemmas reduce
  IPv4 containment and overlap to intervals of natural numbers and give the print/parse round
  trips on which the keys of the allocation table rest.
\<close>

section \<open>Addresses\<close>

text \<open>
  \<^verbatim>\<open>netip.Addr\<close>: the zero value, an IPv4 address, or an IPv6 address with its zone.
\<close>

datatype addr = NoAddr | V4 "32 word" | V6 "128 word" string

definition IsValid :: "addr \<Rightarrow> bool" where
  "IsValid a \<longleftrightarrow> a \<noteq> NoAddr"

fun Is4 :: "addr \<Rightarrow> bool" where
  "Is4 (V4 w) = True"
| "Is4 _ = False"

fun Zone :: "addr \<Rightarrow> string" where
  "Zone (V6 w z) = z"
| "Zone _ = []"

fun Next :: "addr \<Rightarrow> addr" where
  "Next (V4 w) = (if w + 1 = 0 then NoAddr else V4 (w + 1))"
| "Next (V6 w z) = (if w + 1 = 0 then NoAddr else V6 (w + 1) z)"
| "Next NoAddr = NoAddr"

fun Prev :: "addr \<Rightarrow> addr" where
  "Prev (V4 w) = (if w = 0 then NoAddr else V4 (w - 1))"
| "Prev (V6 w z) = (if w = 0 then NoAddr else V6 (w - 1) z)"
| "Prev NoAddr = NoAddr"

text \<open>\<^verbatim>\<open>Addr.Less\<close>: shorter families first, then the value, then the zone.\<close>

fun zone_less :: "string \<Rightarrow> string \<Rightarrow> bool" where
  "zone_less s [] = False"
| "zone_less [] (y # ys) = True"
| "zone_less (x # xs) (y # ys) = (code x < code y \<or> (x = y \<and> zone_less xs ys))"

fun Less :: "addr \<Rightarrow> addr \<Rightarrow> bool" where
  "Less NoAddr b = (b \<noteq> NoAddr)"
| "Less (V4 v) (V4 w) = (v < w)"
| "Less (V4 v) (V6 w z) = True"
| "Less (V6 v y) (V6 w z) = (v < w \<or> (v = w \<and> zone_less y z))"
| "Less _ _ = False"

lemma zone_less_irrefl: "\<not> zone_less s s"
  by (induction s) auto

lemma zone_less_trans: "zone_less r s \<Longrightarrow> zone_less s t \<Longrightarrow> zone_less r t"
proof (induction r s arbitrary: t rule: zone_less.induct)
  case (2 y ys)
  then show ?case by (cases t) auto
next
  case (3 x xs y ys)
  then show ?case by (cases t) auto
qed simp

lemma zone_less_total: "zone_less s t \<or> s = t \<or> zone_less t s"
  by (induction s t rule: zone_less.induct) (auto simp: code_inject neq_iff split: list.splits, (metis code_inject linorder_neqE_nat neq_Nil_conv zone_less.simps(2))+)

lemma Less_irrefl: "\<not> Less a a"
  by (cases a) (simp_all add: zone_less_irrefl)

lemma Less_trans: "Less a b \<Longrightarrow> Less b c \<Longrightarrow> Less a c"
  by (cases a; cases b; cases c) (auto intro: zone_less_trans)

lemma Less_total: "Less a b \<or> a = b \<or> Less b a"
  using zone_less_total by (cases a; cases b) auto

text \<open>The order of addresses is linear, with the invalid address at its bottom.\<close>

instantiation addr :: linorder
begin

definition less_addr :: "addr \<Rightarrow> addr \<Rightarrow> bool" where
  "less_addr = Less"

definition less_eq_addr :: "addr \<Rightarrow> addr \<Rightarrow> bool" where
  "less_eq_addr a b \<longleftrightarrow> Less a b \<or> a = b"

instance
proof
  fix a b c :: addr
  show "(a < b) = (a \<le> b \<and> \<not> b \<le> a)"
    using Less_irrefl Less_trans by (metis less_addr_def less_eq_addr_def)
  show "a \<le> a" by (simp add: less_eq_addr_def)
  show "a \<le> b \<Longrightarrow> b \<le> c \<Longrightarrow> a \<le> c" using Less_trans by (metis less_eq_addr_def)
  show "a \<le> b \<Longrightarrow> b \<le> a \<Longrightarrow> a = b" using Less_irrefl Less_trans by (metis less_eq_addr_def)
  show "a \<le> b \<or> b \<le> a" using Less_total by (metis less_eq_addr_def)
qed

end

lemma NoAddr_least [simp]: "NoAddr \<le> a"
  by (simp add: less_eq_addr_def)

section \<open>Prefixes\<close>

datatype prefix = Pfx (pfx_addr: addr) (pfx_bits: nat)

fun Masked :: "prefix \<Rightarrow> prefix" where
  "Masked (Pfx (V4 p) b) = Pfx (V4 (p AND NOT (mask (32 - b)))) b"
| "Masked (Pfx (V6 p z) b) = Pfx (V6 (p AND NOT (mask (128 - b))) []) b"
| "Masked p = p"

fun Contains :: "prefix \<Rightarrow> addr \<Rightarrow> bool" where
  "Contains (Pfx (V4 p) b) (V4 w) = (b \<le> 32 \<and> drop_bit (32 - b) (w XOR p) = 0)"
| "Contains (Pfx (V6 p y) b) (V6 w z) = (b \<le> 128 \<and> z = [] \<and> drop_bit (128 - b) (w XOR p) = 0)"
| "Contains _ _ = False"

definition prefix_valid :: "prefix \<Rightarrow> bool" where
  "prefix_valid p = (case p of Pfx (V4 _) b \<Rightarrow> b \<le> 32 | Pfx (V6 _ _) b \<Rightarrow> b \<le> 128 | _ \<Rightarrow> False)"

definition Overlaps :: "prefix \<Rightarrow> prefix \<Rightarrow> bool" where
  "Overlaps p q =
     (if \<not> prefix_valid p \<or> \<not> prefix_valid q then False
      else if p = q then True
      else if Is4 (pfx_addr p) \<noteq> Is4 (pfx_addr q) then False
      else (let m = min (pfx_bits p) (pfx_bits q) in
            if m = 0 then True
            else pfx_addr (Masked (Pfx (pfx_addr p) m)) = pfx_addr (Masked (Pfx (pfx_addr q) m))))"

definition containsPrefix :: "prefix list \<Rightarrow> addr \<Rightarrow> bool" where
  "containsPrefix ps a \<longleftrightarrow> list_ex (\<lambda>p. Contains p a) ps"

definition samePrefixSlice :: "prefix list \<Rightarrow> prefix list \<Rightarrow> bool" where
  "samePrefixSlice a b \<longleftrightarrow> length a = length b \<and> list_all2 (=) a b"

lemma samePrefixSlice_eq [simp]: "samePrefixSlice a b \<longleftrightarrow> a = b"
  by (auto simp: samePrefixSlice_def list.rel_eq)

section \<open>Parsing addresses\<close>

text \<open>One decimal field of a dotted quad: digits, no leading zero, at most 255.\<close>

definition parse_octet :: "string \<Rightarrow> nat option" where
  "parse_octet s =
     (if s \<noteq> [] \<and> all_digits s \<and> (length s = 1 \<or> hd s \<noteq> CHR ''0'') \<and> atoi s \<le> 255
      then Some (atoi s) else None)"

definition parseIPv4Fields :: "string \<Rightarrow> (nat \<times> nat \<times> nat \<times> nat) option" where
  "parseIPv4Fields s =
     (case map parse_octet (SplitByte (CHR ''.'') s) of
        [Some a, Some b, Some c, Some d] \<Rightarrow> Some (a, b, c, d)
      | _ \<Rightarrow> None)"

definition AddrFrom4 :: "nat \<Rightarrow> nat \<Rightarrow> nat \<Rightarrow> nat \<Rightarrow> addr" where
  "AddrFrom4 a b c d =
     V4 (((of_nat a * 256 + of_nat b) * 256 + of_nat c) * 256 + of_nat d)"

definition hex_val :: "char \<Rightarrow> nat option" where
  "hex_val c =
     (if is_digit c then Some (digit_val c)
      else if 97 \<le> code c \<and> code c \<le> 102 then Some (code c - 87)
      else if 65 \<le> code c \<and> code c \<le> 70 then Some (code c - 55)
      else None)"

definition hex_num :: "string \<Rightarrow> nat" where
  "hex_num s = foldl (\<lambda>n c. n * 16 + (case hex_val c of None \<Rightarrow> 0 | Some v \<Rightarrow> v)) 0 s"

text \<open>
  The group loop of \<^verbatim>\<open>parseIPv6\<close>: the position of the ellipsis, the bytes read so far and
  the text left; it ends after 16 bytes or at the end of the text.
\<close>

function parse6 ::
  "nat option \<Rightarrow> nat list \<Rightarrow> string \<Rightarrow> (nat option \<times> nat list \<times> string) option" where
  "parse6 ell bs s =
     (if 16 \<le> length bs then Some (ell, bs, s)
      else let h = takeWhile (\<lambda>c. hex_val c \<noteq> None) s; r = drop (length h) s in
        if 4 < length h \<or> h = [] then None
        else if r \<noteq> [] \<and> hd r = CHR ''.'' then
          (if ell = None \<and> length bs \<noteq> 12 then None
           else if 16 < length bs + 4 then None
           else (case parseIPv4Fields s of
                   None \<Rightarrow> None
                 | Some (a, b, c, d) \<Rightarrow> Some (ell, bs @ [a, b, c, d], [])))
        else let bs' = bs @ [hex_num h div 256, hex_num h mod 256] in
          if r = [] then Some (ell, bs', [])
          else if hd r \<noteq> CHR '':'' \<or> length r = 1 then None
          else let s' = tl r in
            if hd s' = CHR '':'' then
              (if ell \<noteq> None then None
               else if tl s' = [] then Some (Some (length bs'), bs', [])
               else parse6 (Some (length bs')) bs' (tl s'))
            else parse6 ell bs' s')"
  by pat_completeness auto
termination
  by (relation "measure (\<lambda>(ell, bs, s). 16 - length bs)") auto

declare parse6.simps [simp del]

definition expand6 :: "nat option \<Rightarrow> nat list \<Rightarrow> string \<Rightarrow> nat list option" where
  "expand6 ell bs s =
     (if s \<noteq> [] then None
      else if length bs < 16 then
        (case ell of
           None \<Rightarrow> None
         | Some e \<Rightarrow> Some (take e bs @ replicate (16 - length bs) 0 @ drop e bs))
      else if ell \<noteq> None then None
      else Some bs)"

definition horner_bytes :: "nat list \<Rightarrow> 128 word" where
  "horner_bytes bs = foldl (\<lambda>n b. n * 256 + of_nat b) 0 bs"

definition parseIPv6 :: "string \<Rightarrow> addr option" where
  "parseIPv6 input =
     (let s = takeWhile (\<lambda>c. c \<noteq> CHR ''%'') input;
          r = dropWhile (\<lambda>c. c \<noteq> CHR ''%'') input;
          zone = tl r in
      if r \<noteq> [] \<and> zone = [] then None
      else if s = ''::'' then Some (V6 0 zone)
      else (case (if HasPrefix s ''::'' then parse6 (Some 0) [] (drop 2 s) else parse6 None [] s) of
              None \<Rightarrow> None
            | Some (ell, bs, rest) \<Rightarrow>
                (case expand6 ell bs rest of
                   None \<Rightarrow> None
                 | Some full \<Rightarrow> Some (V6 (horner_bytes full) zone))))"

definition parseIPv4 :: "string \<Rightarrow> addr option" where
  "parseIPv4 s = map_option (\<lambda>(a, b, c, d). AddrFrom4 a b c d) (parseIPv4Fields s)"

definition ParseAddr :: "string \<Rightarrow> addr option" where
  "ParseAddr s =
     (case dropWhile (\<lambda>c. c \<noteq> CHR ''.'' \<and> c \<noteq> CHR '':'' \<and> c \<noteq> CHR ''%'') s of
        [] \<Rightarrow> None
      | c # _ \<Rightarrow>
          if c = CHR ''.'' then parseIPv4 s
          else if c = CHR '':'' then parseIPv6 s
          else None)"

text \<open>\<^verbatim>\<open>net.ParseIP\<close>, of which the gateway only uses whether it succeeds.\<close>

definition ParseIP_ok :: "string \<Rightarrow> bool" where
  "ParseIP_ok s \<longleftrightarrow> (case ParseAddr s of None \<Rightarrow> False | Some a \<Rightarrow> Zone a = [])"

text \<open>\<^verbatim>\<open>strings.LastIndexByte\<close> as a split around the last occurrence.\<close>

definition CutLastByte :: "string \<Rightarrow> char \<Rightarrow> (string \<times> string) option" where
  "CutLastByte s c =
     (if c \<in> set s
      then Some (rev (tl (dropWhile (\<lambda>x. x \<noteq> c) (rev s))), rev (takeWhile (\<lambda>x. x \<noteq> c) (rev s)))
      else None)"

definition ParsePrefix :: "string \<Rightarrow> prefix option" where
  "ParsePrefix s =
     (case CutLastByte s (CHR ''/'') of
        None \<Rightarrow> None
      | Some (a, bits) \<Rightarrow>
          (case ParseAddr a of
             None \<Rightarrow> None
           | Some ip \<Rightarrow>
               if Zone ip \<noteq> [] then None
               else if 1 < length bits \<and> hd bits = CHR ''0'' then None
               else if bits = [] \<or> \<not> all_digits bits then None
               else if (if Is4 ip then 32 else 128) < atoi bits then None
               else Some (Pfx ip (atoi bits))))"

section \<open>Printing addresses\<close>

definition octet :: "nat \<Rightarrow> 32 word \<Rightarrow> nat" where
  "octet i w = unat (drop_bit (8 * i) w AND 255)"

definition string4 :: "32 word \<Rightarrow> string" where
  "string4 w = Join (map itoa [octet 3 w, octet 2 w, octet 1 w, octet 0 w]) ''.''"

fun hex_str :: "nat \<Rightarrow> string" where
  "hex_str n =
     (let d = (\<lambda>k. if k < 10 then char_of (48 + k) else char_of (87 + k)) in
      if n < 16 then [d n] else hex_str (n div 16) @ [d (n mod 16)])"

declare hex_str.simps [simp del]

definition group6 :: "128 word \<Rightarrow> nat \<Rightarrow> nat" where
  "group6 w i = unat (drop_bit (16 * (7 - i)) w AND 65535)"

fun best_run :: "nat list \<Rightarrow> nat \<Rightarrow> nat \<times> nat \<Rightarrow> nat \<times> nat" where
  "best_run [] i best = best"
| "best_run (g # gs) i (zs, ze) =
     (let l = length (takeWhile (\<lambda>x. x = 0) (g # gs)) in
      best_run gs (Suc i) (if 2 \<le> l \<and> ze - zs < l then (i, i + l) else (zs, ze)))"

function print6 :: "nat list \<Rightarrow> nat \<Rightarrow> nat \<Rightarrow> nat \<Rightarrow> string" where
  "print6 gs zs ze i =
     (if 8 \<le> i then []
      else if i = zs \<and> zs < ze then
        ''::'' @ (if 8 \<le> ze then [] else hex_str (gs ! ze) @ print6 gs zs ze (Suc ze))
      else (if 0 < i then '':'' else []) @ hex_str (gs ! i) @ print6 gs zs ze (Suc i))"
  by pat_completeness auto
termination
  by (relation "measure (\<lambda>(gs, zs, ze, i). 8 - i)") auto

declare print6.simps [simp del]

fun AddrString :: "addr \<Rightarrow> string" where
  "AddrString NoAddr = ''invalid IP''"
| "AddrString (V4 w) = string4 w"
| "AddrString (V6 w z) =
     (let gs = map (group6 w) [0..<8]; zone = (if z = [] then [] else CHR ''%'' # z) in
      if drop_bit 32 w = 65535 then ''::ffff:'' @ string4 (ucast w) @ zone
      else (case best_run gs 0 (255, 255) of (zs, ze) \<Rightarrow> print6 gs zs ze 0 @ zone))"

definition PrefixString :: "prefix \<Rightarrow> string" where
  "PrefixString p = AddrString (pfx_addr p) @ ''/'' @ itoa (pfx_bits p)"

section \<open>Endpoints\<close>

definition SplitHostPort :: "string \<Rightarrow> (string \<times> string) option" where
  "SplitHostPort hp =
     (case CutLastByte hp (CHR '':'') of
        None \<Rightarrow> None
      | Some (bef, port) \<Rightarrow>
          if hd hp = CHR ''['' then
            (if CHR '']'' \<notin> set hp then None
             else let host = takeWhile (\<lambda>c. c \<noteq> CHR '']'') (tl hp) in
               if length host + 2 \<noteq> length bef then None
               else if CHR ''['' \<in> set (tl hp) then None
               else if CHR '']'' \<in> set port then None
               else Some (host, port))
          else if CHR '':'' \<in> set bef then None
          else if CHR ''['' \<in> set hp then None
          else if CHR '']'' \<in> set hp then None
          else Some (bef, port))"

definition JoinHostPort :: "string \<Rightarrow> string \<Rightarrow> string" where
  "JoinHostPort host port =
     (if CHR '':'' \<in> set host then ''['' @ host @ '']:'' @ port else host @ '':'' @ port)"

section \<open>IPv4 prefixes as intervals\<close>

definition psize :: "prefix \<Rightarrow> nat" where
  "psize p = 2 ^ (32 - pfx_bits p)"

definition plow :: "prefix \<Rightarrow> nat" where
  "plow p = (case pfx_addr p of V4 w \<Rightarrow> unat w | _ \<Rightarrow> 0)"

text \<open>A canonical IPv4 prefix: no host bit is set, which is what the range checks demand.\<close>

definition canon4 :: "prefix \<Rightarrow> bool" where
  "canon4 p \<longleftrightarrow> Is4 (pfx_addr p) \<and> pfx_bits p \<le> 32 \<and> p = Masked p"

lemma psize_pos [simp]: "0 < psize p"
  by (simp add: psize_def)

lemma unat_lt_32 [simp]: "unat (w :: 32 word) < 4294967296"
  using unsigned_less [of w, where ?'a = nat] by simp

lemma mask_out_eq: "(p :: 32 word) AND NOT (mask n) = push_bit n (drop_bit n p)"
  by (rule bit_word_eqI) (auto simp: bit_simps)

lemma unat_mask_out: "unat ((p :: 32 word) AND NOT (mask n)) = unat p div 2 ^ n * 2 ^ n"
proof -
  have "unat p div 2 ^ n * 2 ^ n \<le> unat p" by simp
  then have "unat p div 2 ^ n * 2 ^ n < 4294967296" using unat_lt_32 le_less_trans by blast
  moreover have "unat (push_bit n (drop_bit n p)) = take_bit 32 (push_bit n (drop_bit n (unat p)))"
    by (simp only: unsigned_push_bit_eq unat_drop_bit_eq) simp
  ultimately show ?thesis
    by (simp only: mask_out_eq push_bit_eq_mult drop_bit_eq_div take_bit_eq_mod) simp
qed

lemma xor_eq_0_iff_word: "(a :: 32 word) XOR b = 0 \<longleftrightarrow> a = b"
proof
  assume "a XOR b = 0"
  then have "(a XOR b) XOR b = 0 XOR b" by (rule arg_cong [where f = "\<lambda>x. x XOR b"])
  then show "a = b" by (simp only: xor.assoc xor_self_eq xor.right_neutral xor.left_neutral)
qed simp

lemma drop_bit_xor_0_iff:
  "drop_bit n ((w :: 32 word) XOR p) = 0 \<longleftrightarrow> unat w div 2 ^ n = unat p div 2 ^ n"
proof -
  have "drop_bit n (w XOR p) = 0 \<longleftrightarrow> drop_bit n w = drop_bit n p"
    by (simp only: drop_bit_xor xor_eq_0_iff_word)
  also have "\<dots> \<longleftrightarrow> unat (drop_bit n w) = unat (drop_bit n p)" by (rule word_unat_eq_iff)
  also have "\<dots> \<longleftrightarrow> unat w div 2 ^ n = unat p div 2 ^ n"
    by (simp only: unat_drop_bit_eq drop_bit_eq_div [of n "unat w"] drop_bit_eq_div [of n "unat p"])
  finally show ?thesis .
qed

lemma Contains_V4_iff:
  "Contains (Pfx (V4 p) b) (V4 w) \<longleftrightarrow>
     b \<le> 32 \<and> unat w div 2 ^ (32 - b) = unat p div 2 ^ (32 - b)"
  by (simp only: Contains.simps drop_bit_xor_0_iff)

lemma canon4_iff:
  "canon4 (Pfx (V4 p) b) \<longleftrightarrow> b \<le> 32 \<and> 2 ^ (32 - b) dvd unat p"
proof -
  have "p = p AND NOT (mask (32 - b)) \<longleftrightarrow> unat p = unat p div 2 ^ (32 - b) * 2 ^ (32 - b)"
    by (metis unat_mask_out word_unat_eq_iff)
  also have "\<dots> \<longleftrightarrow> 2 ^ (32 - b) dvd unat p"
    by (metis dvd_div_mult_self dvd_triv_right)
  finally show ?thesis by (auto simp: canon4_def)
qed

lemma canon4E:
  assumes "canon4 p"
  obtains w b where "p = Pfx (V4 w) b" "b \<le> 32" "2 ^ (32 - b) dvd unat w" "plow p = unat w"
proof (cases p)
  case (Pfx a b)
  with assms obtain w where "a = V4 w" by (cases a) (auto simp: canon4_def)
  with Pfx assms show ?thesis
    by (intro that [of w b]) (auto simp: canon4_iff plow_def)
qed

lemma div_eq_interval:
  fixes x y :: nat
  assumes "0 < m" "m dvd y"
  shows "x div m = y div m \<longleftrightarrow> y \<le> x \<and> x < y + m"
proof -
  from assms obtain k where "y = m * k" by (auto simp: dvd_def)
  moreover have "x div m = k \<longleftrightarrow> m * k \<le> x \<and> x < m * k + m"
    using assms(1) by (metis add.commute div_nat_eqI less_eq_div_iff_mult_less_eq dividend_less_times_div
        mult.commute mult_Suc order_refl times_div_less_eq_dividend)
  ultimately show ?thesis using assms by simp
qed

text \<open>Containment in a canonical prefix is membership of an interval.\<close>

lemma Contains_interval:
  assumes "canon4 p"
  shows "Contains p (V4 w) \<longleftrightarrow> plow p \<le> unat w \<and> unat w < plow p + psize p"
  using assms by (elim canon4E) (auto simp: Contains_V4_iff div_eq_interval psize_def simp del: Contains.simps)

lemma Overlaps_common:
  assumes "canon4 p" "canon4 q" "Contains p a" "Contains q a"
  shows "Overlaps p q"
proof -
  from assms(1) obtain v b where p: "p = Pfx (V4 v) b" "b \<le> 32" by (auto elim: canon4E)
  from assms(2) obtain u c where q: "q = Pfx (V4 u) c" "c \<le> 32" by (auto elim: canon4E)
  from assms(3) p obtain w where a: "a = V4 w" by (cases a) auto
  let ?m = "min b c"
  have shift: "x div 2 ^ (32 - k) = y div 2 ^ (32 - k) \<Longrightarrow> ?m \<le> k \<Longrightarrow> k \<le> 32 \<Longrightarrow>
      x div 2 ^ (32 - ?m) = y div 2 ^ (32 - ?m)" for x y k :: nat
  proof -
    assume "x div 2 ^ (32 - k) = y div 2 ^ (32 - k)" "?m \<le> k" "k \<le> 32"
    moreover from this have "(2 :: nat) ^ (32 - ?m) = 2 ^ (32 - k) * 2 ^ (k - ?m)"
      by (simp flip: power_add)
    ultimately show ?thesis by (simp add: div_mult2_eq)
  qed
  have "unat w div 2 ^ (32 - b) = unat v div 2 ^ (32 - b)"
    "unat w div 2 ^ (32 - c) = unat u div 2 ^ (32 - c)"
    using assms(3,4) p q a by (auto simp only: Contains_V4_iff)
  then have "unat v div 2 ^ (32 - ?m) = unat u div 2 ^ (32 - ?m)"
    using shift [of "unat w" b "unat v"] shift [of "unat w" c "unat u"] p q by simp
  then have "v AND NOT (mask (32 - ?m)) = u AND NOT (mask (32 - ?m))"
    by (simp only: word_unat_eq_iff unat_mask_out)
  then show ?thesis using p q
    by (auto simp: Overlaps_def prefix_valid_def Let_def)
qed

lemma Contains_canon4_V4: "canon4 p \<Longrightarrow> Contains p a \<Longrightarrow> \<exists>w. a = V4 w"
  by (elim canon4E, cases a) auto


section \<open>Print and parse round trips\<close>

lemma octet_eq: "octet i w = unat w div 256 ^ i mod 256"
proof -
  have "drop_bit (8 * i) w AND 255 = take_bit 8 (drop_bit (8 * i) w)"
    by (simp add: take_bit_eq_mask mask_eq_exp_minus_1)
  then have "octet i w = unat (take_bit 8 (drop_bit (8 * i) w))" by (simp only: octet_def)
  also have "\<dots> = take_bit 8 (drop_bit (8 * i) (unat w))"
    by (simp only: unsigned_take_bit_eq unat_drop_bit_eq)
  also have "\<dots> = unat w div 256 ^ i mod 256"
    by (simp add: take_bit_eq_mod drop_bit_eq_div power_mult)
  finally show ?thesis .
qed

lemma octet_lt [simp]: "octet i w < 256"
  by (simp add: octet_eq)

lemma horner_octets:
  "((octet 3 w * 256 + octet 2 w) * 256 + octet 1 w) * 256 + octet 0 w = unat w"
proof -
  have w: "unat w div 256 div 256 div 256 < 256"
    using unat_lt_32 [of w] by (simp add: less_mult_imp_div_less)
  have step: "n div 256 * 256 + n mod 256 = n" for n :: nat
    by (rule div_mult_mod_eq)
  have p: "octet 0 w = unat w mod 256" "octet 1 w = unat w div 256 mod 256"
    "octet 2 w = unat w div 256 div 256 mod 256" "octet 3 w = unat w div 256 div 256 div 256"
    using w by (simp_all add: octet_eq flip: div_mult2_eq)
  show ?thesis by (simp only: p step)
qed

lemma parse_octet_itoa: "n < 256 \<Longrightarrow> parse_octet (itoa n) = Some n"
proof (cases "n = 0")
  case False
  then show "n < 256 \<Longrightarrow> ?thesis"
    using itoa_no_leading_zero [of n] by (simp add: parse_octet_def)
qed (simp add: parse_octet_def all_digits_def is_digit_def code_def atoi_def digit_val_def)

lemma itoa_no_char: "\<not> is_digit c \<Longrightarrow> c \<notin> set (itoa n)"
  by (rule digit_not_sep [OF itoa_digits])

lemma not_digit_chars [simp]:
  "\<not> is_digit CHR ''.''" "\<not> is_digit CHR '':''" "\<not> is_digit CHR ''%''" "\<not> is_digit CHR ''/''"
  "\<not> is_digit CHR '',''" "\<not> is_digit CHR ''-''"
  by (simp_all add: is_digit_def code_def)

lemma parseIPv4Fields_string4:
  "parseIPv4Fields (string4 w) = Some (octet 3 w, octet 2 w, octet 1 w, octet 0 w)"
proof -
  have "SplitByte CHR ''.'' (string4 w) = map itoa [octet 3 w, octet 2 w, octet 1 w, octet 0 w]"
    unfolding string4_def by (rule SplitByte_Join) (simp_all add: itoa_no_char)
  then show ?thesis
    by (simp add: parseIPv4Fields_def parse_octet_itoa)
qed

lemma parseIPv4_string4: "parseIPv4 (string4 w) = Some (V4 w)"
proof -
  have "((of_nat (octet 3 w) * 256 + of_nat (octet 2 w)) * 256 + of_nat (octet 1 w)) * 256 +
      of_nat (octet 0 w) = (of_nat (unat w) :: 32 word)"
    by (subst horner_octets [symmetric]) simp
  then have "AddrFrom4 (octet 3 w) (octet 2 w) (octet 1 w) (octet 0 w) = V4 w"
    unfolding AddrFrom4_def by simp
  then show ?thesis by (simp add: parseIPv4_def parseIPv4Fields_string4)
qed

lemma string4_dot: "\<exists>r. dropWhile (\<lambda>c. c \<noteq> CHR ''.'' \<and> c \<noteq> CHR '':'' \<and> c \<noteq> CHR ''%'') (string4 w)
     = CHR ''.'' # r"
proof -
  have "list_all (\<lambda>c. c \<noteq> CHR ''.'' \<and> c \<noteq> CHR '':'' \<and> c \<noteq> CHR ''%'') (itoa n)" for n
    using itoa_no_char [of "CHR ''.''" n] itoa_no_char [of "CHR '':''" n]
      itoa_no_char [of "CHR ''%''" n] by (auto simp: list_all_iff)
  then show ?thesis
    by (simp add: string4_def dropWhile_append2 list_all_iff)
qed

lemma ParseAddr_string4 [simp]: "ParseAddr (string4 w) = Some (V4 w)"
  using string4_dot [of w] by (auto simp: ParseAddr_def parseIPv4_string4)

lemma string4_inject [simp]: "string4 v = string4 w \<longleftrightarrow> v = w"
  by (metis ParseAddr_string4 addr.inject(1) option.inject)

lemma CutLastByte_append:
  "c \<notin> set t \<Longrightarrow> CutLastByte (s @ c # t) c = Some (s, t)"
  by (simp add: CutLastByte_def takeWhile_sep dropWhile_sep)

lemma string4_chars: "c \<in> set (string4 w) \<Longrightarrow> is_digit c \<or> c = CHR ''.''"
  using itoa_digits by (auto simp: string4_def all_digits_def list_all_iff)

lemma ParsePrefix_PrefixString:
  assumes "b \<le> 32"
  shows "ParsePrefix (PrefixString (Pfx (V4 w) b)) = Some (Pfx (V4 w) b)"
proof -
  have "CutLastByte (PrefixString (Pfx (V4 w) b)) CHR ''/'' = Some (string4 w, itoa b)"
    by (simp add: PrefixString_def CutLastByte_append itoa_no_char)
  moreover have "\<not> (1 < length (itoa b) \<and> hd (itoa b) = CHR ''0'')"
    by (cases "b = 0") (simp_all add: itoa_no_leading_zero)
  ultimately show ?thesis
    using assms by (auto simp: ParsePrefix_def)
qed

lemma PrefixString_no_comma: "CHR '','' \<notin> set (PrefixString (Pfx (V4 w) b))"
  using string4_chars [of "CHR '',''" w] by (auto simp: PrefixString_def itoa_no_char)

lemma PrefixString_inject:
  "canon4 p \<Longrightarrow> canon4 q \<Longrightarrow> PrefixString p = PrefixString q \<Longrightarrow> p = q"
  by (elim canon4E) (metis ParsePrefix_PrefixString option.inject)

section \<open>Endpoints\<close>

definition plain_host :: "string \<Rightarrow> bool" where
  "plain_host h \<longleftrightarrow> h \<noteq> [] \<and> CHR ''['' \<notin> set h \<and> CHR '']'' \<notin> set h"

lemma SplitHostPort_Join:
  assumes "plain_host host" "all_digits port"
  shows "SplitHostPort (JoinHostPort host port) = Some (host, port)"
proof -
  have d: "CHR '':'' \<notin> set port" "CHR ''['' \<notin> set port" "CHR '']'' \<notin> set port"
    using digit_not_sep [OF assms(2)] by (simp_all add: is_digit_def code_def)
  show ?thesis
  proof (cases "CHR '':'' \<in> set host")
    case True
    have "CutLastByte (JoinHostPort host port) CHR '':'' = Some (''['' @ host @ '']'', port)"
      using CutLastByte_append [OF d(1), of "''['' @ host @ '']''"] True
      by (simp add: JoinHostPort_def)
    moreover have "takeWhile (\<lambda>c. c \<noteq> CHR '']'') (host @ '']:'' @ port) = host"
      using assms(1) by (auto simp: plain_host_def takeWhile_sep)
    ultimately show ?thesis
      using True assms(1) d by (auto simp: SplitHostPort_def JoinHostPort_def plain_host_def)
  next
    case False
    have "CutLastByte (JoinHostPort host port) CHR '':'' = Some (host, port)"
      using CutLastByte_append [OF d(1), of host] False by (simp add: JoinHostPort_def)
    moreover have "hd (JoinHostPort host port) \<noteq> CHR ''[''"
      using assms(1) False by (cases host) (auto simp: plain_host_def JoinHostPort_def)
    ultimately show ?thesis
      using False assms(1) d by (auto simp: SplitHostPort_def JoinHostPort_def plain_host_def)
  qed
qed

lemma CutLastByte_Some:
  "CutLastByte s c = Some (a, b) \<Longrightarrow> s = a @ c # b \<and> c \<notin> set b"
proof -
  assume h: "CutLastByte s c = Some (a, b)"
  then have "c \<in> set (rev s)" by (auto simp: CutLastByte_def split: if_splits)
  then obtain ys zs where s: "rev s = ys @ c # zs" "c \<notin> set ys" by (metis split_list_first)
  then have "takeWhile (\<lambda>x. x \<noteq> c) (rev s) = ys" "dropWhile (\<lambda>x. x \<noteq> c) (rev s) = c # zs"
    by (simp_all add: takeWhile_sep dropWhile_sep)
  moreover from s have "s = rev zs @ c # rev ys" by (simp add: rev_eq_append_conv)
  ultimately show ?thesis using h s(2)
    by (auto simp: CutLastByte_def split: if_splits)
qed

end
