(* ===== verification/Json.thy ===== *)
theory Json
  imports Prelude
begin

text \<open>
  JSON documents and the decoding rules of Go's \<^verbatim>\<open>encoding/json\<close> that the gateway relies
  on. A \<^verbatim>\<open>json.RawMessage\<close> is represented by the value its text denotes; the gateway only
  ever holds raw messages cut out of a document the decoder has already checked. Object members
  keep their order and their duplicates. A member belongs to a struct field when the names
  agree under case folding; a string field keeps the last string given, JSON null leaves it
  unchanged, and a value of another kind makes the whole decoding fail. For a slice field the
  last member wins (Go then reuses the earlier slice's memory, which is not visible unless an
  array element is null).
\<close>

datatype json =
    JNull
  | JBool bool
  | JNum string
  | JStr string
  | JArr "json list"
  | JObj "(string \<times> json) list"

text \<open>The values given to a struct field, in document order.\<close>

definition members :: "string \<Rightarrow> (string \<times> json) list \<Rightarrow> json list" where
  "members f obj = map snd (filter (\<lambda>m. EqualFoldASCII (fst m) f) obj)"

fun string_steps :: "string \<Rightarrow> json list \<Rightarrow> string option" where
  "string_steps cur [] = Some cur"
| "string_steps cur (JNull # vs) = string_steps cur vs"
| "string_steps cur (JStr s # vs) = string_steps s vs"
| "string_steps cur (v # vs) = None"

definition field_string :: "string \<Rightarrow> (string \<times> json) list \<Rightarrow> string option" where
  "field_string f obj = string_steps [] (members f obj)"

text \<open>A \<^verbatim>\<open>json.RawMessage\<close> field: nil when absent, and JSON null is kept as such.\<close>

definition field_raw :: "string \<Rightarrow> (string \<times> json) list \<Rightarrow> json option" where
  "field_raw f obj = (case members f obj of [] \<Rightarrow> None | vs \<Rightarrow> Some (last vs))"

text \<open>A slice: null is the nil slice, an array is decoded element by element.\<close>

definition as_list :: "(json \<Rightarrow> 'a option) \<Rightarrow> json \<Rightarrow> 'a list option" where
  "as_list dec v =
     (case v of JNull \<Rightarrow> Some [] | JArr xs \<Rightarrow> those (map dec xs) | _ \<Rightarrow> None)"

fun as_string :: "json \<Rightarrow> string option" where
  "as_string JNull = Some []"
| "as_string (JStr s) = Some s"
| "as_string _ = None"

definition field_list :: "(json \<Rightarrow> 'a option) \<Rightarrow> string \<Rightarrow> (string \<times> json) list \<Rightarrow> 'a list option" where
  "field_list dec f obj =
     (case those (map (as_list dec) (members f obj)) of
        None \<Rightarrow> None
      | Some [] \<Rightarrow> Some []
      | Some ls \<Rightarrow> Some (last ls))"

text \<open>A struct takes an object's members; null leaves it at its zero value.\<close>

fun as_object :: "json \<Rightarrow> (string \<times> json) list option" where
  "as_object (JObj ms) = Some ms"
| "as_object JNull = Some []"
| "as_object _ = None"

lemma those_map_Some_iff:
  "those (map f xs) = Some ys \<longleftrightarrow> list_all2 (\<lambda>x y. f x = Some y) xs ys"
proof (induction xs arbitrary: ys)
  case (Cons x xs)
  show ?case
    by (cases ys) (auto simp: Cons.IH split: option.splits)
qed auto

lemma those_map_elem:
  "those (map f xs) = Some ys \<Longrightarrow> y \<in> set ys \<Longrightarrow> \<exists>x\<in>set xs. f x = Some y"
  by (auto simp: those_map_Some_iff list_all2_conv_all_nth in_set_conv_nth) (metis nth_mem)

lemma field_list_elem:
  assumes "field_list dec f obj = Some ys" "y \<in> set ys"
  shows "\<exists>x. dec x = Some y"
proof -
  obtain ls where ls: "those (map (as_list dec) (members f obj)) = Some ls" "ls \<noteq> []" "ys = last ls"
    using assms by (auto simp: field_list_def split: option.splits list.splits)
  then have "ys \<in> set ls" by simp
  with ls(1) obtain v where "as_list dec v = Some ys" using those_map_elem by metis
  with assms(2) show ?thesis
    by (auto simp: as_list_def split: json.splits dest: those_map_elem)
qed

end
