(* ===== verification/Policy.thy ===== *)
theory Policy
  imports Netip Json
begin

text \<open>
  The policy half of \<^verbatim>\<open>internal/domain/domain.go\<close>, with \<^verbatim>\<open>upstream.go\<close>: decoding of
  resources and grants, domain names and patterns, port lists, resolver endpoints, the parser of
  the application capability, and the three decisions taken from a list of grants
  (\<open>Authorize\<close>, \<open>GatewayFor\<close>, \<open>RangesForName\<close>). The lemmas show what a parsed grant
  satisfies, what a pattern and a port list match, and how the resolver of a flow is chosen.
\<close>

section \<open>Data\<close>

definition Capability :: string where
  "Capability = ''matchlighter.net/domain-gateway''"

record Resource =
  res_domain :: string
  res_ip :: "string list"
  res_upstream :: string

record Grant =
  grant_upstream :: string
  grant_resources :: "Resource list"
  grant_ranges :: "prefix list"

record Gateway =
  gw_prefixes :: "prefix list"
  gw_resolver :: string
  gw_system :: bool

definition Resource_UnmarshalJSON :: "json \<Rightarrow> Resource result" where
  "Resource_UnmarshalJSON data =
     (case data of
        JStr shorthand \<Rightarrow>
          (case CutByte shorthand (CHR '':'') of
             None \<Rightarrow> Inl ''invalid resource shorthand''
           | Some (dn, ports) \<Rightarrow>
               if dn = [] \<or> ports = [] \<or> ContainsByte ports (CHR '':'')
               then Inl ''invalid resource shorthand''
               else let parts = SplitByte (CHR '','') ports in
                 if [] \<in> set parts then Inl ''invalid resource shorthand''
                 else Inr \<lparr>res_domain = dn, res_ip = map (\<lambda>p. ''tcp:'' @ p) parts,
                           res_upstream = []\<rparr>)
      | _ \<Rightarrow>
          (case as_object data of
             None \<Rightarrow> Inl ''json''
           | Some obj \<Rightarrow>
               (case (field_string ''domain'' obj, field_list as_string ''ip'' obj,
                      field_string ''upstreamDNS'' obj) of
                  (Some dn, Some ips, Some up) \<Rightarrow>
                    if field_raw ''ports'' obj \<noteq> None
                    then Inl ''resource ports field is unsupported; use ip''
                    else Inr \<lparr>res_domain = dn, res_ip = ips, res_upstream = up\<rparr>
                | _ \<Rightarrow> Inl ''json'')))"

definition as_resource :: "json \<Rightarrow> Resource option" where
  "as_resource j = (case Resource_UnmarshalJSON j of Inl _ \<Rightarrow> None | Inr r \<Rightarrow> Some r)"

fun range_loop :: "prefix list \<Rightarrow> string list \<Rightarrow> prefix list result" where
  "range_loop ranges [] = Inr ranges"
| "range_loop ranges (v # vs) =
     (case ParsePrefix v of
        None \<Rightarrow> Inl ''invalid gateway range''
      | Some p \<Rightarrow>
          if \<not> Is4 (pfx_addr p) \<or> p \<noteq> Masked p then Inl ''invalid gateway range''
          else if list_ex (Overlaps p) ranges then Inl ''overlapping gateway range''
          else range_loop (ranges @ [p]) vs)"

definition Grant_UnmarshalJSON :: "json \<Rightarrow> Grant result" where
  "Grant_UnmarshalJSON data =
     (case as_object data of
        None \<Rightarrow> Inl ''json''
      | Some obj \<Rightarrow>
          (case (field_string ''upstreamDNS'' obj, field_list as_resource ''resources'' obj) of
             (Some up, Some rs) \<Rightarrow>
               (case field_raw ''range'' obj of
                  None \<Rightarrow> Inl ''invalid gateway range''
                | Some raw \<Rightarrow>
                    (case as_list as_string raw of
                       None \<Rightarrow> Inl ''invalid gateway range''
                     | Some vs \<Rightarrow>
                         if vs = [] then Inl ''invalid gateway range''
                         else (case range_loop [] vs of
                                 Inl e \<Rightarrow> Inl e
                               | Inr ranges \<Rightarrow>
                                   Inr \<lparr>grant_upstream = up, grant_resources = rs,
                                        grant_ranges = ranges\<rparr>)))
           | _ \<Rightarrow> Inl ''json''))"

section \<open>Names and patterns\<close>

definition valid_label :: "string \<Rightarrow> bool" where
  "valid_label l \<longleftrightarrow>
     \<not> (length l = 0 \<or> 63 < length l \<or> hd l = CHR ''-'' \<or> last l = CHR ''-'') \<and>
     list_all (\<lambda>c. is_lower c \<or> is_digit c \<or> c = CHR ''-'') l"

definition validName :: "string \<Rightarrow> bool" where
  "validName name \<longleftrightarrow>
     \<not> (length name = 0 \<or> 253 < length name \<or> \<not> ContainsByte name (CHR ''.'')) \<and>
     list_all valid_label (SplitByte (CHR ''.'') name)"

definition NormalName :: "(string \<Rightarrow> string) \<Rightarrow> string \<Rightarrow> string \<times> bool" where
  "NormalName ul name =
     (let n = ToLower ul (TrimSuffix name ''.'') in (n, validName n))"

definition match :: "string \<Rightarrow> string \<Rightarrow> bool" where
  "match pattern name =
     (if HasPrefix pattern ''**.'' then HasSuffix name (''.'' @ drop 3 pattern)
      else if HasPrefix pattern ''*.'' then
        (let suf = drop 2 pattern in
         HasSuffix name (''.'' @ suf) \<and>
         CountByte name (CHR ''.'') = CountByte suf (CHR ''.'') + 1)
      else pattern = name)"

section \<open>Ports\<close>

text \<open>The digit loop of \<open>allowedPort\<close>, in Go's wrapping 64-bit arithmetic.\<close>

fun port_num :: "u64 \<Rightarrow> string \<Rightarrow> u64" where
  "port_num n [] = n"
| "port_num n (c # cs) =
     (if \<not> is_digit c then 0 else port_num (n * 10 + of_nat (digit_val c)) cs)"

definition allowedPort :: "string list \<Rightarrow> string \<Rightarrow> u16 \<Rightarrow> bool" where
  "allowedPort ports proto port =
     (if ports = [] then True
      else let expected = proto @ '':'' in
        list_ex (\<lambda>p. HasPrefix p expected \<and>
                     port_num 0 (drop (length expected) p) = ucast port) ports)"

text \<open>The digit loop of \<open>validPorts\<close>: \<^term>\<open>None\<close> is its \<^verbatim>\<open>return false\<close>.\<close>

fun valid_port_num :: "u64 \<Rightarrow> string \<Rightarrow> u64 option" where
  "valid_port_num n [] = Some n"
| "valid_port_num n (c # cs) =
     (if \<not> is_digit c then None
      else let n' = n * 10 + of_nat (digit_val c) in
        if 65535 < n' then None else valid_port_num n' cs)"

definition valid_port :: "string \<Rightarrow> bool" where
  "valid_port p =
     (case SplitByte (CHR '':'') p of
        [proto, num] \<Rightarrow>
          (if (proto \<noteq> ''tcp'' \<and> proto \<noteq> ''udp'') \<or> num = [] then False
           else (case valid_port_num 0 num of None \<Rightarrow> False | Some n \<Rightarrow> n \<noteq> 0))
      | _ \<Rightarrow> False)"

definition validPorts :: "string list \<Rightarrow> bool" where
  "validPorts ports \<longleftrightarrow> list_all valid_port ports"

section \<open>Resolvers\<close>

definition IsSystemResolver :: "string \<Rightarrow> bool" where
  "IsSystemResolver resolver \<longleftrightarrow> EqualFoldASCII resolver ''system''"

text \<open>\<^term>\<open>None\<close> is the result \<^verbatim>\<open>("", false)\<close>.\<close>

definition normalizeResolver :: "string \<Rightarrow> string option" where
  "normalizeResolver resolver =
     (if IsSystemResolver resolver then Some resolver
      else (case SplitHostPort resolver of
              None \<Rightarrow>
                if ContainsByte resolver (CHR '':'') \<and> \<not> ParseIP_ok resolver then None
                else Some (JoinHostPort resolver ''53'')
            | Some (host, port) \<Rightarrow>
                if host = [] then None
                else (case ParseUint16 port of
                        None \<Rightarrow> None
                      | Some n \<Rightarrow> if n = 0 then None else Some (JoinHostPort host port))))"

section \<open>Parsing the capability\<close>

type_synonym capmap = "string \<rightharpoonup> json"

text \<open>
  One iteration of the resource loop: the normalized resource and whether it keeps the grant
  valid. A resolver that does not normalize becomes the empty string, as in the code.
\<close>

definition normalize_resource :: "(string \<Rightarrow> string) \<Rightarrow> Resource \<Rightarrow> Resource \<times> bool" where
  "normalize_resource ul r =
     (let d = ToLower ul (TrimSuffix (res_domain r) ''.'');
          name_ok = (if HasPrefix d ''**.'' then validName (drop 3 d)
                     else if HasPrefix d ''*.'' then validName (drop 2 d)
                     else validName d);
          ports_ok = validPorts (res_ip r);
          (up, up_ok) = (if res_upstream r \<noteq> []
                         then (case normalizeResolver (res_upstream r) of
                                 None \<Rightarrow> ([], False)
                               | Some u \<Rightarrow> (u, True))
                         else ([], True)) in
      (r\<lparr>res_domain := d, res_upstream := up\<rparr>, name_ok \<and> ports_ok \<and> up_ok))"

definition parse_entry :: "(string \<Rightarrow> string) \<Rightarrow> json \<Rightarrow> Grant option" where
  "parse_entry ul entry =
     (case Grant_UnmarshalJSON entry of
        Inl _ \<Rightarrow> None
      | Inr g \<Rightarrow>
          if grant_ranges g = [] \<or> grant_resources g = [] then None
          else let (up, up_ok) = (if grant_upstream g \<noteq> []
                                  then (case normalizeResolver (grant_upstream g) of
                                          None \<Rightarrow> ([], False)
                                        | Some u \<Rightarrow> (u, True))
                                  else ([], True));
                   rs = map (normalize_resource ul) (grant_resources g) in
            if up_ok \<and> list_all snd rs
            then Some (g\<lparr>grant_upstream := up, grant_resources := map fst rs\<rparr>)
            else None)"

definition Parse :: "(string \<Rightarrow> string) \<Rightarrow> capmap \<Rightarrow> Grant list" where
  "Parse ul caps =
     (case caps Capability of
        None \<Rightarrow> []
      | Some raw \<Rightarrow>
          (case as_list Some raw of
             None \<Rightarrow> []
           | Some entries \<Rightarrow> List.map_filter (parse_entry ul) entries))"

section \<open>Decisions\<close>

text \<open>The loop variables of \<open>GatewayFor\<close>.\<close>

record selection =
  sel_resolver :: string
  sel_priority :: nat
  sel_system :: bool
  sel_matched :: bool

definition candidate :: "Grant \<Rightarrow> Gateway \<Rightarrow> Resource \<Rightarrow> string \<times> nat" where
  "candidate grant gateway resource =
     (let (c, p) = (if res_upstream resource \<noteq> [] then (res_upstream resource, 2)
                    else (grant_upstream grant, 1)) in
      if c = [] then (gw_resolver gateway, 0) else (c, p))"

text \<open>One matching resource: \<^term>\<open>None\<close> is the early return on a conflict.\<close>

definition select_step :: "selection \<Rightarrow> string \<times> nat \<Rightarrow> selection option" where
  "select_step st cp =
     (case cp of (c, p) \<Rightarrow>
        if \<not> sel_matched st \<or> sel_priority st < p then
          Some (st\<lparr>sel_resolver := c, sel_priority := p, sel_matched := True,
                   sel_system := (if 0 < p then IsSystemResolver c else sel_system st)\<rparr>)
        else if p = sel_priority st \<and> c \<noteq> sel_resolver st then None
        else Some (st\<lparr>sel_matched := True\<rparr>))"

fun resource_loop ::
  "Grant \<Rightarrow> Gateway \<Rightarrow> string \<Rightarrow> string \<Rightarrow> u16 \<Rightarrow> Resource list \<Rightarrow> selection \<Rightarrow> selection option" where
  "resource_loop g gw name proto port [] st = Some st"
| "resource_loop g gw name proto port (r # rs) st =
     (if \<not> match (res_domain r) name \<or> \<not> allowedPort (res_ip r) proto port
      then resource_loop g gw name proto port rs st
      else (case select_step st (candidate g gw r) of
              None \<Rightarrow> None
            | Some st' \<Rightarrow> resource_loop g gw name proto port rs st'))"

fun grant_loop ::
  "Gateway \<Rightarrow> string \<Rightarrow> string \<Rightarrow> u16 \<Rightarrow> Grant list \<Rightarrow> selection \<Rightarrow> selection option" where
  "grant_loop gw name proto port [] st = Some st"
| "grant_loop gw name proto port (g # gs) st =
     (if \<not> samePrefixSlice (grant_ranges g) (gw_prefixes gw)
      then grant_loop gw name proto port gs st
      else (case resource_loop g gw name proto port (grant_resources g) st of
              None \<Rightarrow> None
            | Some st' \<Rightarrow> grant_loop gw name proto port gs st'))"

definition GatewayFor :: "Grant list \<Rightarrow> Gateway \<Rightarrow> string \<Rightarrow> string \<Rightarrow> u16 \<Rightarrow> Gateway option" where
  "GatewayFor grants gateway name proto port =
     (case grant_loop gateway name proto port grants
             \<lparr>sel_resolver = gw_resolver gateway, sel_priority = 0,
              sel_system = gw_system gateway, sel_matched = False\<rparr> of
        None \<Rightarrow> None
      | Some st \<Rightarrow>
          if \<not> sel_matched st then None
          else Some (gateway\<lparr>gw_resolver := sel_resolver st, gw_system := sel_system st\<rparr>))"

definition Authorize :: "Grant list \<Rightarrow> prefix list \<Rightarrow> string \<Rightarrow> string \<Rightarrow> u16 \<Rightarrow> bool" where
  "Authorize grants ps name proto port \<longleftrightarrow>
     list_ex (\<lambda>g. samePrefixSlice (grant_ranges g) ps \<and>
       list_ex (\<lambda>r. match (res_domain r) name \<and> allowedPort (res_ip r) proto port)
         (grant_resources g)) grants"

text \<open>\<open>RangesForName\<close>: the nil slice is \<^term>\<open>None\<close>; the outer \<^term>\<open>None\<close> is the conflict.\<close>

fun ranges_resources :: "Grant \<Rightarrow> string \<Rightarrow> Resource list \<Rightarrow> prefix list option \<Rightarrow> prefix list option option" where
  "ranges_resources g name [] ranges = Some ranges"
| "ranges_resources g name (r # rs) ranges =
     (if \<not> match (res_domain r) name then ranges_resources g name rs ranges
      else if ranges \<noteq> None \<and> \<not> samePrefixSlice (the ranges) (grant_ranges g) then None
      else ranges_resources g name rs (Some (grant_ranges g)))"

fun ranges_grants :: "string \<Rightarrow> Grant list \<Rightarrow> prefix list option \<Rightarrow> prefix list option option" where
  "ranges_grants name [] ranges = Some ranges"
| "ranges_grants name (g # gs) ranges =
     (case ranges_resources g name (grant_resources g) ranges of
        None \<Rightarrow> None
      | Some ranges' \<Rightarrow> ranges_grants name gs ranges')"

definition RangesForName :: "Grant list \<Rightarrow> string \<Rightarrow> prefix list option" where
  "RangesForName grants name =
     (case ranges_grants name grants None of None \<Rightarrow> None | Some ranges \<Rightarrow> ranges)"

definition rangeKey :: "prefix list \<Rightarrow> string" where
  "rangeKey ps = Join (map PrefixString ps) '',''"

section \<open>Node configuration\<close>

record NodeConfig =
  nc_upstream :: string
  nc_has_upstream :: bool

fun node_config_loop :: "NodeConfig \<Rightarrow> json list \<Rightarrow> NodeConfig option" where
  "node_config_loop res [] = Some res"
| "node_config_loop res (raw # raws) =
     (case as_object raw of
        None \<Rightarrow> None
      | Some obj \<Rightarrow>
          (case field_string ''upstreamDNS'' obj of
             None \<Rightarrow> None
           | Some up \<Rightarrow>
               if up = [] \<or> field_raw ''gateways'' obj \<noteq> None then None
               else (case normalizeResolver up of
                       None \<Rightarrow> None
                     | Some resolver \<Rightarrow>
                         if nc_upstream res \<noteq> [] \<and> nc_upstream res \<noteq> resolver then None
                         else node_config_loop
                                (res\<lparr>nc_upstream := resolver, nc_has_upstream := True\<rparr>) raws)))"

definition ConfigFromNodeAttrs :: "capmap \<Rightarrow> NodeConfig option" where
  "ConfigFromNodeAttrs caps =
     (case caps Capability of
        None \<Rightarrow> Some \<lparr>nc_upstream = ''system'', nc_has_upstream = False\<rparr>
      | Some raw \<Rightarrow>
          (case as_list Some raw of
             None \<Rightarrow> None
           | Some values \<Rightarrow>
               if values = [] then None
               else node_config_loop \<lparr>nc_upstream = [], nc_has_upstream = False\<rparr> values))"

section \<open>What a parsed grant satisfies\<close>

definition pattern_ok :: "string \<Rightarrow> bool" where
  "pattern_ok d \<longleftrightarrow>
     validName (if HasPrefix d ''**.'' then drop 3 d
                else if HasPrefix d ''*.'' then drop 2 d else d)"

definition resolver_ok :: "string \<Rightarrow> bool" where
  "resolver_ok u \<longleftrightarrow> u = [] \<or> (\<exists>s. normalizeResolver s = Some u)"

fun disjoint_ranges :: "prefix list \<Rightarrow> bool" where
  "disjoint_ranges [] = True"
| "disjoint_ranges (p # ps) = (list_all (\<lambda>q. \<not> Overlaps q p) ps \<and> disjoint_ranges ps)"

definition wf_ranges :: "prefix list \<Rightarrow> bool" where
  "wf_ranges ps \<longleftrightarrow> ps \<noteq> [] \<and> list_all canon4 ps \<and> disjoint_ranges ps"

definition wf_resource :: "Resource \<Rightarrow> bool" where
  "wf_resource r \<longleftrightarrow>
     pattern_ok (res_domain r) \<and> validPorts (res_ip r) \<and> resolver_ok (res_upstream r)"

definition wf_grant :: "Grant \<Rightarrow> bool" where
  "wf_grant g \<longleftrightarrow>
     wf_ranges (grant_ranges g) \<and> grant_resources g \<noteq> [] \<and>
     list_all wf_resource (grant_resources g) \<and> resolver_ok (grant_upstream g)"

lemma disjoint_ranges_snoc:
  "disjoint_ranges (ps @ [p]) \<longleftrightarrow> disjoint_ranges ps \<and> list_all (\<lambda>q. \<not> Overlaps p q) ps"
  by (induction ps) auto

lemma disjoint_ranges_sorted: "disjoint_ranges ps \<longleftrightarrow> sorted_wrt (\<lambda>p q. \<not> Overlaps q p) ps"
  by (induction ps) (auto simp: list_all_iff)

lemma ParsePrefix_bits: "ParsePrefix v = Some p \<Longrightarrow> Is4 (pfx_addr p) \<Longrightarrow> pfx_bits p \<le> 32"
  by (auto simp: ParsePrefix_def split: option.splits if_splits)

lemma range_loop_wf:
  assumes "range_loop ps vs = Inr qs" "list_all canon4 ps" "disjoint_ranges ps"
  shows "list_all canon4 qs \<and> disjoint_ranges qs \<and> length qs = length ps + length vs"
  using assms
proof (induction ps vs rule: range_loop.induct)
  case (2 ps v vs)
  from "2.prems"(1) obtain p where p: "ParsePrefix v = Some p" "Is4 (pfx_addr p)" "p = Masked p"
    "\<not> list_ex (Overlaps p) ps" "range_loop (ps @ [p]) vs = Inr qs"
    by (auto split: option.splits if_splits)
  moreover from p have "canon4 p" by (simp add: canon4_def ParsePrefix_bits)
  ultimately show ?case
    using "2.IH" [of p] "2.prems"(2,3)
    by (auto simp: disjoint_ranges_snoc list_all_iff list_ex_iff)
qed auto

lemma Grant_UnmarshalJSON_ranges:
  assumes "Grant_UnmarshalJSON j = Inr g"
  shows "wf_ranges (grant_ranges g)"
proof -
  from assms obtain vs where "vs \<noteq> []" "range_loop [] vs = Inr (grant_ranges g)"
    by (auto simp: Grant_UnmarshalJSON_def split: option.splits sum.splits if_splits)
  with range_loop_wf [of "[]" vs] show ?thesis
    by (fastforce simp: wf_ranges_def)
qed

lemma normalize_resource_wf:
  "snd (normalize_resource ul r) \<Longrightarrow> wf_resource (fst (normalize_resource ul r))"
  by (auto simp: normalize_resource_def wf_resource_def pattern_ok_def resolver_ok_def Let_def
      split: option.splits if_splits)

lemma parse_entry_wf:
  assumes "parse_entry ul e = Some g"
  shows "wf_grant g"
proof -
  from assms obtain g0 where g0: "Grant_UnmarshalJSON e = Inr g0" "grant_resources g0 \<noteq> []"
    by (auto simp: parse_entry_def split: sum.splits if_splits)
  with assms have g: "grant_ranges g = grant_ranges g0" "resolver_ok (grant_upstream g)"
    "grant_resources g = map fst (map (normalize_resource ul) (grant_resources g0))"
    "list_all snd (map (normalize_resource ul) (grant_resources g0))"
    by (auto simp: parse_entry_def Let_def resolver_ok_def split: option.splits if_splits)
  from g(4) have "list_all wf_resource (grant_resources g)"
    by (auto simp: g(3) list_all_iff normalize_resource_wf)
  with g g0 show ?thesis by (simp add: wf_grant_def Grant_UnmarshalJSON_ranges)
qed

lemma Parse_elem: "g \<in> set (Parse ul caps) \<Longrightarrow> \<exists>e. parse_entry ul e = Some g"
  by (auto simp: Parse_def List.map_filter_def split: option.splits)

lemma Parse_wf_grant: "g \<in> set (Parse ul caps) \<Longrightarrow> wf_grant g"
  using Parse_elem parse_entry_wf by blast

lemma wf_ranges_disjoint:
  assumes "wf_ranges ps" "p \<in> set ps" "q \<in> set ps" "Contains p a" "Contains q a"
  shows "p = q"
proof (rule ccontr)
  assume "p \<noteq> q"
  from assms(1) have "list_all canon4 ps" "disjoint_ranges ps" by (auto simp: wf_ranges_def)
  then show False using assms(2-5) \<open>p \<noteq> q\<close>
  proof (induction ps)
    case (Cons r ps)
    then show ?case by (auto simp: list_all_iff dest: Overlaps_common)
  qed simp
qed

section \<open>Patterns\<close>

lemma match_single:
  "match (''*.'' @ suf) name \<longleftrightarrow> (\<exists>l. name = l @ ''.'' @ suf \<and> CHR ''.'' \<notin> set l)"
  by (auto simp: match_def HasPrefix_def HasSuffix_def CountByte_def suffix_def count_list_0_iff)

lemma match_multi: "match (''**.'' @ suf) name \<longleftrightarrow> (\<exists>l. name = l @ ''.'' @ suf)"
  by (auto simp: match_def HasPrefix_def HasSuffix_def suffix_def)

lemma match_exact:
  "\<not> HasPrefix p ''*.'' \<Longrightarrow> \<not> HasPrefix p ''**.'' \<Longrightarrow> match p name \<longleftrightarrow> p = name"
  by (simp add: match_def)

lemma validName_labels:
  assumes "validName (l @ ''.'' @ suf)"
  shows "list_all valid_label (SplitByte CHR ''.'' l) \<and> l \<noteq> []"
proof -
  from assms have v: "list_all valid_label (SplitByte CHR ''.'' l)"
    by (auto simp: validName_def SplitByte_concat)
  moreover have "\<not> valid_label []" by (simp add: valid_label_def)
  ultimately show ?thesis by (cases l) auto
qed

section \<open>Ports\<close>

lemma port_step:
  assumes "unat n \<le> 65535" "is_digit c"
  shows "unat (n * 10 + of_nat (digit_val c) :: u64) = unat n * 10 + digit_val c"
proof -
  have "digit_val c \<le> 9" using assms(2) by (rule digit_val_le)
  then have "unat n * 10 + digit_val c < 18446744073709551616" using assms(1) by simp
  then show ?thesis
    using \<open>digit_val c \<le> 9\<close> assms(1) by (simp add: unat_word_ariths unat_of_nat)
qed

lemma valid_port_num_sound:
  assumes "valid_port_num n s = Some m" "unat n \<le> 65535"
  shows "port_num n s = m \<and> all_digits s \<and> unat m \<le> 65535 \<and>
     unat m = foldl (\<lambda>n c. n * 10 + digit_val c) (unat n) s"
  using assms
proof (induction n s rule: valid_port_num.induct)
  case (2 n c cs)
  let ?n = "n * 10 + of_nat (digit_val c) :: u64"
  from "2.prems"(1) have d: "is_digit c" "\<not> 65535 < ?n" "valid_port_num ?n cs = Some m"
    by (auto simp: Let_def split: if_splits)
  then have "unat ?n \<le> 65535" by (simp add: word_less_nat_alt)
  with d "2.IH" "2.prems"(2) port_step [of n c] show ?case
    by (simp add: all_digits_def)
qed (auto simp: all_digits_def)

lemma valid_portE:
  assumes "valid_port p"
  obtains proto num where "p = proto @ '':'' @ num" "proto = ''tcp'' \<or> proto = ''udp''"
    "num \<noteq> []" "all_digits num" "0 < atoi num" "atoi num \<le> 65535"
    "unat (port_num 0 num) = atoi num"
proof -
  from assms obtain proto num m where s: "SplitByte CHR '':'' p = [proto, num]"
    "proto = ''tcp'' \<or> proto = ''udp''" "num \<noteq> []" "valid_port_num 0 num = Some m" "m \<noteq> 0"
    by (auto simp: valid_port_def split: list.splits if_splits option.splits)
  have "p = proto @ '':'' @ num" using Join_SplitByte [of "CHR '':''" p] s(1) by simp
  moreover have "0 < unat m" using s(5) by (simp add: unat_gt_0)
  ultimately show ?thesis
    using that s valid_port_num_sound [OF s(4)] by (simp add: atoi_def)
qed

lemma allowedPort_valid:
  assumes "validPorts ports" "proto = ''tcp'' \<or> proto = ''udp''"
  shows "allowedPort ports proto port \<longleftrightarrow>
    ports = [] \<or> (\<exists>num. proto @ '':'' @ num \<in> set ports \<and> atoi num = unat port)"
proof -
  have "unat (ucast port :: u64) = unat port"
    using unsigned_less [of port, where ?'a = nat]
    by (simp add: unsigned_ucast_eq take_bit_nat_eq_self_iff)
  then have u: "n = ucast port \<longleftrightarrow> unat n = unat port" for n :: u64
    by (simp add: word_unat_eq_iff)
  have "HasPrefix p (proto @ '':'') \<and> port_num 0 (drop (length (proto @ '':'')) p) = ucast port \<longleftrightarrow>
     (\<exists>num. p = proto @ '':'' @ num \<and> atoi num = unat port)" if "p \<in> set ports" for p
  proof -
    from assms(1) that have "valid_port p" by (simp add: validPorts_def list_all_iff)
    then obtain pr num where p: "p = pr @ '':'' @ num" "pr = ''tcp'' \<or> pr = ''udp''"
      "unat (port_num 0 num) = atoi num"
      by (rule valid_portE)
    then show ?thesis
      using assms(2) by (auto simp: HasPrefix_def u)
  qed
  then show ?thesis
    by (auto simp: allowedPort_def list_ex_iff Let_def)
qed

section \<open>Choosing the gateway and its resolver\<close>

definition matches :: "string \<Rightarrow> string \<Rightarrow> u16 \<Rightarrow> Resource \<Rightarrow> bool" where
  "matches name proto port r \<longleftrightarrow> match (res_domain r) name \<and> allowedPort (res_ip r) proto port"

text \<open>The candidates of a flow in policy order: what \<open>GatewayFor\<close> folds over.\<close>

definition candidates ::
  "Grant list \<Rightarrow> Gateway \<Rightarrow> string \<Rightarrow> string \<Rightarrow> u16 \<Rightarrow> (string \<times> nat) list" where
  "candidates grants gw name proto port =
     concat (map (\<lambda>g. map (candidate g gw) (filter (matches name proto port) (grant_resources g)))
       (filter (\<lambda>g. grant_ranges g = gw_prefixes gw) grants))"

fun select_all :: "selection \<Rightarrow> (string \<times> nat) list \<Rightarrow> selection option" where
  "select_all st [] = Some st"
| "select_all st (c # cs) = (case select_step st c of None \<Rightarrow> None | Some st' \<Rightarrow> select_all st' cs)"

lemma select_all_append:
  "select_all st (xs @ ys) =
     (case select_all st xs of None \<Rightarrow> None | Some st' \<Rightarrow> select_all st' ys)"
  by (induction xs arbitrary: st) (auto split: option.splits)

lemma resource_loop_select:
  "resource_loop g gw name proto port rs st =
     select_all st (map (candidate g gw) (filter (matches name proto port) rs))"
  by (induction rs arbitrary: st) (auto simp: matches_def split: option.splits)

lemma grant_loop_select:
  "grant_loop gw name proto port grants st = select_all st (candidates grants gw name proto port)"
  by (induction grants arbitrary: st)
    (auto simp: candidates_def resource_loop_select select_all_append split: option.splits)

text \<open>What the loop knows after a prefix \<open>seen\<close> of the candidates.\<close>

definition sel_inv :: "Gateway \<Rightarrow> (string \<times> nat) list \<Rightarrow> selection \<Rightarrow> bool" where
  "sel_inv gw seen st \<longleftrightarrow>
     (if sel_matched st
      then (sel_resolver st, sel_priority st) \<in> set seen \<and>
           (\<forall>x \<in> set seen. snd x \<le> sel_priority st \<and>
              (snd x = sel_priority st \<longrightarrow> fst x = sel_resolver st)) \<and>
           sel_system st = (if 0 < sel_priority st then IsSystemResolver (sel_resolver st)
                            else gw_system gw)
      else seen = [] \<and> sel_system st = gw_system gw)"

lemma select_step_inv:
  assumes "sel_inv gw seen st" "select_step st c = Some st'"
  shows "sel_inv gw (seen @ [c]) st'"
proof (cases "\<not> sel_matched st \<or> sel_priority st < snd c")
  case True
  with assms(2) have st': "st' = st\<lparr>sel_resolver := fst c, sel_priority := snd c,
      sel_matched := True,
      sel_system := (if 0 < snd c then IsSystemResolver (fst c) else sel_system st)\<rparr>"
    by (cases c) (auto simp: select_step_def)
  show ?thesis
  proof (cases "sel_matched st")
    case True
    with \<open>\<not> sel_matched st \<or> sel_priority st < snd c\<close> assms(1) show ?thesis
      unfolding sel_inv_def st' by (cases c) fastforce
  next
    case False
    with assms(1) show ?thesis unfolding sel_inv_def st' by (cases c) simp
  qed
next
  case False
  then have m: "sel_matched st" "snd c \<le> sel_priority st" by auto
  with assms(2) have "snd c = sel_priority st \<longrightarrow> fst c = sel_resolver st"
    by (auto simp: select_step_def split: prod.splits if_splits)
  moreover from m assms(2) have "st' = st"
    by (auto simp: select_step_def split: prod.splits if_splits)
  ultimately show ?thesis using m assms(1) unfolding sel_inv_def by auto
qed

lemma select_all_inv:
  "sel_inv gw seen st \<Longrightarrow> select_all st cs = Some st' \<Longrightarrow> sel_inv gw (seen @ cs) st'"
proof (induction cs arbitrary: seen st)
  case (Cons c cs)
  then obtain st1 where st1: "select_step st c = Some st1" "select_all st1 cs = Some st'"
    by (auto split: option.splits)
  with Cons.IH [of "seen @ [c]" st1] select_step_inv [OF Cons.prems(1) st1(1)]
  show ?case by simp
qed simp

definition start_selection :: "Gateway \<Rightarrow> selection" where
  "start_selection gw =
     \<lparr>sel_resolver = gw_resolver gw, sel_priority = 0, sel_system = gw_system gw, sel_matched = False\<rparr>"

lemma sel_inv_start: "sel_inv gw [] (start_selection gw)"
  by (simp add: sel_inv_def start_selection_def)

lemma GatewayFor_select:
  "GatewayFor grants gw name proto port =
     (case select_all (start_selection gw) (candidates grants gw name proto port) of
        None \<Rightarrow> None
      | Some st \<Rightarrow> if \<not> sel_matched st then None
          else Some (gw\<lparr>gw_resolver := sel_resolver st, gw_system := sel_system st\<rparr>))"
  by (simp add: GatewayFor_def grant_loop_select start_selection_def)

lemma candidates_Authorize:
  "candidates grants gw name proto port \<noteq> [] \<longleftrightarrow>
     Authorize grants (gw_prefixes gw) name proto port"
  by (auto simp: candidates_def Authorize_def matches_def list_ex_iff filter_empty_conv)

lemma GatewayFor_SomeE:
  assumes "GatewayFor grants gw name proto port = Some gw'"
  obtains p where "(gw_resolver gw', p) \<in> set (candidates grants gw name proto port)"
    "\<forall>x \<in> set (candidates grants gw name proto port).
       snd x \<le> p \<and> (snd x = p \<longrightarrow> fst x = gw_resolver gw')"
    "gw_system gw' = (if 0 < p then IsSystemResolver (gw_resolver gw') else gw_system gw)"
    "gw_prefixes gw' = gw_prefixes gw"
proof -
  from assms obtain st where st: "select_all (start_selection gw)
      (candidates grants gw name proto port) = Some st" "sel_matched st"
    "gw' = gw\<lparr>gw_resolver := sel_resolver st, gw_system := sel_system st\<rparr>"
    by (auto simp: GatewayFor_select split: option.splits if_splits)
  have "sel_inv gw ([] @ candidates grants gw name proto port) st"
    by (rule select_all_inv [OF sel_inv_start st(1)])
  with st(2,3) that [of "sel_priority st"] show ?thesis
    by (auto simp: sel_inv_def)
qed

text \<open>No two equally specific candidates disagree.\<close>

definition consistent :: "(string \<times> nat) list \<Rightarrow> bool" where
  "consistent cs \<longleftrightarrow> list_all (\<lambda>x. list_all (\<lambda>y. snd x = snd y \<longrightarrow> fst x = fst y) cs) cs"

lemma consistentD:
  "consistent cs \<Longrightarrow> x \<in> set cs \<Longrightarrow> y \<in> set cs \<Longrightarrow> snd x = snd y \<Longrightarrow> fst x = fst y"
  unfolding consistent_def list_all_iff by blast

lemma select_all_complete:
  assumes "sel_inv gw seen st"
    and "consistent (seen @ cs)"
  shows "\<exists>st'. select_all st cs = Some st'"
  using assms
proof (induction cs arbitrary: seen st)
  case (Cons c cs)
  have "select_step st c \<noteq> None"
  proof
    assume "select_step st c = None"
    then have n: "sel_matched st" "snd c = sel_priority st" "fst c \<noteq> sel_resolver st"
      by (auto simp: select_step_def split: prod.splits if_splits)
    from n(1) Cons.prems(1) have "(sel_resolver st, sel_priority st) \<in> set seen"
      by (simp add: sel_inv_def)
    then have "fst c = fst (sel_resolver st, sel_priority st)"
      using n(2) by (intro consistentD [OF Cons.prems(2)]) auto
    with n(3) show False by simp
  qed
  then obtain st1 where st1: "select_step st c = Some st1" by blast
  from select_step_inv [OF Cons.prems(1) this] Cons.prems(2) Cons.IH [of "seen @ [c]" st1]
  have "\<exists>st'. select_all st1 cs = Some st'" by simp
  with st1 show ?case by simp
qed simp

lemma select_all_matched:
  "select_all st cs = Some st' \<Longrightarrow> sel_matched st \<or> cs \<noteq> [] \<Longrightarrow> sel_matched st'"
  by (induction cs arbitrary: st)
    (auto simp: select_step_def split: option.splits if_splits prod.splits)

lemma GatewayFor_complete:
  assumes "Authorize grants (gw_prefixes gw) name proto port"
    and "consistent (candidates grants gw name proto port)"
  shows "\<exists>gw'. GatewayFor grants gw name proto port = Some gw'"
proof -
  obtain st where st: "select_all (start_selection gw) (candidates grants gw name proto port) = Some st"
    using select_all_complete [OF sel_inv_start, of "candidates grants gw name proto port"] assms(2)
    by auto
  moreover have "sel_matched st"
    using select_all_matched [OF st] assms(1) candidates_Authorize by blast
  ultimately show ?thesis by (simp add: GatewayFor_select)
qed

section \<open>Choosing the ranges\<close>

definition name_grants :: "Grant list \<Rightarrow> string \<Rightarrow> Grant list" where
  "name_grants grants name = filter (\<lambda>g. list_ex (\<lambda>r. match (res_domain r) name) (grant_resources g)) grants"

lemma ranges_resources_eq:
  "ranges_resources g name rs acc =
     (if \<not> list_ex (\<lambda>r. match (res_domain r) name) rs then Some acc
      else if acc = None \<or> acc = Some (grant_ranges g) then Some (Some (grant_ranges g))
      else None)"
  by (induction g name rs acc rule: ranges_resources.induct) auto

lemma ranges_grants_eq:
  "ranges_grants name grants acc =
     (let gs = name_grants grants name in
      if gs = [] then Some acc
      else if (acc = None \<or> acc = Some (grant_ranges (hd gs))) \<and>
              list_all (\<lambda>g. grant_ranges g = grant_ranges (hd gs)) gs
           then Some (Some (grant_ranges (hd gs)))
      else None)"
proof (induction grants arbitrary: acc)
  case (Cons g grants)
  have ng: "name_grants (g # grants) name =
      (if list_ex (\<lambda>r. match (res_domain r) name) (grant_resources g)
       then g # name_grants grants name else name_grants grants name)"
    by (simp add: name_grants_def)
  show ?case
  proof (cases "list_ex (\<lambda>r. match (res_domain r) name) (grant_resources g)")
    case False
    then show ?thesis by (simp add: ranges_resources_eq ng Cons.IH)
  next
    case True
    then show ?thesis
      by (cases "name_grants grants name")
        (auto simp add: ranges_resources_eq ng Cons.IH Let_def list_all_iff)
  qed
qed (simp add: name_grants_def)

lemma RangesForName_iff:
  "RangesForName grants name = Some ranges \<longleftrightarrow>
     name_grants grants name \<noteq> [] \<and>
     (\<forall>g \<in> set (name_grants grants name). grant_ranges g = ranges)"
  by (cases "name_grants grants name")
    (auto simp: RangesForName_def ranges_grants_eq Let_def list_all_iff)

lemma rangeKey_inject:
  assumes "rangeKey ps = rangeKey qs" "ps \<noteq> []" "qs \<noteq> []" "list_all canon4 ps" "list_all canon4 qs"
  shows "ps = qs"
proof -
  have nc: "list_all (\<lambda>x. CHR '','' \<notin> set x) (map PrefixString rs)" if "list_all canon4 rs" for rs
    using that PrefixString_no_comma by (fastforce simp: list_all_iff elim!: canon4E)
  have "map PrefixString ps = map PrefixString qs"
    using assms nc by (intro Join_inject [of _ "CHR '',''"]) (auto simp: rangeKey_def)
  moreover have "inj_on PrefixString (set ps \<union> set qs)"
    using assms(4,5) by (auto intro!: inj_onI PrefixString_inject simp: list_all_iff)
  ultimately show ?thesis by (rule map_inj_on)
qed

lemma rangeKey_no_nul:
  assumes "list_all canon4 ps"
  shows "CHR 0x00 \<notin> set (rangeKey ps)"
proof -
  have d: "\<not> is_digit CHR 0x00" by (simp add: is_digit_def code_def)
  have "CHR 0x00 \<notin> set (PrefixString p)" if "canon4 p" for p
    using that string4_chars [of "CHR 0x00"] itoa_no_char [OF d] d
    by (auto elim!: canon4E simp: PrefixString_def)
  with assms have "\<forall>x \<in> set (map PrefixString ps). CHR 0x00 \<notin> set x" by (auto simp: list_all_iff)
  moreover have "\<forall>x \<in> set xs. c \<notin> set x \<Longrightarrow> c \<notin> set sep \<Longrightarrow> c \<notin> set (Join xs sep)" for c xs sep
    by (induction xs sep rule: Join.induct) auto
  ultimately show ?thesis by (simp add: rangeKey_def)
qed

section \<open>Normal names and endpoints\<close>

lemma valid_label_chars: "valid_label l \<Longrightarrow> c \<in> set l \<Longrightarrow> code c < 128 \<and> \<not> is_upper c \<and> c \<noteq> CHR ''.''"
  by (auto simp: valid_label_def list_all_iff is_lower_def is_digit_def is_upper_def code_def)

lemma Join_chars: "c \<in> set (Join xs sep) \<Longrightarrow> c \<in> set sep \<or> (\<exists>x\<in>set xs. c \<in> set x)"
  by (induction xs sep rule: Join.induct) auto

lemma validName_chars:
  assumes "validName n" "c \<in> set n"
  shows "code c < 128 \<and> \<not> is_upper c"
proof -
  have "c \<in> set (Join (SplitByte CHR ''.'' n) ''.'')" using assms(2) by (simp add: Join_SplitByte)
  then have "c = CHR ''.'' \<or> (\<exists>x\<in>set (SplitByte CHR ''.'' n). c \<in> set x)"
    using Join_chars by fastforce
  moreover have "list_all valid_label (SplitByte CHR ''.'' n)" using assms(1) by (simp add: validName_def)
  ultimately show ?thesis
    using valid_label_chars by (auto simp: list_all_iff is_upper_def code_def)
qed

lemma validName_no_trailing_dot: "validName n \<Longrightarrow> \<not> suffix ''.'' n"
proof
  assume v: "validName n" and "suffix ''.'' n"
  then obtain m where "n = m @ ''.''" by (auto simp: suffix_def)
  then have "[] \<in> set (SplitByte CHR ''.'' n)"
    by (simp add: SplitByte_concat)
  with v show False by (auto simp: validName_def list_all_iff valid_label_def)
qed

lemma validName_fixed: "validName n \<Longrightarrow> NormalName ul n = (n, True)"
proof -
  assume v: "validName n"
  then have "ToLower ul n = n"
    using validName_chars [OF v] by (intro ToLower_fixed) (simp add: list_all_iff)
  with v validName_no_trailing_dot [OF v] show ?thesis
    by (simp add: NormalName_def TrimSuffix_id)
qed

lemma NormalName_dot: "validName n \<Longrightarrow> NormalName ul (n @ ''.'') = (n, True)"
  using validName_fixed [of n ul] validName_no_trailing_dot [of n]
  by (simp add: NormalName_def TrimSuffix_id)

lemma ParseUint16_SomeD: "ParseUint16 s = Some n \<Longrightarrow> all_digits s \<and> s \<noteq> [] \<and> n \<le> 65535"
  by (auto simp: ParseUint16_def split: if_splits)

lemma ParseUint16_53: "ParseUint16 ''53'' = Some 53"
  by (simp add: ParseUint16_def all_digits_def is_digit_def atoi_def digit_val_def code_def)

lemma SplitHostPort_host:
  assumes "SplitHostPort hp = Some (host, port)"
  shows "CHR ''['' \<notin> set host \<and> CHR '']'' \<notin> set host"
proof -
  from assms obtain bef where c: "CutLastByte hp CHR '':'' = Some (bef, port)"
    by (auto simp: SplitHostPort_def Let_def split: option.splits if_splits)
  show ?thesis
  proof (cases "hd hp = CHR ''[''")
    case True
    with assms c have "host = takeWhile (\<lambda>c. c \<noteq> CHR '']'') (tl hp)" "CHR ''['' \<notin> set (tl hp)"
      by (auto simp: SplitHostPort_def Let_def split: if_splits)
    then show ?thesis by (auto dest: set_takeWhileD)
  next
    case False
    with assms c CutLastByte_Some [OF c] show ?thesis
      by (auto simp: SplitHostPort_def split: if_splits)
  qed
qed

text \<open>A resolver that is no system sentinel and is free of stray brackets.\<close>

definition endpoint_text :: "string \<Rightarrow> bool" where
  "endpoint_text r \<longleftrightarrow> r \<noteq> [] \<and> \<not> IsSystemResolver r \<and>
     (SplitHostPort r = None \<longrightarrow> CHR ''['' \<notin> set r \<and> CHR '']'' \<notin> set r)"

lemma normalizeResolver_split:
  assumes "normalizeResolver r = Some r'" "endpoint_text r"
  shows "\<exists>host port n. r' = JoinHostPort host port \<and> plain_host host \<and>
     ParseUint16 port = Some n \<and> 0 < n"
proof (cases "SplitHostPort r")
  case None
  with assms have "r' = JoinHostPort r ''53''" "plain_host r"
    by (auto simp: normalizeResolver_def endpoint_text_def plain_host_def split: if_splits)
  then show ?thesis using ParseUint16_53 by fastforce
next
  case (Some hp)
  obtain h p where hp: "hp = (h, p)" by (cases hp)
  with Some assms obtain n where "r' = JoinHostPort h p" "h \<noteq> []" "ParseUint16 p = Some n" "n \<noteq> 0"
    by (auto simp: normalizeResolver_def endpoint_text_def split: if_splits option.splits)
  moreover from Some hp have "CHR ''['' \<notin> set h \<and> CHR '']'' \<notin> set h"
    using SplitHostPort_host by simp
  ultimately show ?thesis by (auto simp: plain_host_def)
qed

section \<open>Properties\<close>

definition example_caps :: capmap where
  "example_caps = [Capability \<mapsto> JArr [
     JObj [(''range'', JArr [JStr ''10.254.0.0/29'', JStr ''10.254.1.0/30'']),
           (''upstreamDNS'', JStr ''9.9.9.9''),
           (''resources'', JArr [JObj [(''domain'', JStr ''*.Example.com.''), (''ip'', JArr [JStr ''tcp:443''])]])],
     JObj [(''range'', JArr [JStr ''10.254.0.1/29'']),
           (''resources'', JArr [JStr ''example.net:80''])]]]"

definition example_grant :: Grant where
  "example_grant =
     \<lparr>grant_upstream = ''9.9.9.9:53'',
      grant_resources = [\<lparr>res_domain = ''*.example.com'', res_ip = [''tcp:443''], res_upstream = []\<rparr>],
      grant_ranges = [Pfx (V4 184418304) 29, Pfx (V4 184418560) 30]\<rparr>"

lemma Parse_example: "Parse id example_caps = [example_grant]"
  by code_simp

text \<open>
  C9: Every grant that survives \<open>Parse\<close> is well formed: it has at least one range, every
  range is a canonical IPv4 prefix and no address lies in two of them, it has at least one
  resource, every resource names a valid domain or wildcard pattern with a valid port list, and
  every resolver override is a normalized one.
\<close>

theorem Parse_grants_well_formed:
  assumes "g \<in> set (Parse ul caps)"
  shows "wf_grant g \<and>
     (\<forall>p a q. p \<in> set (grant_ranges g) \<and> q \<in> set (grant_ranges g) \<and> Contains p a \<and> Contains q a \<longrightarrow> p = q)"
  using Parse_wf_grant [OF assms] wf_ranges_disjoint [of "grant_ranges g"]
  by (auto simp: wf_grant_def)

theorem Parse_grants_well_formed_witness:
  "example_grant \<in> set (Parse id example_caps) \<and> wf_grant example_grant"
proof -
  have h: "example_grant \<in> set (Parse id example_caps)" by (simp add: Parse_example)
  show ?thesis using h Parse_grants_well_formed [OF h] by blast
qed

text \<open>
  C18: Domain patterns match exactly what the contract says. A one-star pattern matches a name
  with exactly one label in front of the suffix, a two-star pattern one with any non-empty
  chain of valid labels in front of it, neither matches the bare suffix, and every other
  pattern matches only itself.
\<close>

theorem match_patterns:
  assumes "validName name"
  shows "(match (''*.'' @ suf) name \<longleftrightarrow>
      (\<exists>l. name = l @ ''.'' @ suf \<and> valid_label l \<and> CHR ''.'' \<notin> set l)) \<and>
    (match (''**.'' @ suf) name \<longleftrightarrow>
      (\<exists>l. name = l @ ''.'' @ suf \<and> l \<noteq> [] \<and> list_all valid_label (SplitByte CHR ''.'' l))) \<and>
    \<not> match (''*.'' @ name) name \<and> \<not> match (''**.'' @ name) name \<and>
    (\<not> HasPrefix p ''*.'' \<and> \<not> HasPrefix p ''**.'' \<longrightarrow> match p name = (p = name))"
proof (intro conjI)
  have split: "list_all valid_label (SplitByte CHR ''.'' l) \<and> l \<noteq> []" if "name = l @ ''.'' @ suf" for l
    using assms that validName_labels by blast
  have one: "valid_label l" if "name = l @ ''.'' @ suf" "CHR ''.'' \<notin> set l" for l
    using split [OF that(1)] that(2) by (simp add: SplitByte_no_sep)
  show "match (''*.'' @ suf) name \<longleftrightarrow>
      (\<exists>l. name = l @ ''.'' @ suf \<and> valid_label l \<and> CHR ''.'' \<notin> set l)"
    unfolding match_single using one by blast
  show "match (''**.'' @ suf) name \<longleftrightarrow>
      (\<exists>l. name = l @ ''.'' @ suf \<and> l \<noteq> [] \<and> list_all valid_label (SplitByte CHR ''.'' l))"
    unfolding match_multi using split by blast
  show "\<not> match (''*.'' @ name) name"
    unfolding match_single by (auto dest: arg_cong [where f = length])
  show "\<not> match (''**.'' @ name) name"
    unfolding match_multi by (auto dest: arg_cong [where f = length])
qed (simp add: match_exact)

theorem match_patterns_witness:
  "validName ''a.example.com'' \<and> match ''*.example.com'' ''a.example.com'' \<and>
   \<not> match ''*.a.example.com'' ''a.example.com''"
proof -
  have v: "validName ''a.example.com''" by code_simp
  have "\<exists>l. ''a.example.com'' = l @ ''.'' @ ''example.com'' \<and> valid_label l \<and> CHR ''.'' \<notin> set l"
    by (rule exI [of _ "''a''"]) (simp add: valid_label_def is_lower_def code_def)
  with v match_patterns [OF v, of "''example.com''"] show ?thesis by simp
qed

text \<open>
  C19: On a validated port list, \<open>allowedPort\<close> answers exactly the list's meaning: an empty
  list allows every port, and otherwise the protocol and the decimal value of some entry are
  those of the flow. No 64-bit wrap-around and no malformed entry can let another port through.
\<close>

theorem allowedPort_exact:
  assumes "validPorts ports" "proto = ''tcp'' \<or> proto = ''udp''"
  shows "allowedPort ports proto port \<longleftrightarrow>
    ports = [] \<or> (\<exists>num. proto @ '':'' @ num \<in> set ports \<and> atoi num = unat port)"
  by (rule allowedPort_valid [OF assms])

theorem allowedPort_exact_witness:
  "validPorts [''tcp:443'', ''udp:53''] \<and> allowedPort [''tcp:443'', ''udp:53''] ''udp'' 53 \<and>
   \<not> allowedPort [''tcp:443'', ''udp:53''] ''tcp'' 53"
proof -
  have v: "validPorts [''tcp:443'', ''udp:53'']" by code_simp
  have u: "''udp'' = ''tcp'' \<or> ''udp'' = ''udp''" and t: "''tcp'' = ''tcp'' \<or> ''tcp'' = ''udp''" by simp_all
  have n: "atoi ''53'' = 53" "atoi ''443'' = 443"
    by (simp_all add: atoi_def digit_val_def code_def)
  show ?thesis
    using v n allowedPort_exact [OF v u, of 53] allowedPort_exact [OF v t, of 53] by auto
qed


definition example_gateway :: Gateway where
  "example_gateway =
     \<lparr>gw_prefixes = [Pfx (V4 184418304) 29, Pfx (V4 184418560) 30],
      gw_resolver = ''192.0.2.1:53'', gw_system = False\<rparr>"

lemma GatewayFor_example:
  "GatewayFor [example_grant] example_gateway ''a.example.com'' ''tcp'' 443 =
     Some (example_gateway\<lparr>gw_resolver := ''9.9.9.9:53''\<rparr>)"
  by code_simp


text \<open>
  C17: An unauthorized flow never gets a gateway, and an authorized flow whose equally specific
  matching resources agree on the resolver always gets one: \<open>GatewayFor\<close> is total on
  unambiguous policies.
\<close>

theorem GatewayFor_decides:
  "(\<not> Authorize grants (gw_prefixes gw) name proto port \<longrightarrow>
      GatewayFor grants gw name proto port = None) \<and>
   (Authorize grants (gw_prefixes gw) name proto port \<and>
      consistent (candidates grants gw name proto port) \<longrightarrow>
      (\<exists>gw'. GatewayFor grants gw name proto port = Some gw'))"
proof (intro conjI impI)
  assume "\<not> Authorize grants (gw_prefixes gw) name proto port"
  then have "candidates grants gw name proto port = []" using candidates_Authorize by blast
  then show "GatewayFor grants gw name proto port = None"
    by (simp add: GatewayFor_select start_selection_def)
qed (auto intro: GatewayFor_complete)

theorem GatewayFor_decides_witness:
  "GatewayFor [example_grant] example_gateway ''example.com'' ''tcp'' 443 = None \<and>
   (\<exists>gw'. GatewayFor [example_grant] example_gateway ''a.example.com'' ''tcp'' 443 = Some gw')"
proof -
  have "\<not> Authorize [example_grant] (gw_prefixes example_gateway) ''example.com'' ''tcp'' 443"
    by code_simp
  moreover have "Authorize [example_grant] (gw_prefixes example_gateway) ''a.example.com'' ''tcp'' 443 \<and>
      consistent (candidates [example_grant] example_gateway ''a.example.com'' ''tcp'' 443)"
    by code_simp
  ultimately show ?thesis
    using GatewayFor_decides [of "[example_grant]" example_gateway] by blast
qed

definition grant_a :: Grant where
  "grant_a = example_grant\<lparr>grant_upstream := ''192.0.2.1:53''\<rparr>"

definition grant_b :: Grant where
  "grant_b = example_grant\<lparr>grant_upstream := ''192.0.2.2:53''\<rparr>"

definition grant_override :: Grant where
  "grant_override = example_grant\<lparr>grant_resources :=
     [\<lparr>res_domain = ''a.example.com'', res_ip = [], res_upstream = ''192.0.2.3:53''\<rparr>]\<rparr>"

text \<open>
  The outcome depends on the order in which the grants arrive. With a resource override and
  two grant overrides that disagree, the flow is accepted with the resource's resolver when the
  override comes first and refused when the two less specific choices come first, although the
  override wins over both of them.
\<close>

theorem GatewayFor_order_dependent:
  "GatewayFor [grant_override, grant_a, grant_b] example_gateway ''a.example.com'' ''tcp'' 443 =
     Some (example_gateway\<lparr>gw_resolver := ''192.0.2.3:53''\<rparr>) \<and>
   GatewayFor [grant_a, grant_b, grant_override] example_gateway ''a.example.com'' ''tcp'' 443 = None"
  by code_simp

text \<open>
  C20: \<open>RangesForName\<close> returns an allocation pool exactly when some grant has a resource that
  matches the name and all such grants carry that same list of ranges; conflicting assignments
  and unmatched names give none.
\<close>

theorem RangesForName_exact:
  "RangesForName grants name = Some ranges \<longleftrightarrow>
     name_grants grants name \<noteq> [] \<and>
     list_all (\<lambda>g. grant_ranges g = ranges) (name_grants grants name)"
  by (simp add: RangesForName_iff list_all_iff)

text \<open>
  The key under which allocations are stored identifies the pool: two non-empty lists of
  canonical IPv4 ranges with the same \<open>rangeKey\<close> are the same list, in the same order.
\<close>

theorem rangeKey_identifies:
  assumes "wf_ranges ps" "wf_ranges qs"
  shows "rangeKey ps = rangeKey qs \<longleftrightarrow> ps = qs"
  using assms rangeKey_inject by (auto simp: wf_ranges_def)

theorem rangeKey_identifies_witness:
  "wf_ranges (grant_ranges example_grant) \<and> wf_ranges [Pfx (V4 184418304) 29] \<and>
   rangeKey (grant_ranges example_grant) \<noteq> rangeKey [Pfx (V4 184418304) 29]"
proof -
  have a: "wf_ranges (grant_ranges example_grant)" by code_simp
  have b: "wf_ranges [Pfx (V4 184418304) 29]" by code_simp
  show ?thesis using a b rangeKey_identifies [OF a b] by (simp add: example_grant_def)
qed

text \<open>
  Normalization of names is canonical: whatever \<open>NormalName\<close> accepts is a valid lower-case
  ASCII name without a trailing dot, is its own normal form, and is also the normal form of the
  name written with a trailing dot.
\<close>

theorem NormalName_canonical:
  assumes "NormalName ul name = (n, True)"
  shows "validName n \<and> is_ascii n \<and> \<not> HasSuffix n ''.'' \<and>
     NormalName ul n = (n, True) \<and> NormalName ul (n @ ''.'') = (n, True)"
proof -
  from assms have v: "validName n" by (auto simp: NormalName_def Let_def)
  then show ?thesis
    using validName_chars [OF v] validName_no_trailing_dot [OF v] validName_fixed [OF v] NormalName_dot [OF v]
    by (simp add: is_ascii_def list_all_iff HasSuffix_def)
qed

theorem NormalName_canonical_witness:
  "NormalName id ''App.Example.COM.'' = (''app.example.com'', True) \<and>
   NormalName id ''app.example.com'' = (''app.example.com'', True)"
proof -
  have h: "NormalName id ''App.Example.COM.'' = (''app.example.com'', True)" by code_simp
  show ?thesis using h NormalName_canonical [OF h] by blast
qed

text \<open>
  An accepted resolver endpoint is dialable: for a text without stray brackets that is not
  the system sentinel, the normalized value splits again into a non-empty host and a port
  between 1 and 65535.
\<close>

theorem normalizeResolver_endpoint:
  assumes "normalizeResolver r = Some r'" "endpoint_text r"
  shows "\<exists>host port n. SplitHostPort r' = Some (host, port) \<and> host \<noteq> [] \<and>
     ParseUint16 port = Some n \<and> 1 \<le> n \<and> n \<le> 65535"
proof -
  obtain host port n where h: "r' = JoinHostPort host port" "plain_host host"
    "ParseUint16 port = Some n" "0 < n"
    using normalizeResolver_split [OF assms] by blast
  with ParseUint16_SomeD [OF h(3)] SplitHostPort_Join [of host port] show ?thesis
    by (auto simp: plain_host_def)
qed

theorem normalizeResolver_endpoint_witness:
  "normalizeResolver ''9.9.9.9'' = Some ''9.9.9.9:53'' \<and> endpoint_text ''9.9.9.9'' \<and>
   (\<exists>host port n. SplitHostPort ''9.9.9.9:53'' = Some (host, port) \<and> host \<noteq> [] \<and>
     ParseUint16 port = Some n \<and> 1 \<le> n \<and> n \<le> 65535)"
proof -
  have a: "normalizeResolver ''9.9.9.9'' = Some ''9.9.9.9:53''" by code_simp
  have b: "endpoint_text ''9.9.9.9''" by code_simp
  show ?thesis using a b normalizeResolver_endpoint [OF a b] by blast
qed

text \<open>
  The shorthand for a resource means what the object form says: a string
  \<^verbatim>\<open>domain:port,port,...\<close> decodes to the same resource as the object with that domain and the
  ports listed as TCP entries.
\<close>

theorem shorthand_is_object:
  assumes "d \<noteq> []" "CHR '':'' \<notin> set d" "ps \<noteq> []"
    and "list_all (\<lambda>p. p \<noteq> [] \<and> CHR '':'' \<notin> set p \<and> CHR '','' \<notin> set p) ps"
  shows "Resource_UnmarshalJSON (JStr (d @ '':'' @ Join ps '','')) =
     Resource_UnmarshalJSON
       (JObj [(''domain'', JStr d), (''ip'', JArr (map (\<lambda>p. JStr (''tcp:'' @ p)) ps))])"
proof -
  let ?ports = "Join ps '',''"
  have cut: "CutByte (d @ '':'' @ ?ports) CHR '':'' = Some (d, ?ports)"
    using assms(2) by (simp add: CutByte_def takeWhile_sep dropWhile_sep)
  have split: "SplitByte CHR '','' ?ports = ps"
    using assms(3,4) by (intro SplitByte_Join) (auto simp: list_all_iff)
  have ne: "?ports \<noteq> []" using assms(3,4) split by auto
  have nc: "CHR '':'' \<notin> set ?ports"
    using assms(4) Join_chars [of "CHR '':''" ps "'',''"] by (auto simp: list_all_iff)
  have "those (map as_string (map (\<lambda>p. JStr (''tcp:'' @ p)) ps)) = Some (map (\<lambda>p. ''tcp:'' @ p) ps)"
    by (simp add: those_map_Some_iff list_all2_conv_all_nth)
  then have "Resource_UnmarshalJSON
       (JObj [(''domain'', JStr d), (''ip'', JArr (map (\<lambda>p. JStr (''tcp:'' @ p)) ps))]) =
     Inr \<lparr>res_domain = d, res_ip = map (\<lambda>p. ''tcp:'' @ p) ps, res_upstream = []\<rparr>"
    by (simp add: Resource_UnmarshalJSON_def field_string_def field_list_def field_raw_def members_def
        EqualFoldASCII_def as_list_def upper_char_def is_lower_def code_def)
  moreover have "[] \<notin> set ps" using assms(4) by (auto simp: list_all_iff)
  ultimately show ?thesis
    unfolding Resource_UnmarshalJSON_def json.case cut option.case prod.case
    using assms(1) ne nc split by (simp add: ContainsByte_def)
qed

theorem shorthand_is_object_witness:
  "Resource_UnmarshalJSON (JStr ''example.net:443,80'') =
     Resource_UnmarshalJSON
       (JObj [(''domain'', JStr ''example.net''), (''ip'', JArr [JStr ''tcp:443'', JStr ''tcp:80''])])"
  using shorthand_is_object [of "''example.net''" "[''443'', ''80'']"] by simp

end
