(* ===== verification/Allocation.thy ===== *)
theory Allocation
  imports Policy
begin

text \<open>
  The in-memory allocator of \<^verbatim>\<open>internal/domain/domain.go\<close> and its file format in
  \<^verbatim>\<open>state.go\<close>. The four Go maps are partial maps; a missing entry of \<open>next\<close> or
  \<open>expires\<close> reads as the zero value. Every method holds the allocator's lock for its whole
  body (\<open>Allocate\<close> repeats its first lookup under the write lock, \<open>LookupKeyLive\<close> takes
  the lock twice), so a method is one function from state to result and state. The lemmas show
  that key and address maps stay inverse to each other, that remembering never changes a
  mapping, and that on separated pools \<open>Allocate\<close> never hands out an address twice; the
  concrete runs at the end show what happens on pools that touch or overlap.
\<close>

section \<open>Time\<close>

text \<open>
  \<^verbatim>\<open>time.Time\<close> as nanoseconds since the Unix epoch, which is also \<^verbatim>\<open>UnixNano\<close>; the
  zero time is the first of January of year 1. Durations are nanoseconds.
\<close>

type_synonym time = int
type_synonym duration = int

definition zeroTime :: time where
  "zeroTime = - 62135596800000000000"

definition IsZero :: "time \<Rightarrow> bool" where
  "IsZero t \<longleftrightarrow> t = zeroTime"

section \<open>State\<close>

record Mapping =
  map_gateway :: string
  map_domain :: string

record Allocator =
  byKey :: "string \<rightharpoonup> addr"
  byIP :: "addr \<rightharpoonup> Mapping"
  nextIP :: "string \<rightharpoonup> addr"
  expires :: "addr \<rightharpoonup> time"

definition NewAllocator :: Allocator where
  "NewAllocator = \<lparr>byKey = Map.empty, byIP = Map.empty, nextIP = Map.empty, expires = Map.empty\<rparr>"

definition alloc_key :: "string \<Rightarrow> string \<Rightarrow> string" where
  "alloc_key gateway name = gateway @ CHR 0x00 # name"

definition next_of :: "Allocator \<Rightarrow> string \<Rightarrow> addr" where
  "next_of a gateway = (case nextIP a gateway of None \<Rightarrow> NoAddr | Some ip \<Rightarrow> ip)"

definition expires_of :: "Allocator \<Rightarrow> addr \<Rightarrow> time" where
  "expires_of a ip = (case expires a ip of None \<Rightarrow> zeroTime | Some t \<Rightarrow> t)"

section \<open>Allocate\<close>

text \<open>The first loop of \<open>Allocate\<close>: where to continue from the cursor \<open>ip\<close>.\<close>

fun alloc_start :: "addr \<Rightarrow> nat \<Rightarrow> prefix list \<Rightarrow> nat" where
  "alloc_start ip i [] = 0"
| "alloc_start ip i (p # ps) =
     (if Contains p ip then i
      else if IsValid (Prev ip) \<and> Contains p (Prev ip) then i + 1
      else alloc_start ip (i + 1) ps)"

text \<open>
  The second loop, over the prefixes from \<open>start\<close> on; the flag says that this is the
  iteration \<^verbatim>\<open>i == start\<close>.
\<close>

fun alloc_pick :: "bool \<Rightarrow> addr \<Rightarrow> prefix list \<Rightarrow> addr" where
  "alloc_pick at_start ip [] = ip"
| "alloc_pick at_start ip (p # ps) =
     (let ip' = (if \<not> at_start \<or> \<not> Contains p ip then Next (pfx_addr (Masked p)) else ip) in
      if Contains p ip' \<and> ip' \<noteq> pfx_addr (Masked p) then ip'
      else alloc_pick False NoAddr ps)"

definition alloc_next :: "addr \<Rightarrow> prefix list \<Rightarrow> addr option" where
  "alloc_next ip ps =
     (let start = (if IsValid ip then alloc_start ip 0 ps else 0) in
      if ps = [] \<or> start = length ps then None
      else let ip' = (if \<not> IsValid ip then Next (pfx_addr (Masked (hd ps))) else ip);
               r = alloc_pick True ip' (drop start ps) in
        if \<not> IsValid r then None else Some r)"

definition Allocate ::
  "Allocator \<Rightarrow> string \<Rightarrow> prefix list \<Rightarrow> string \<Rightarrow> addr result \<times> Allocator" where
  "Allocate a gateway ps name =
     (let key = alloc_key gateway name in
      case byKey a key of
        Some ip \<Rightarrow> (Inr ip, a)
      | None \<Rightarrow>
          (case alloc_next (next_of a gateway) ps of
             None \<Rightarrow> (Inl ''synthetic ranges exhausted'', a)
           | Some ip \<Rightarrow>
               (Inr ip,
                a\<lparr>byKey := (byKey a)(key \<mapsto> ip),
                  byIP := (byIP a)(ip \<mapsto> \<lparr>map_gateway = gateway, map_domain = name\<rparr>),
                  nextIP := (nextIP a)(gateway \<mapsto> Next ip)\<rparr>)))"

section \<open>Lookups and the expiring cache\<close>

definition Lookup :: "Allocator \<Rightarrow> addr \<Rightarrow> Mapping option" where
  "Lookup a ip = byIP a ip"

definition expired :: "Allocator \<Rightarrow> addr \<Rightarrow> time \<Rightarrow> bool" where
  "expired a ip now \<longleftrightarrow> \<not> IsZero (expires_of a ip) \<and> \<not> now < expires_of a ip"

definition LookupLive :: "Allocator \<Rightarrow> addr \<Rightarrow> time \<Rightarrow> Mapping option \<times> Allocator" where
  "LookupLive a ip now =
     (case byIP a ip of
        None \<Rightarrow> (None, a)
      | Some m \<Rightarrow>
          if expired a ip now
          then (None,
                a\<lparr>byIP := (byIP a)(ip := None),
                  byKey := (byKey a)(alloc_key (map_gateway m) (map_domain m) := None),
                  expires := (expires a)(ip := None)\<rparr>)
          else (Some m, a))"

definition LookupKey :: "Allocator \<Rightarrow> string \<Rightarrow> string \<Rightarrow> addr option" where
  "LookupKey a gateway domain = byKey a (alloc_key gateway domain)"

definition LookupKeyLive ::
  "Allocator \<Rightarrow> string \<Rightarrow> string \<Rightarrow> time \<Rightarrow> addr option \<times> Allocator" where
  "LookupKeyLive a gateway domain now =
     (case LookupKey a gateway domain of
        None \<Rightarrow> (None, a)
      | Some ip \<Rightarrow>
          (case LookupLive a ip now of
             (None, a') \<Rightarrow> (None, a')
           | (Some _, a') \<Rightarrow> (Some ip, a')))"

definition bump_next :: "Allocator \<Rightarrow> string \<Rightarrow> addr \<Rightarrow> Allocator" where
  "bump_next a gateway ip =
     (let n = Next ip in
      if \<not> IsValid (next_of a gateway) \<or> Less (next_of a gateway) n
      then a\<lparr>nextIP := (nextIP a)(gateway \<mapsto> n)\<rparr> else a)"

definition RememberUntil ::
  "Allocator \<Rightarrow> string \<Rightarrow> string \<Rightarrow> addr \<Rightarrow> time \<Rightarrow> Allocator" where
  "RememberUntil a gateway domain ip expiry =
     (let key = alloc_key gateway domain in
      if byKey a key \<noteq> None then a
      else if byIP a ip \<noteq> None then a
      else bump_next
             (a\<lparr>byKey := (byKey a)(key \<mapsto> ip),
                byIP := (byIP a)(ip \<mapsto> \<lparr>map_gateway = gateway, map_domain = domain\<rparr>),
                expires := (expires a)(ip \<mapsto> expiry)\<rparr>) gateway ip)"

definition Remember :: "Allocator \<Rightarrow> string \<Rightarrow> string \<Rightarrow> addr \<Rightarrow> Allocator" where
  "Remember a gateway domain ip = RememberUntil a gateway domain ip zeroTime"

section \<open>The file format\<close>

record diskMapping =
  dm_gateway :: string
  dm_domain :: string
  dm_ip :: string

text \<open>
  The rows of a snapshot. Go ranges over the map in an unspecified order, so the order in which
  the addresses are met is an argument.
\<close>

definition snapshot :: "addr list \<Rightarrow> Allocator \<Rightarrow> diskMapping list" where
  "snapshot order a =
     List.map_filter (\<lambda>ip. case byIP a ip of
         None \<Rightarrow> None
       | Some m \<Rightarrow> Some \<lparr>dm_gateway = map_gateway m, dm_domain = map_domain m,
                         dm_ip = AddrString ip\<rparr>) order"

text \<open>One row put into the maps, as the loading loops do it (without an expiry).\<close>

definition load_row :: "Allocator \<Rightarrow> string \<Rightarrow> string \<Rightarrow> addr \<Rightarrow> Allocator" where
  "load_row a gateway domain ip =
     bump_next
       (a\<lparr>byKey := (byKey a)(alloc_key gateway domain \<mapsto> ip),
          byIP := (byIP a)(ip \<mapsto> \<lparr>map_gateway = gateway, map_domain = domain\<rparr>)\<rparr>) gateway ip"

text \<open>The row loop: a row whose address does not parse stops it with the rows before it loaded.\<close>

fun load_rows :: "diskMapping list \<Rightarrow> Allocator \<Rightarrow> bool \<times> Allocator" where
  "load_rows [] a = (True, a)"
| "load_rows (r # rs) a =
     (case ParseAddr (dm_ip r) of
        None \<Rightarrow> (False, a)
      | Some ip \<Rightarrow> load_rows rs (load_row a (dm_gateway r) (dm_domain r) ip))"

text \<open>\<^verbatim>\<open>json.Marshal\<close> of the rows and the decoding \<open>Load\<close> does.\<close>

definition row_json :: "diskMapping \<Rightarrow> json" where
  "row_json r =
     JObj [(''Gateway'', JStr (dm_gateway r)), (''Domain'', JStr (dm_domain r)),
           (''IP'', JStr (dm_ip r))]"

definition row_of_json :: "json \<Rightarrow> diskMapping option" where
  "row_of_json j =
     (case as_object j of
        None \<Rightarrow> None
      | Some obj \<Rightarrow>
          (case (field_string ''Gateway'' obj, field_string ''Domain'' obj, field_string ''IP'' obj) of
             (Some g, Some d, Some ip) \<Rightarrow> Some \<lparr>dm_gateway = g, dm_domain = d, dm_ip = ip\<rparr>
           | _ \<Rightarrow> None))"

text \<open>
  What \<^verbatim>\<open>os.ReadFile\<close> finds at the path: nothing, an error, text that is no JSON, or a
  document. \<open>Load\<close> reports success as \<^term>\<open>True\<close>.
\<close>

datatype file_state = NotExist | ReadError | NoJson | Document json

definition Load :: "file_state \<Rightarrow> Allocator \<Rightarrow> bool \<times> Allocator" where
  "Load f a =
     (case f of
        NotExist \<Rightarrow> (True, a)
      | ReadError \<Rightarrow> (False, a)
      | NoJson \<Rightarrow> (False, a)
      | Document j \<Rightarrow>
          (case as_list row_of_json j of
             None \<Rightarrow> (False, a)
           | Some rows \<Rightarrow> load_rows rows a))"

text \<open>
  \<open>Save\<close> writes a temporary file and renames it over the target. The file system is a map
  from paths to contents; the faults say which of the three calls fails, and \<open>junk\<close> is what
  a failed write leaves in the temporary file.
\<close>

record fs_faults =
  mkdir_fails :: bool
  write_fails :: bool
  rename_fails :: bool

definition Save ::
  "fs_faults \<Rightarrow> file_state \<Rightarrow> addr list \<Rightarrow> string \<Rightarrow> Allocator \<Rightarrow> (string \<Rightarrow> file_state) \<Rightarrow> bool \<times> (string \<Rightarrow> file_state)" where
  "Save faults junk order path a fs =
     (let b = Document (JArr (map row_json (snapshot order a)));
          tmp = path @ ''.tmp'' in
      if mkdir_fails faults then (False, fs)
      else if write_fails faults then (False, fs(tmp := junk))
      else let fs' = fs(tmp := b) in
        if rename_fails faults then (False, fs')
        else (True, fs'(path := b, tmp := NotExist)))"

section \<open>Key and address maps are inverse\<close>

definition mapping_key :: "Mapping \<Rightarrow> string" where
  "mapping_key m = alloc_key (map_gateway m) (map_domain m)"

definition alloc_wf :: "Allocator \<Rightarrow> bool" where
  "alloc_wf a \<longleftrightarrow>
     (\<forall>k ip. byKey a k = Some ip \<longrightarrow> (\<exists>m. byIP a ip = Some m \<and> mapping_key m = k)) \<and>
     (\<forall>ip m. byIP a ip = Some m \<longrightarrow> byKey a (mapping_key m) = Some ip)"

lemma alloc_key_inject:
  "CHR 0x00 \<notin> set g \<Longrightarrow> CHR 0x00 \<notin> set h \<Longrightarrow> alloc_key g d = alloc_key h e \<longleftrightarrow> g = h \<and> d = e"
  using sep_append_inject [of "CHR 0x00" g h d e] by (auto simp: alloc_key_def)

lemma mapping_key_make [simp]:
  "mapping_key \<lparr>map_gateway = g, map_domain = d\<rparr> = alloc_key g d"
  by (simp add: mapping_key_def)

lemma alloc_wf_new: "alloc_wf NewAllocator"
  by (simp add: alloc_wf_def NewAllocator_def)

lemma alloc_wf_keyD:
  "alloc_wf a \<Longrightarrow> byKey a k = Some ip \<Longrightarrow> \<exists>m. byIP a ip = Some m \<and> mapping_key m = k"
  by (simp add: alloc_wf_def)

lemma alloc_wf_ipD: "alloc_wf a \<Longrightarrow> byIP a ip = Some m \<Longrightarrow> byKey a (mapping_key m) = Some ip"
  by (simp add: alloc_wf_def)

lemma alloc_wf_insert:
  assumes "alloc_wf a" "byKey a (alloc_key g d) = None" "byIP a ip = None"
    and "byKey b = (byKey a)(alloc_key g d \<mapsto> ip)"
    and "byIP b = (byIP a)(ip \<mapsto> \<lparr>map_gateway = g, map_domain = d\<rparr>)"
  shows "alloc_wf b"
  unfolding alloc_wf_def
proof (intro conjI allI impI)
  fix k x assume "byKey b k = Some x"
  then show "\<exists>m. byIP b x = Some m \<and> mapping_key m = k"
    using assms alloc_wf_keyD [OF assms(1), of k x] by (fastforce split: if_splits)
next
  fix x m assume "byIP b x = Some m"
  then show "byKey b (mapping_key m) = Some x"
    using assms alloc_wf_ipD [OF assms(1), of x m] by (fastforce split: if_splits)
qed

lemma alloc_wf_delete:
  assumes "alloc_wf a" "byIP a ip = Some m"
    and "byKey b = (byKey a)(mapping_key m := None)" "byIP b = (byIP a)(ip := None)"
  shows "alloc_wf b"
  unfolding alloc_wf_def
proof (intro conjI allI impI)
  fix k x assume k: "byKey b k = Some x"
  then have "byKey a k = Some x" "k \<noteq> mapping_key m" using assms(3) by (auto split: if_splits)
  then obtain n where n: "byIP a x = Some n" "mapping_key n = k" using alloc_wf_keyD [OF assms(1)] by blast
  moreover have "x \<noteq> ip" using n assms(2) \<open>k \<noteq> mapping_key m\<close> by auto
  ultimately show "\<exists>m. byIP b x = Some m \<and> mapping_key m = k" using assms(4) by auto
next
  fix x n assume "byIP b x = Some n"
  then have n: "byIP a x = Some n" "x \<noteq> ip" using assms(4) by (auto split: if_splits)
  then have "byKey a (mapping_key n) = Some x" using alloc_wf_ipD [OF assms(1)] by blast
  moreover have "mapping_key n \<noteq> mapping_key m"
    using calculation alloc_wf_ipD [OF assms(1,2)] n(2) by auto
  ultimately show "byKey b (mapping_key n) = Some x" using assms(3) by simp
qed

lemma bump_next_maps [simp]:
  "byKey (bump_next a g ip) = byKey a" "byIP (bump_next a g ip) = byIP a"
  "expires (bump_next a g ip) = expires a"
  by (simp_all add: bump_next_def Let_def)

lemma RememberUntil_wf:
  assumes "alloc_wf a"
  shows "alloc_wf (RememberUntil a g d ip e)"
proof (cases "byKey a (alloc_key g d) \<noteq> None \<or> byIP a ip \<noteq> None")
  case True
  with assms show ?thesis by (auto simp: RememberUntil_def Let_def)
next
  case False
  then show ?thesis
    by (intro alloc_wf_insert [OF assms, of g d ip]) (auto simp: RememberUntil_def Let_def)
qed

lemma LookupLive_wf:
  assumes "alloc_wf a"
  shows "alloc_wf (snd (LookupLive a ip now))"
proof (cases "byIP a ip")
  case (Some m)
  then show ?thesis
    using assms by (auto simp: LookupLive_def mapping_key_def intro: alloc_wf_delete [OF assms Some])
qed (simp add: LookupLive_def assms)

lemma LookupKeyLive_snd:
  "snd (LookupKeyLive a g d now) =
     (case LookupKey a g d of None \<Rightarrow> a | Some ip \<Rightarrow> snd (LookupLive a ip now))"
  by (auto simp: LookupKeyLive_def split: option.splits prod.splits)

lemma LookupKeyLive_wf: "alloc_wf a \<Longrightarrow> alloc_wf (snd (LookupKeyLive a g d now))"
  by (simp add: LookupKeyLive_snd LookupLive_wf split: option.splits)

lemma LookupLive_Some:
  "LookupLive a ip now = (Some m, a') \<longleftrightarrow> byIP a ip = Some m \<and> \<not> expired a ip now \<and> a' = a"
  by (auto simp: LookupLive_def split: option.splits)

lemma LookupKeyLive_Some:
  "LookupKeyLive a g d now = (Some ip, a') \<longleftrightarrow>
     byKey a (alloc_key g d) = Some ip \<and> byIP a ip \<noteq> None \<and> \<not> expired a ip now \<and> a' = a"
  by (auto simp: LookupKeyLive_def LookupKey_def LookupLive_def split: option.splits prod.splits)

text \<open>Looking up only removes entries, and only expired ones.\<close>

lemma LookupLive_sub:
  assumes "byIP (snd (LookupLive a ip now)) x = Some m"
  shows "byIP a x = Some m \<and> expires_of (snd (LookupLive a ip now)) x = expires_of a x"
  using assms
  by (cases "byIP a ip") (auto simp: LookupLive_def expires_of_def split: if_splits)

lemma LookupKeyLive_sub:
  assumes "byIP (snd (LookupKeyLive a g d now)) x = Some m"
  shows "byIP a x = Some m \<and> expires_of (snd (LookupKeyLive a g d now)) x = expires_of a x"
proof (cases "LookupKey a g d")
  case (Some ip)
  with assms have "byIP (snd (LookupLive a ip now)) x = Some m" by (simp add: LookupKeyLive_snd)
  from LookupLive_sub [OF this] Some show ?thesis by (simp add: LookupKeyLive_snd)
qed (use assms in \<open>simp add: LookupKeyLive_snd\<close>)

lemma LookupLive_keeps:
  "byIP a x = Some m \<Longrightarrow> \<not> expired a x now \<Longrightarrow> byIP (snd (LookupLive a ip now)) x = Some m"
  by (cases "byIP a ip") (auto simp: LookupLive_def)

lemma RememberUntil_cases:
  obtains "RememberUntil a g d ip e = a" "byKey a (alloc_key g d) \<noteq> None \<or> byIP a ip \<noteq> None"
  | "byKey a (alloc_key g d) = None" "byIP a ip = None"
    "byIP (RememberUntil a g d ip e) = (byIP a)(ip \<mapsto> \<lparr>map_gateway = g, map_domain = d\<rparr>)"
    "byKey (RememberUntil a g d ip e) = (byKey a)(alloc_key g d \<mapsto> ip)"
    "expires (RememberUntil a g d ip e) = (expires a)(ip \<mapsto> e)"
  by (cases "byKey a (alloc_key g d)"; cases "byIP a ip") (auto simp: RememberUntil_def Let_def)

section \<open>Pools\<close>

text \<open>
  Pools on which the cursor works: no range ends at the top of the address space, and no range
  starts where another one ends.
\<close>

definition separated :: "prefix list \<Rightarrow> bool" where
  "separated ps \<longleftrightarrow>
     list_all (\<lambda>p. plow p + psize p < 4294967296 \<and>
       list_all (\<lambda>q. plow q \<noteq> plow p + psize p) ps) ps"

definition host_of :: "prefix \<Rightarrow> addr \<Rightarrow> bool" where
  "host_of p ip \<longleftrightarrow> Contains p ip \<and> ip \<noteq> pfx_addr (Masked p)"

definition pool_host :: "prefix list \<Rightarrow> addr \<Rightarrow> bool" where
  "pool_host ps ip \<longleftrightarrow> list_ex (\<lambda>p. host_of p ip) ps"

lemma canon4_Masked: "canon4 p \<Longrightarrow> Masked p = p"
  by (simp add: canon4_def)

lemma canon4_base: "canon4 p \<Longrightarrow> pfx_addr p = V4 (of_nat (plow p))"
  by (elim canon4E) simp

lemma plow_lt: "plow p < 4294967296"
  by (simp add: plow_def split: addr.splits)

lemma unat_of_nat_small: "n < 4294967296 \<Longrightarrow> unat (of_nat n :: 32 word) = n"
  by (simp add: unat_of_nat)

lemma Next_V4: "Suc (unat w) < 4294967296 \<Longrightarrow> Next (V4 w) = V4 (of_nat (Suc (unat w)))"
proof -
  assume h: "Suc (unat w) < 4294967296"
  have "w + 1 = of_nat (Suc (unat w))" by simp
  moreover have "unat (of_nat (Suc (unat w)) :: 32 word) \<noteq> 0" using h by (simp only: unat_of_nat_small)
  ultimately show ?thesis by (metis Next.simps(1) unat_0)
qed

lemma Prev_V4: "0 < unat w \<Longrightarrow> Prev (V4 w) = V4 (of_nat (unat w - 1))"
proof -
  assume h: "0 < unat w"
  then have "of_nat (unat w - 1) = (of_nat (unat w) - of_nat 1 :: 32 word)"
    by (intro of_nat_diff) simp
  with h show ?thesis by (simp add: unat_gt_0)
qed

lemma Contains_nat:
  "canon4 p \<Longrightarrow> n < 4294967296 \<Longrightarrow>
     Contains p (V4 (of_nat n)) \<longleftrightarrow> plow p \<le> n \<and> n < plow p + psize p"
  by (simp add: Contains_interval unat_of_nat_small)

text \<open>From the second prefix on, the loop takes the first host of the first prefix that has one.\<close>

lemma alloc_pick_rest:
  assumes "list_all canon4 ps" "list_all (\<lambda>p. plow p + psize p < 4294967296) ps"
  shows "alloc_pick False ip ps =
     (case find (\<lambda>p. 1 < psize p) ps of None \<Rightarrow> (if ps = [] then ip else NoAddr)
      | Some p \<Rightarrow> V4 (of_nat (Suc (plow p))))"
  using assms
proof (induction ps arbitrary: ip)
  case (Cons p ps)
  then have p: "canon4 p" "plow p + psize p < 4294967296" by auto
  have s: "Suc (plow p) < 4294967296"
    using p(2) psize_pos [of p] by linarith
  have nx: "Next (pfx_addr (Masked p)) = V4 (of_nat (Suc (plow p)))"
    using p(1) s plow_lt [of p] by (simp add: canon4_Masked canon4_base Next_V4 unat_of_nat_small del: Next.simps)
  have ct: "Contains p (V4 (of_nat (Suc (plow p)))) \<longleftrightarrow> 1 < psize p"
    by (simp only: Contains_nat [OF p(1) s]) auto
  have ne: "V4 (of_nat (Suc (plow p))) \<noteq> pfx_addr (Masked p)"
  proof
    assume "V4 (of_nat (Suc (plow p))) = pfx_addr (Masked p)"
    then have "unat (of_nat (Suc (plow p)) :: 32 word) = unat (of_nat (plow p) :: 32 word)"
      using p(1) by (simp add: canon4_Masked canon4_base)
    then show False using s plow_lt [of p] by (simp only: unat_of_nat_small)
  qed
  show ?case
  proof (cases "1 < psize p")
    case True
    then show ?thesis using ct ne by (simp add: nx Let_def)
  next
    case False
    have "alloc_pick False NoAddr ps = (case find (\<lambda>p. 1 < psize p) ps of None \<Rightarrow> NoAddr
      | Some p \<Rightarrow> V4 (of_nat (Suc (plow p))))"
      using Cons by (simp split: option.splits)
    with False ct show ?thesis by (simp add: nx Let_def split: option.splits)
  qed
qed simp

lemma alloc_start_hit:
  assumes "i < length ps"
    and "\<forall>j<i. \<not> Contains (ps ! j) ip \<and> \<not> Contains (ps ! j) (Prev ip)"
    and "Contains (ps ! i) ip \<or> IsValid (Prev ip) \<and> Contains (ps ! i) (Prev ip)"
  shows "alloc_start ip k ps = (if Contains (ps ! i) ip then k + i else k + i + 1)"
  using assms
proof (induction ps arbitrary: i k)
  case (Cons p ps)
  show ?case
  proof (cases i)
    case 0
    with Cons.prems show ?thesis by auto
  next
    case (Suc i')
    then have "\<not> Contains p ip \<and> \<not> Contains p (Prev ip)" using Cons.prems(2) by force
    moreover have "\<forall>j<i'. \<not> Contains (ps ! j) ip \<and> \<not> Contains (ps ! j) (Prev ip)"
      using Cons.prems(2) Suc by force
    ultimately show ?thesis
      using Cons.IH [of i' "k + 1"] Cons.prems(1,3) Suc by simp
  qed
qed simp

text \<open>
  The cursor of a pool against the addresses already handed out: it stands just behind some
  address of range \<open>i\<close>, and exactly the hosts of the earlier ranges and the hosts below it in
  this one are used.
\<close>

definition hosts_below :: "prefix list \<Rightarrow> nat \<Rightarrow> addr set" where
  "hosts_below ps s = {x. \<exists>j < s. host_of (ps ! j) x}"

definition handed :: "prefix list \<Rightarrow> 32 word \<Rightarrow> nat \<Rightarrow> addr set" where
  "handed ps w i = hosts_below ps i \<union> {x. \<exists>v. x = V4 v \<and> host_of (ps ! i) x \<and> v < w}"

definition cursor_at :: "prefix list \<Rightarrow> addr set \<Rightarrow> 32 word \<Rightarrow> nat \<Rightarrow> bool" where
  "cursor_at ps used w i \<longleftrightarrow>
     i < length ps \<and> plow (ps ! i) < unat w \<and> unat w \<le> plow (ps ! i) + psize (ps ! i) \<and>
     used = handed ps w i"

definition cursor_ok :: "prefix list \<Rightarrow> addr set \<Rightarrow> addr \<Rightarrow> bool" where
  "cursor_ok ps used n \<longleftrightarrow>
     (case n of NoAddr \<Rightarrow> used = {} | V4 w \<Rightarrow> (\<exists>i. cursor_at ps used w i) | V6 _ _ \<Rightarrow> False)"

definition good_pool :: "prefix list \<Rightarrow> bool" where
  "good_pool ps \<longleftrightarrow> wf_ranges ps \<and> separated ps"

lemma wf_ranges_nth_disjoint:
  assumes "wf_ranges ps" "i < length ps" "j < length ps" "Contains (ps ! i) a" "Contains (ps ! j) a"
  shows "i = j"
proof (rule ccontr)
  assume "i \<noteq> j"
  have "canon4 p \<Longrightarrow> Overlaps p p" for p
    by (elim canon4E) (auto simp: Overlaps_def prefix_valid_def)
  moreover have "disjoint_ranges ps \<Longrightarrow> i < j \<Longrightarrow> j < length ps \<Longrightarrow> \<not> Overlaps (ps ! j) (ps ! i)" for i j
    by (induction ps arbitrary: i j) (auto simp: list_all_length less_Suc_eq_0_disj nth_Cons split: nat.splits)
  moreover have "ps ! i = ps ! j"
    using wf_ranges_disjoint [OF assms(1)] assms(2-5) by (metis nth_mem)
  ultimately show False
    using assms(1-3) \<open>i \<noteq> j\<close> by (metis linorder_neqE_nat list_all_length wf_ranges_def)
qed

lemma good_poolD:
  assumes "good_pool ps" "p \<in> set ps"
  shows "canon4 p" "plow p + psize p < 4294967296"
    "q \<in> set ps \<Longrightarrow> plow q \<noteq> plow p + psize p"
  using assms by (auto simp: good_pool_def wf_ranges_def separated_def list_all_iff)

lemma host_of_iff:
  assumes "canon4 p"
  shows "host_of p x \<longleftrightarrow> (\<exists>v. x = V4 v \<and> plow p < unat v \<and> unat v < plow p + psize p)"
proof (cases x)
  case (V4 v)
  have "V4 v = pfx_addr (Masked p) \<longleftrightarrow> unat v = plow p"
    unfolding canon4_Masked [OF assms] canon4_base [OF assms]
    using unat_of_nat_small [OF plow_lt, of p] by (metis addr.inject(1) word_unat_eq_iff)
  with V4 show ?thesis by (auto simp: host_of_def Contains_interval [OF assms])
qed (use assms in \<open>auto simp: host_of_def elim!: canon4E\<close>)

lemma no_hosts: "canon4 p \<Longrightarrow> \<not> 1 < psize p \<Longrightarrow> \<not> host_of p x"
  by (auto simp: host_of_iff)

lemma find_Some_first:
  assumes "find P xs = Some x"
  obtains k where "k < length xs" "x = xs ! k" "P x" "\<forall>j<k. \<not> P (xs ! j)"
  using assms by (auto simp: find_Some_iff)

lemma pool_hosts: "{x. pool_host ps x} = hosts_below ps (length ps)"
  by (auto simp: pool_host_def hosts_below_def list_ex_length)

text \<open>Ranges without hosts add nothing.\<close>

lemma hosts_below_skip:
  assumes "good_pool ps" "s \<le> k" "k \<le> length ps" "\<forall>j. s \<le> j \<and> j < k \<longrightarrow> \<not> 1 < psize (ps ! j)"
  shows "hosts_below ps k = hosts_below ps s"
proof -
  have "\<not> host_of (ps ! j) x" if "s \<le> j" "j < k" for j x
    using that assms(3,4) no_hosts good_poolD(1) [OF assms(1)] by (meson less_le_trans nth_mem)
  then show ?thesis using assms(2) by (auto simp: hosts_below_def) (meson leI, meson less_le_trans)
qed

lemma handed_first:
  assumes "canon4 (ps ! k)" "unat v = Suc (plow (ps ! k))"
  shows "handed ps v k = hosts_below ps k"
  using assms by (auto simp: handed_def host_of_iff word_less_nat_alt)

lemma handed_all:
  assumes "canon4 (ps ! k)" "unat w = plow (ps ! k) + psize (ps ! k)"
  shows "handed ps w k = hosts_below ps (Suc k)"
  using assms
  by (auto simp: handed_def hosts_below_def host_of_iff word_less_nat_alt less_Suc_eq)

text \<open>
  What the pick beyond position \<open>s\<close> yields: the first host of the next range that has one, or
  no address when none is left.
\<close>

lemma alloc_pick_later:
  assumes "good_pool ps" "s < length ps"
  obtains v k where "alloc_pick False ip (drop s ps) = V4 v" "s \<le> k" "k < length ps"
      "unat v = Suc (plow (ps ! k))" "1 < psize (ps ! k)" "hosts_below ps k = hosts_below ps s"
  | "alloc_pick False ip (drop s ps) = NoAddr" "{x. pool_host ps x} = hosts_below ps s"
proof -
  have "list_all canon4 (drop s ps)" "list_all (\<lambda>p. plow p + psize p < 4294967296) (drop s ps)"
    using good_poolD(1,2) [OF assms(1)] by (auto simp: list_all_iff dest: in_set_dropD)
  then have pick: "alloc_pick False ip (drop s ps) = (case find (\<lambda>p. 1 < psize p) (drop s ps) of
      None \<Rightarrow> NoAddr | Some p \<Rightarrow> V4 (of_nat (Suc (plow p))))"
    using alloc_pick_rest [of "drop s ps" ip] assms(2) by (simp split: option.splits)
  show ?thesis
  proof (cases "find (\<lambda>p. 1 < psize p) (drop s ps)")
    case None
    then have "\<forall>p\<in>set (drop s ps). \<not> 1 < psize p" by (simp add: find_None_iff)
    moreover have "ps ! j \<in> set (drop s ps)" if "s \<le> j" "j < length ps" for j
      using that by (auto simp: in_set_conv_nth intro!: exI [of _ "j - s"])
    ultimately have "\<forall>j. s \<le> j \<and> j < length ps \<longrightarrow> \<not> 1 < psize (ps ! j)" by blast
    from hosts_below_skip [OF assms(1) less_imp_le [OF assms(2)] le_refl this] None pick that(2)
    show ?thesis by (simp add: pool_hosts)
  next
    case (Some p)
    from Some obtain k where k: "k < length (drop s ps)" "p = drop s ps ! k" "1 < psize p"
      "\<forall>j<k. \<not> 1 < psize (drop s ps ! j)"
      by (rule find_Some_first)
    then have p: "p = ps ! (s + k)" "s + k < length ps" by auto
    then have "p \<in> set ps" by simp
    then have sm: "Suc (plow p) < 4294967296"
      using good_poolD(2) [OF assms(1), of p] k(3) by linarith
    have "\<not> 1 < psize (ps ! j)" if "s \<le> j" "j < s + k" for j
      using k(4) [rule_format, of "j - s"] that p(2) by auto
    then have "hosts_below ps (s + k) = hosts_below ps s"
      using hosts_below_skip [OF assms(1), of s "s + k"] p(2) by simp
    with that(1) [of "of_nat (Suc (plow p))" "s + k"] p k(3) sm pick Some show ?thesis
      by (simp only: unat_of_nat_small option.case le_add1)
  qed
qed

lemma place_address:
  assumes "good_pool ps" "k < length ps" "plow (ps ! k) < unat v" "unat v < plow (ps ! k) + psize (ps ! k)"
    and "used = handed ps v k"
  shows "pool_host ps (V4 v) \<and> V4 v \<notin> used \<and> cursor_ok ps (insert (V4 v) used) (Next (V4 v))"
proof -
  have mem: "ps ! k \<in> set ps" using assms(2) by simp
  note p = good_poolD(1,2) [OF assms(1) mem]
  have h: "host_of (ps ! k) (V4 v)" using assms(3,4) by (simp add: host_of_iff [OF p(1)])
  with mem have host: "pool_host ps (V4 v)" by (auto simp: pool_host_def list_ex_iff)
  have fresh: "V4 v \<notin> used"
  proof
    assume "V4 v \<in> used"
    then obtain j where "j < k" "Contains (ps ! j) (V4 v)"
      by (auto simp: assms(5) handed_def hosts_below_def host_of_def)
    with h assms(1,2) wf_ranges_nth_disjoint [of ps j k "V4 v"] show False
      by (auto simp: good_pool_def host_of_def)
  qed
  have s: "Suc (unat v) < 4294967296" using assms(4) p(2) by linarith
  let ?w = "of_nat (Suc (unat v)) :: 32 word"
  have w: "unat ?w = Suc (unat v)" using s by (rule unat_of_nat_small)
  have lt: "u < ?w \<longleftrightarrow> u < v \<or> u = v" for u
    unfolding word_less_nat_alt w by (auto simp: less_Suc_eq word_unat_eq_iff)
  have "insert (V4 v) used = handed ps ?w k"
    unfolding assms(5) handed_def lt using h by auto
  then have "cursor_at ps (insert (V4 v) used) ?w k"
    unfolding cursor_at_def w using assms(2-4) by auto
  then have "cursor_ok ps (insert (V4 v) used) (Next (V4 v))"
    unfolding Next_V4 [OF s] cursor_ok_def by auto
  with host fresh show ?thesis by blast
qed

lemma cursor_elsewhere:
  assumes "good_pool ps" "cursor_at ps used w i"
  shows "Prev (V4 w) = V4 (of_nat (unat w - 1))" "Contains (ps ! i) (Prev (V4 w))"
    "j < length ps \<Longrightarrow> j \<noteq> i \<Longrightarrow> \<not> Contains (ps ! j) (V4 w) \<and> \<not> Contains (ps ! j) (Prev (V4 w))"
proof -
  have i: "i < length ps" "plow (ps ! i) < unat w" "unat w \<le> plow (ps ! i) + psize (ps ! i)"
    using assms(2) by (auto simp: cursor_at_def)
  then have "ps ! i \<in> set ps" by simp
  note p = good_poolD [OF assms(1) this]
  show pv: "Prev (V4 w) = V4 (of_nat (unat w - 1))" using i(2) by (intro Prev_V4) simp
  have lt: "unat w - 1 < 4294967296" using unat_lt_32 [of w] by linarith
  show ci: "Contains (ps ! i) (Prev (V4 w))"
    unfolding pv Contains_nat [OF p(1) lt] using i by linarith
  assume j: "j < length ps" "j \<noteq> i"
  then have mem: "ps ! j \<in> set ps" by simp
  note q = good_poolD(1) [OF assms(1) mem]
  have np: "\<not> Contains (ps ! j) (Prev (V4 w))"
    using ci wf_ranges_nth_disjoint [of ps j i] assms(1) i(1) j by (auto simp: good_pool_def)
  moreover have "\<not> Contains (ps ! j) (V4 w)"
  proof
    assume c: "Contains (ps ! j) (V4 w)"
    then have "plow (ps ! j) \<le> unat w" "unat w < plow (ps ! j) + psize (ps ! j)"
      by (simp_all only: Contains_interval [OF q])
    moreover have "\<not> (plow (ps ! j) \<le> unat w - 1 \<and> unat w - 1 < plow (ps ! j) + psize (ps ! j))"
      using np unfolding pv Contains_nat [OF q lt] .
    ultimately have jw: "plow (ps ! j) = unat w" by linarith
    with p(3) [OF mem] i(2,3) have "unat w < plow (ps ! i) + psize (ps ! i)" by linarith
    with i(2) have "Contains (ps ! i) (V4 w)" unfolding Contains_interval [OF p(1)] by linarith
    with c wf_ranges_nth_disjoint [of ps j i] assms(1) i(1) j show False by (auto simp: good_pool_def)
  qed
  ultimately show "\<not> Contains (ps ! j) (V4 w) \<and> \<not> Contains (ps ! j) (Prev (V4 w))" by blast
qed

lemma alloc_pick_not_contained:
  "\<not> Contains p ip \<Longrightarrow> alloc_pick True ip (p # ps) = alloc_pick False ip (p # ps)"
  by simp

lemma alloc_pick_first:
  "alloc_pick True (Next (pfx_addr (Masked p))) (p # ps) = alloc_pick False ip (p # ps)"
  by simp

text \<open>What one allocation from a pool must do with the addresses used so far.\<close>

definition next_spec :: "prefix list \<Rightarrow> addr set \<Rightarrow> addr option \<Rightarrow> bool" where
  "next_spec ps used r \<longleftrightarrow>
     (case r of
        None \<Rightarrow> used = {x. pool_host ps x}
      | Some ip \<Rightarrow> pool_host ps ip \<and> ip \<notin> used \<and> cursor_ok ps (insert ip used) (Next ip))"

lemma alloc_pick_spec:
  assumes "good_pool ps" "s < length ps" "used = hosts_below ps s"
  shows "next_spec ps used
    (let r = alloc_pick False n (drop s ps) in if \<not> IsValid r then None else Some r)"
  using assms(1,2)
proof (cases rule: alloc_pick_later [where ip = n])
  case (1 v k)
  have "canon4 (ps ! k)" using good_poolD(1) [OF assms(1)] 1(3) by simp
  with 1(4,6) assms(3) have "used = handed ps v k" by (simp add: handed_first)
  with place_address [OF assms(1) 1(3), of v used] 1 show ?thesis by (simp add: next_spec_def IsValid_def)
qed (simp add: next_spec_def IsValid_def assms(3))

text \<open>
  The heart of \<open>Allocate\<close>: the next address is a host of the pool that was never used, and
  there is none only when every host of the pool is used.
\<close>

lemma alloc_next_spec:
  assumes "good_pool ps" "cursor_ok ps used n"
  shows "next_spec ps used (alloc_next n ps)"
proof (cases n)
  case NoAddr
  with assms(2) have u: "used = hosts_below ps 0" by (simp add: cursor_ok_def hosts_below_def)
  obtain p qs where ps: "ps = p # qs" using assms(1) by (cases ps) (auto simp: good_pool_def wf_ranges_def)
  have "alloc_next n ps =
      (let r = alloc_pick False NoAddr (drop 0 ps) in if \<not> IsValid r then None else Some r)"
    using alloc_pick_first [of p qs NoAddr] NoAddr ps
    by (simp add: alloc_next_def IsValid_def Let_def del: alloc_pick.simps Masked.simps)
  with alloc_pick_spec [OF assms(1) _ u, of NoAddr] ps show ?thesis by simp
next
  case (V4 w)
  with assms(2) obtain i where i: "cursor_at ps used w i" by (auto simp: cursor_ok_def)
  note e = cursor_elsewhere [OF assms(1) i]
  have il: "i < length ps" and used: "used = handed ps w i" using i by (simp_all add: cursor_at_def)
  have canon: "canon4 (ps ! i)" using good_poolD(1) [OF assms(1)] il by simp
  have st: "alloc_start n 0 ps = (if Contains (ps ! i) n then i else i + 1)"
    using alloc_start_hit [OF il, of n 0] e V4 il by (auto simp: IsValid_def)
  show ?thesis
  proof (cases "Contains (ps ! i) n")
    case True
    have b: "plow (ps ! i) < unat w" "unat w < plow (ps ! i) + psize (ps ! i)"
      using i True V4 Contains_interval [OF canon] by (auto simp: cursor_at_def)
    then have "n \<noteq> pfx_addr (Masked (ps ! i))"
      using canon V4 by (auto simp: canon4_Masked canon4_base unat_of_nat_small plow_lt)
    then have "alloc_next n ps = Some n"
      using st True V4 il
      by (auto simp: alloc_next_def IsValid_def Let_def Cons_nth_drop_Suc [symmetric])
    with V4 place_address [OF assms(1) il b used] show ?thesis by (simp add: next_spec_def)
  next
    case False
    then have top: "unat w = plow (ps ! i) + psize (ps ! i)"
      using i V4 Contains_interval [OF canon] by (auto simp: cursor_at_def)
    have u: "used = hosts_below ps (i + 1)" using handed_all [OF canon top] used by simp
    show ?thesis
    proof (cases "i + 1 < length ps")
      case l: True
      have "\<not> Contains (ps ! (i + 1)) n" using e(3) [OF l] V4 by simp
      then have "alloc_pick True n (drop (i + 1) ps) = alloc_pick False n (drop (i + 1) ps)"
        using l alloc_pick_not_contained by (metis Cons_nth_drop_Suc)
      with st V4 False l have "alloc_next n ps =
          (let r = alloc_pick False n (drop (i + 1) ps) in if \<not> IsValid r then None else Some r)"
        by (auto simp: alloc_next_def IsValid_def Let_def)
      with alloc_pick_spec [OF assms(1) l u, of n] show ?thesis by simp
    next
      case False
      with il have "i + 1 = length ps" by simp
      with st V4 \<open>\<not> Contains (ps ! i) n\<close> have "alloc_next n ps = None"
        by (simp add: alloc_next_def IsValid_def)
      with u \<open>i + 1 = length ps\<close> show ?thesis by (simp add: next_spec_def pool_hosts)
    qed
  qed
qed (use assms(2) in \<open>simp add: cursor_ok_def\<close>)

text \<open>The cursor of a pool only moves up: remembering an address raises it to at least the next one.\<close>

lemma bump_next_max:
  "next_of (bump_next a gateway ip) h = (if h = gateway then max (next_of a gateway) (Next ip) else next_of a h)"
proof -
  have "max x y = (if \<not> IsValid x \<or> Less x y then y else x)" for x y :: addr
    by (cases "x = NoAddr") (auto simp: max_def less_eq_addr_def IsValid_def)
  then show ?thesis by (simp add: bump_next_def next_of_def Let_def)
qed

lemma RememberUntil_cursor: "next_of a h \<le> next_of (RememberUntil a gateway domain ip expiry) h"
proof -
  have "next_of a h \<le> next_of (bump_next b gateway ip) h" if "nextIP b = nextIP a" for b
    using that by (simp add: bump_next_max) (simp add: next_of_def)
  then show ?thesis by (simp add: RememberUntil_def Let_def)
qed

section \<open>The allocator on several pools\<close>

definition disjoint_pools :: "prefix list list \<Rightarrow> bool" where
  "disjoint_pools R \<longleftrightarrow>
     list_all (\<lambda>ps. list_all (\<lambda>qs. ps = qs \<or>
       list_all (\<lambda>p. list_all (\<lambda>q. \<not> Overlaps p q) qs) ps) R) R"

definition pools_ok :: "prefix list list \<Rightarrow> bool" where
  "pools_ok R \<longleftrightarrow> list_all good_pool R \<and> disjoint_pools R"

definition pool_used :: "Allocator \<Rightarrow> prefix list \<Rightarrow> addr set" where
  "pool_used a ps = {ip. \<exists>m. byIP a ip = Some m \<and> map_gateway m = rangeKey ps}"

definition mem_inv :: "prefix list list \<Rightarrow> Allocator \<Rightarrow> bool" where
  "mem_inv R a \<longleftrightarrow>
     alloc_wf a \<and>
     (\<forall>ip m. byIP a ip = Some m \<longrightarrow> (\<exists>ps\<in>set R. map_gateway m = rangeKey ps \<and> pool_host ps ip)) \<and>
     (\<forall>ps\<in>set R. cursor_ok ps (pool_used a ps) (next_of a (rangeKey ps)))"

lemma mem_inv_ipD:
  "mem_inv R a \<Longrightarrow> byIP a ip = Some m \<Longrightarrow>
     \<exists>ps\<in>set R. map_gateway m = rangeKey ps \<and> pool_host ps ip"
  unfolding mem_inv_def by blast

lemma mem_inv_wf: "mem_inv R a \<Longrightarrow> alloc_wf a"
  unfolding mem_inv_def by blast

lemma mem_inv_cursor:
  "mem_inv R a \<Longrightarrow> ps \<in> set R \<Longrightarrow> cursor_ok ps (pool_used a ps) (next_of a (rangeKey ps))"
  unfolding mem_inv_def by blast

lemma pools_okD:
  assumes "pools_ok R" "ps \<in> set R"
  shows "good_pool ps" "wf_ranges ps" "CHR 0x00 \<notin> set (rangeKey ps)"
  using assms rangeKey_no_nul
  by (auto simp: pools_ok_def list_all_iff good_pool_def wf_ranges_def)

lemma pools_ok_disjoint:
  assumes "pools_ok R" "ps \<in> set R" "qs \<in> set R" "pool_host ps ip" "pool_host qs ip"
  shows "ps = qs"
proof (rule ccontr)
  assume ne: "ps \<noteq> qs"
  from assms(4,5) obtain p q where pq: "p \<in> set ps" "Contains p ip" "q \<in> set qs" "Contains q ip"
    by (auto simp: pool_host_def host_of_def list_ex_iff)
  moreover have "canon4 p" "canon4 q"
    using pools_okD(1) [OF assms(1)] assms(2,3) pq good_poolD(1) by blast+
  moreover have "\<not> Overlaps p q"
    using assms(1-3) ne pq unfolding pools_ok_def disjoint_pools_def list_all_iff by blast
  ultimately show False using Overlaps_common by blast
qed

lemma pools_ok_rangeKey:
  assumes "pools_ok R" "ps \<in> set R" "qs \<in> set R"
  shows "rangeKey ps = rangeKey qs \<longleftrightarrow> ps = qs"
  using pools_okD(2) [OF assms(1)] assms(2,3) rangeKey_inject by (auto simp: wf_ranges_def)

lemma mem_inv_new: "mem_inv R NewAllocator"
  by (simp add: mem_inv_def alloc_wf_new)
    (simp add: NewAllocator_def cursor_ok_def pool_used_def next_of_def)

lemma mem_inv_key:
  assumes "pools_ok R" "mem_inv R a" "ps \<in> set R" "byKey a (alloc_key (rangeKey ps) d) = Some ip"
  shows "byIP a ip = Some \<lparr>map_gateway = rangeKey ps, map_domain = d\<rparr> \<and> pool_host ps ip"
proof -
  obtain m where m: "byIP a ip = Some m" "mapping_key m = alloc_key (rangeKey ps) d"
    using alloc_wf_keyD [OF mem_inv_wf [OF assms(2)] assms(4)] by blast
  then obtain qs where qs: "qs \<in> set R" "map_gateway m = rangeKey qs" "pool_host qs ip"
    using mem_inv_ipD [OF assms(2)] by blast
  then have "alloc_key (rangeKey qs) (map_domain m) = alloc_key (rangeKey ps) d"
    using m(2) by (simp add: mapping_key_def)
  then have "rangeKey qs = rangeKey ps" "map_domain m = d"
    using alloc_key_inject pools_okD(3) [OF assms(1)] qs(1) assms(3) by blast+
  moreover from this have "qs = ps" using pools_ok_rangeKey [OF assms(1) qs(1) assms(3)] by blast
  ultimately show ?thesis using m(1) qs by (cases m) auto
qed

lemma Allocate_fresh_inv:
  assumes R: "pools_ok R" and inv: "mem_inv R a" and ps: "ps \<in> set R"
    and key: "byKey a (alloc_key (rangeKey ps) d) = None"
    and nxt: "alloc_next (next_of a (rangeKey ps)) ps = Some ip"
    and b: "b = a\<lparr>byKey := (byKey a)(alloc_key (rangeKey ps) d \<mapsto> ip),
        byIP := (byIP a)(ip \<mapsto> \<lparr>map_gateway = rangeKey ps, map_domain = d\<rparr>),
        nextIP := (nextIP a)(rangeKey ps \<mapsto> Next ip)\<rparr>"
  shows "mem_inv R b \<and> pool_host ps ip \<and> byIP a ip = None"
proof -
  have n: "pool_host ps ip" "ip \<notin> pool_used a ps"
    "cursor_ok ps (insert ip (pool_used a ps)) (Next ip)"
    using alloc_next_spec [OF pools_okD(1) [OF R ps] mem_inv_cursor [OF inv ps]]
    by (simp_all add: nxt next_spec_def)
  have none: "byIP a ip = None"
  proof (rule ccontr)
    assume "byIP a ip \<noteq> None"
    then obtain m qs where m: "byIP a ip = Some m" "qs \<in> set R" "map_gateway m = rangeKey qs" "pool_host qs ip"
      using mem_inv_ipD [OF inv] by blast
    moreover from this have "qs = ps" using pools_ok_disjoint [OF R _ ps] n(1) by blast
    ultimately show False using n(2) by (auto simp: pool_used_def)
  qed
  have used: "pool_used b qs = (if qs = ps then insert ip (pool_used a ps) else pool_used a qs)"
    if "qs \<in> set R" for qs
    using none pools_ok_rangeKey [OF R that ps] by (auto simp: pool_used_def b)
  have "cursor_ok qs (pool_used b qs) (next_of b (rangeKey qs))" if q: "qs \<in> set R" for qs
  proof (cases "qs = ps")
    case True
    then show ?thesis using used [OF q] n(3) by (simp add: next_of_def b)
  next
    case False
    then have "rangeKey qs \<noteq> rangeKey ps" using pools_ok_rangeKey [OF R q ps] by blast
    with False used [OF q] inv q show ?thesis by (simp add: next_of_def b mem_inv_def)
  qed
  moreover have "alloc_wf b"
    by (rule alloc_wf_insert [OF mem_inv_wf [OF inv] key none]) (simp_all add: b)
  moreover have "\<exists>ps\<in>set R. map_gateway m = rangeKey ps \<and> pool_host ps x" if "byIP b x = Some m" for x m
  proof (cases "x = ip")
    case True
    with that n(1) ps show ?thesis by (auto simp: b)
  next
    case False
    with that have "byIP a x = Some m" by (simp add: b)
    from mem_inv_ipD [OF inv this] show ?thesis .
  qed
  ultimately show ?thesis using n(1) none unfolding mem_inv_def by blast
qed

lemma Allocate_ok:
  assumes "pools_ok R" "mem_inv R a" "ps \<in> set R" "Allocate a (rangeKey ps) ps d = (Inr ip, b)"
  shows "mem_inv R b \<and> pool_host ps ip \<and> LookupKey b (rangeKey ps) d = Some ip \<and>
    Lookup b ip = Some \<lparr>map_gateway = rangeKey ps, map_domain = d\<rparr> \<and>
    (\<forall>x m. Lookup a x = Some m \<longrightarrow> Lookup b x = Some m)"
proof (cases "byKey a (alloc_key (rangeKey ps) d)")
  case (Some x)
  with assms(4) have "x = ip" "b = a" by (auto simp: Allocate_def)
  with Some mem_inv_key [OF assms(1-3) Some] assms(2) show ?thesis by (simp add: LookupKey_def Lookup_def)
next
  case None
  with assms(4) have nxt: "alloc_next (next_of a (rangeKey ps)) ps = Some ip"
    and b: "b = a\<lparr>byKey := (byKey a)(alloc_key (rangeKey ps) d \<mapsto> ip),
        byIP := (byIP a)(ip \<mapsto> \<lparr>map_gateway = rangeKey ps, map_domain = d\<rparr>),
        nextIP := (nextIP a)(rangeKey ps \<mapsto> Next ip)\<rparr>"
    by (auto simp: Allocate_def split: option.splits)
  from Allocate_fresh_inv [OF assms(1-3) None nxt b] show ?thesis
    by (auto simp: b Lookup_def LookupKey_def)
qed

lemma Allocate_error: "Allocate a g ps d = (Inl e, b) \<Longrightarrow> b = a"
  by (auto simp: Allocate_def Let_def split: option.splits)

lemma Allocate_frame:
  assumes "pools_ok R" "mem_inv R a" "ps \<in> set R" "Allocate a (rangeKey ps) ps d = (Inr ip, b)"
  shows "(Lookup a ip = None \<or> LookupKey a (rangeKey ps) d = Some ip \<and> b = a) \<and>
    (\<forall>x. x \<noteq> ip \<longrightarrow> Lookup b x = Lookup a x)"
proof (cases "byKey a (alloc_key (rangeKey ps) d)")
  case None
  then have nxt: "alloc_next (next_of a (rangeKey ps)) ps = Some ip"
    using assms(4) by (auto simp: Allocate_def split: option.splits)
  with None assms(4) Allocate_fresh_inv [OF assms(1-3) None nxt refl] show ?thesis
    by (auto simp: Allocate_def Lookup_def)
qed (use assms(4) in \<open>auto simp: Allocate_def LookupKey_def\<close>)

lemma Allocate_exhausted:
  assumes "pools_ok R" "mem_inv R a" "ps \<in> set R" "Allocate a (rangeKey ps) ps d = (Inl e, b)"
  shows "pool_used a ps = {x. pool_host ps x}"
proof -
  have "alloc_next (next_of a (rangeKey ps)) ps = None"
    using assms(4) by (auto simp: Allocate_def Let_def split: option.splits)
  then show ?thesis
    using alloc_next_spec [OF pools_okD(1) [OF assms(1,3)] mem_inv_cursor [OF assms(2,3)]]
    by (simp add: next_spec_def)
qed

text \<open>A sequence of requests, each for a name in one of the pools.\<close>

fun serve_requests :: "(prefix list \<times> string) list \<Rightarrow> Allocator \<Rightarrow> Allocator" where
  "serve_requests [] a = a"
| "serve_requests ((ps, d) # reqs) a = serve_requests reqs (snd (Allocate a (rangeKey ps) ps d))"

lemma serve_requests_inv:
  "pools_ok R \<Longrightarrow> mem_inv R a \<Longrightarrow> list_all (\<lambda>r. fst r \<in> set R) reqs \<Longrightarrow>
     mem_inv R (serve_requests reqs a)"
proof (induction reqs a rule: serve_requests.induct)
  case (2 ps d reqs a)
  obtain r b where r: "Allocate a (rangeKey ps) ps d = (r, b)" by (cases "Allocate a (rangeKey ps) ps d")
  then have "mem_inv R b"
    using 2 Allocate_ok [of R a ps d _ b] Allocate_error [of a "rangeKey ps" ps d _ b]
    by (cases r) auto
  with 2 r show ?case by simp
qed simp

section \<open>Loading what was saved\<close>

definition restricts :: "Allocator \<Rightarrow> addr set \<Rightarrow> Allocator \<Rightarrow> bool" where
  "restricts a D c \<longleftrightarrow>
     byIP c = (byIP a) |` D \<and>
     byKey c = (\<lambda>k. case byKey a k of None \<Rightarrow> None | Some ip \<Rightarrow> if ip \<in> D then Some ip else None)"

lemma restricts_load_row:
  assumes "alloc_wf a" "byIP a ip = Some m" "restricts a D c"
  shows "restricts a (insert ip D) (load_row c (map_gateway m) (map_domain m) ip)"
proof -
  have k: "byKey a (mapping_key m) = Some ip" using alloc_wf_ipD [OF assms(1,2)] .
  have "(byKey c)(mapping_key m \<mapsto> ip) =
      (\<lambda>k. case byKey a k of None \<Rightarrow> None | Some x \<Rightarrow> if x \<in> insert ip D then Some x else None)"
  proof
    fix j
    show "((byKey c)(mapping_key m \<mapsto> ip)) j =
        (case byKey a j of None \<Rightarrow> None | Some x \<Rightarrow> if x \<in> insert ip D then Some x else None)"
    proof (cases "j = mapping_key m")
      case False
      have "byKey a j \<noteq> Some ip"
        using alloc_wf_keyD [OF assms(1), of j ip] assms(2) False by auto
      with False assms(3) show ?thesis by (auto simp: restricts_def split: option.splits)
    qed (simp add: k)
  qed
  with assms(2,3) show ?thesis
    by (auto simp: restricts_def load_row_def mapping_key_def restrict_map_def)
qed

lemma load_rows_snapshot:
  assumes "alloc_wf a" "restricts a D c" "\<forall>ip\<in>set order. \<exists>w m. ip = V4 w \<and> byIP a ip = Some m"
  shows "\<exists>b. load_rows (snapshot order a) c = (True, b) \<and> restricts a (D \<union> set order) b"
  using assms(2,3)
proof (induction order arbitrary: c D)
  case (Cons ip order)
  then obtain w m where ip: "ip = V4 w" "byIP a ip = Some m" by auto
  have "restricts a (insert ip D) (load_row c (map_gateway m) (map_domain m) ip)"
    by (rule restricts_load_row [OF assms(1) ip(2) Cons.prems(1)])
  from Cons.IH [OF this] Cons.prems(2) ip show ?case
    by (auto simp: snapshot_def List.map_filter_def)
qed (simp add: snapshot_def List.map_filter_def)

lemma row_json_inverse: "row_of_json (row_json r) = Some r"
  by (simp add: row_json_def row_of_json_def field_string_def members_def EqualFoldASCII_def
      upper_char_def is_lower_def code_def)

lemma rows_json_inverse: "as_list row_of_json (JArr (map row_json rows)) = Some rows"
  by (simp add: as_list_def those_map_Some_iff list_all2_conv_all_nth row_json_inverse)

section \<open>Properties of the allocator\<close>

definition example_pools :: "prefix list list" where
  "example_pools = [[Pfx (V4 0x0A400000) 30], [Pfx (V4 0x0A410000) 30, Pfx (V4 0x0A420000) 30]]"

lemma example_pools_ok: "pools_ok example_pools"
proof -
  have "list_all wf_ranges example_pools" "disjoint_pools example_pools" by code_simp+
  moreover have "list_all separated example_pools"
    by (simp add: example_pools_def separated_def plow_def psize_def)
  ultimately show ?thesis by (simp add: pools_ok_def good_pool_def list_all_iff)
qed

text \<open>
  C8: Serving is sound and complete on separated pools. After any sequence of requests to a
  fresh allocator, \<open>Allocate\<close> either answers with a host address of the requested pool that
  was unmapped or already this name's, afterwards maps name to address and address to name and
  leaves every other address alone; or it fails, and then it changed nothing and every host
  address of the pool is mapped. No address is skipped and none is shared.
\<close>

theorem Allocate_serves:
  assumes "pools_ok R" and "list_all (\<lambda>r. fst r \<in> set R) reqs" and "ps \<in> set R"
    and "a = serve_requests reqs NewAllocator"
  shows "case Allocate a (rangeKey ps) ps d of
      (Inr ip, b) \<Rightarrow>
        pool_host ps ip \<and>
        (Lookup a ip = None \<or> LookupKey a (rangeKey ps) d = Some ip \<and> b = a) \<and>
        LookupKey b (rangeKey ps) d = Some ip \<and>
        Lookup b ip = Some \<lparr>map_gateway = rangeKey ps, map_domain = d\<rparr> \<and>
        (\<forall>x. x \<noteq> ip \<longrightarrow> Lookup b x = Lookup a x)
    | (Inl e, b) \<Rightarrow>
        b = a \<and> (\<forall>x. pool_host ps x \<longrightarrow> (\<exists>m. Lookup a x = Some m \<and> map_gateway m = rangeKey ps))"
proof -
  have inv: "mem_inv R a" unfolding assms(4) by (rule serve_requests_inv [OF assms(1) mem_inv_new assms(2)])
  obtain r b where r: "Allocate a (rangeKey ps) ps d = (r, b)" by (cases "Allocate a (rangeKey ps) ps d")
  show ?thesis
  proof (cases r)
    case (Inl e)
    with r Allocate_error [of a "rangeKey ps" ps d e b] Allocate_exhausted [OF assms(1) inv assms(3), of d e b]
    show ?thesis by (auto simp: pool_used_def Lookup_def)
  next
    case (Inr ip)
    with r Allocate_ok [OF assms(1) inv assms(3), of d ip b]
      Allocate_frame [OF assms(1) inv assms(3), of d ip b]
    show ?thesis by simp
  qed
qed

theorem Allocate_serves_witness:
  "pools_ok example_pools \<and>
   (let a = serve_requests [([Pfx (V4 0x0A400000) 30], ''a''), ([Pfx (V4 0x0A400000) 30], ''b''),
                            ([Pfx (V4 0x0A400000) 30], ''c'')] NewAllocator in
    Lookup a (V4 0x0A400003) \<noteq> None)"
proof -
  let ?ps = "[Pfx (V4 0x0A400000) 30]"
  let ?reqs = "[(?ps, ''a''), (?ps, ''b''), (?ps, ''c'')]"
  have l: "list_all (\<lambda>r. fst r \<in> set example_pools) ?reqs" and m: "?ps \<in> set example_pools"
    by (simp_all add: example_pools_def)
  have e: "case Allocate (serve_requests ?reqs NewAllocator) (rangeKey ?ps) ?ps ''d'' of
      (Inl e, b) \<Rightarrow> True | (Inr ip, b) \<Rightarrow> False" by code_simp
  have h: "pool_host ?ps (V4 0x0A400003)" by code_simp
  show ?thesis
    using Allocate_serves [OF example_pools_ok l m refl, of "''d''"] e h example_pools_ok
    by (force simp: Let_def split: prod.splits sum.splits)
qed

text \<open>
  Names never share an address. Whatever requests were served on separated pools, two
  different names, or the same name in two different pools, never resolve to the same address.
\<close>

theorem Allocate_injective:
  assumes "pools_ok R" and "list_all (\<lambda>r. fst r \<in> set R) reqs" and "ps \<in> set R" and "qs \<in> set R"
    and "a = serve_requests reqs NewAllocator"
    and "LookupKey a (rangeKey ps) d = Some ip" and "LookupKey a (rangeKey qs) e = Some ip"
  shows "ps = qs \<and> d = e"
proof -
  have inv: "mem_inv R a" unfolding assms(5) by (rule serve_requests_inv [OF assms(1) mem_inv_new assms(2)])
  have "rangeKey ps = rangeKey qs \<and> d = e"
    using mem_inv_key [OF assms(1) inv assms(3)] mem_inv_key [OF assms(1) inv assms(4)] assms(6,7)
    by (fastforce simp: LookupKey_def)
  with pools_ok_rangeKey [OF assms(1,3,4)] show ?thesis by blast
qed

theorem Allocate_injective_witness:
  "let a = serve_requests [([Pfx (V4 0x0A400000) 30], ''a''), ([Pfx (V4 0x0A410000) 30, Pfx (V4 0x0A420000) 30], ''a'')]
       NewAllocator in
   LookupKey a (rangeKey [Pfx (V4 0x0A400000) 30]) ''a'' = Some (V4 0x0A400001) \<and>
   LookupKey a (rangeKey [Pfx (V4 0x0A410000) 30, Pfx (V4 0x0A420000) 30]) ''a'' \<noteq> Some (V4 0x0A400001)"
proof -
  let ?ps = "[Pfx (V4 0x0A400000) 30]" and ?qs = "[Pfx (V4 0x0A410000) 30, Pfx (V4 0x0A420000) 30]"
  let ?reqs = "[(?ps, ''a''), (?qs, ''a'')]"
  have l: "list_all (\<lambda>r. fst r \<in> set example_pools) ?reqs" and m: "?ps \<in> set example_pools" "?qs \<in> set example_pools"
    by (simp_all add: example_pools_def)
  have k: "LookupKey (serve_requests ?reqs NewAllocator) (rangeKey ?ps) ''a'' = Some (V4 0x0A400001)" by code_simp
  show ?thesis
    using Allocate_injective [OF example_pools_ok l m refl k, of "''a''"] k by (auto simp: Let_def)
qed

definition serve_names :: "prefix list \<Rightarrow> string list \<Rightarrow> Allocator" where
  "serve_names ps names = serve_requests (map (\<lambda>d. (ps, d)) names) NewAllocator"

text \<open>
  Where the cursor goes wrong. A pool whose lower range follows a touching higher range
  answers the seventh name with the address of the fourth one, which then belongs to two names;
  a pool of two touching ranges in ascending order reports exhaustion although no address of
  the second range was ever used; and a range that ends at the top of the address space wraps
  around and reuses its first address.
\<close>

theorem Allocate_touching_ranges:
  "(let ps = [Pfx (V4 0x0A000004) 30, Pfx (V4 0x0A000000) 30];
        a = serve_names ps [''a'', ''b'', ''c'', ''d'', ''e'', ''f'', ''g''] in
    LookupKey a (rangeKey ps) ''d'' = Some (V4 0x0A000001) \<and>
    LookupKey a (rangeKey ps) ''g'' = Some (V4 0x0A000001)) \<and>
   (let ps = [Pfx (V4 0x0A000000) 30, Pfx (V4 0x0A000004) 30];
        a = serve_names ps [''a'', ''b'', ''c''] in
    fst (Allocate a (rangeKey ps) ps ''d'') = Inl ''synthetic ranges exhausted'' \<and>
    Lookup a (V4 0x0A000005) = None) \<and>
   (let ps = [Pfx (V4 0xFFFFFFFC) 30];
        a = serve_names ps [''a'', ''b'', ''c'', ''d''] in
    LookupKey a (rangeKey ps) ''a'' = LookupKey a (rangeKey ps) ''d'')"
  by (intro conjI) code_simp+

text \<open>The steps the expiring cache takes, in any order and at any times.\<close>

inductive cache_step :: "Allocator \<Rightarrow> Allocator \<Rightarrow> bool" where
  remember: "cache_step a (RememberUntil a g d ip e)"
| live: "cache_step a (snd (LookupLive a ip now))"
| live_key: "cache_step a (snd (LookupKeyLive a g d now))"

inductive_cases cache_stepE: "cache_step a b"

lemma cache_steps_wf: "cache_step\<^sup>*\<^sup>* a b \<Longrightarrow> alloc_wf a \<Longrightarrow> alloc_wf b"
  by (induction rule: rtranclp_induct)
    (auto elim!: cache_stepE simp: RememberUntil_wf LookupLive_wf LookupKeyLive_wf)

text \<open>
  C33: The cache never contradicts itself. After any interleaving of remembering and expiring
  lookups, the address of a name is mapped back to that name, and the name of an address is
  mapped back to that address, for names and range keys without a zero byte.
\<close>

theorem cache_coherent:
  assumes "cache_step\<^sup>*\<^sup>* NewAllocator a"
  shows "(Lookup a ip = Some m \<longrightarrow> LookupKey a (map_gateway m) (map_domain m) = Some ip) \<and>
    (LookupKey a g d = Some ip \<longrightarrow> CHR 0x00 \<notin> set g \<longrightarrow>
       (\<exists>n. Lookup a ip = Some n \<and> (CHR 0x00 \<notin> set (map_gateway n) \<longrightarrow>
          n = \<lparr>map_gateway = g, map_domain = d\<rparr>)))"
proof -
  have wf: "alloc_wf a" by (rule cache_steps_wf [OF assms alloc_wf_new])
  have "\<exists>n. Lookup a ip = Some n \<and> (CHR 0x00 \<notin> set (map_gateway n) \<longrightarrow> n = \<lparr>map_gateway = g, map_domain = d\<rparr>)"
    if "LookupKey a g d = Some ip" "CHR 0x00 \<notin> set g"
  proof -
    obtain n where n: "byIP a ip = Some n" "mapping_key n = alloc_key g d"
      using alloc_wf_keyD [OF wf, of "alloc_key g d" ip] \<open>LookupKey a g d = Some ip\<close> by (auto simp: LookupKey_def)
    then show ?thesis
      using that(2) alloc_key_inject [of "map_gateway n" g "map_domain n" d]
      by (cases n) (auto simp: Lookup_def mapping_key_def)
  qed
  then show ?thesis using alloc_wf_ipD [OF wf] by (auto simp: Lookup_def LookupKey_def mapping_key_def)
qed

theorem cache_coherent_witness:
  "LookupKey (RememberUntil NewAllocator ''g'' ''d'' (V4 1) 5) ''g'' ''d'' = Some (V4 1) \<and>
   Lookup (RememberUntil NewAllocator ''g'' ''d'' (V4 1) 5) (V4 1) =
     Some \<lparr>map_gateway = ''g'', map_domain = ''d''\<rparr>"
proof -
  have s: "cache_step\<^sup>*\<^sup>* NewAllocator (RememberUntil NewAllocator ''g'' ''d'' (V4 1) 5)"
    by (rule r_into_rtranclp) (rule cache_step.remember)
  have l: "Lookup (RememberUntil NewAllocator ''g'' ''d'' (V4 1) 5) (V4 1) =
     Some \<lparr>map_gateway = ''g'', map_domain = ''d''\<rparr>" by code_simp
  then show ?thesis using cache_coherent [OF s, of "V4 1"] by fastforce
qed

text \<open>
  A remembered mapping is served until its expiry and forgotten from then on. For a name
  and an address the cache does not know, \<open>RememberUntil\<close> makes the lookup by name and the
  lookup by address answer at every moment before the expiry (always, for the zero time), and
  from the expiry on a lookup answers nothing and drops both entries; no other name or address
  is affected; and an already known name or address is never re-mapped or re-dated.
\<close>

theorem RememberUntil_lifetime:
  "(if LookupKey a g d = None \<and> Lookup a ip = None
    then let b = RememberUntil a g d ip e; gone = snd (LookupKeyLive b g d now) in
      (if IsZero e \<or> now < e
       then LookupKeyLive b g d now = (Some ip, b) \<and>
            LookupLive b ip now = (Some \<lparr>map_gateway = g, map_domain = d\<rparr>, b)
       else fst (LookupKeyLive b g d now) = None \<and> fst (LookupLive b ip now) = None \<and>
            LookupKey gone g d = None \<and> Lookup gone ip = None) \<and>
      (\<forall>x. x \<noteq> ip \<longrightarrow> fst (LookupLive b x now) = fst (LookupLive a x now) \<and>
            Lookup gone x = Lookup a x) \<and>
      (\<forall>k. k \<noteq> alloc_key g d \<longrightarrow> byKey gone k = byKey a k)
    else RememberUntil a g d ip e = a)"
proof (cases "LookupKey a g d = None \<and> Lookup a ip = None")
  case True
  define b where "b = RememberUntil a g d ip e"
  have k: "byKey a (alloc_key g d) = None" "byIP a ip = None"
    using True by (simp_all add: LookupKey_def Lookup_def)
  then have b: "byIP b = (byIP a)(ip \<mapsto> \<lparr>map_gateway = g, map_domain = d\<rparr>)"
    "byKey b = (byKey a)(alloc_key g d \<mapsto> ip)" "expires b = (expires a)(ip \<mapsto> e)"
    unfolding b_def by (auto intro: RememberUntil_cases [of a g d ip e])
  have x: "expired b ip now \<longleftrightarrow> \<not> (IsZero e \<or> now < e)" by (simp add: expired_def expires_of_def b)
  have o: "x \<noteq> ip \<Longrightarrow> expired b x now \<longleftrightarrow> expired a x now" for x
    by (simp add: b expired_def expires_of_def)
  show ?thesis
    unfolding if_P [OF True] Let_def b_def [symmetric]
    by (auto simp: LookupKeyLive_def LookupKey_def LookupLive_def Lookup_def x o b
        split: option.splits)
qed (auto simp: RememberUntil_def Let_def LookupKey_def Lookup_def)

theorem RememberUntil_lifetime_witness:
  "let b = RememberUntil NewAllocator ''g'' ''d'' (V4 1) 5 in
   LookupKeyLive b ''g'' ''d'' 4 = (Some (V4 1), b) \<and> fst (LookupKeyLive b ''g'' ''d'' 5) = None"
proof -
  have n: "LookupKey NewAllocator ''g'' ''d'' = None \<and> Lookup NewAllocator (V4 1) = None" by code_simp
  have "\<not> IsZero 5" by code_simp
  then show ?thesis
    using RememberUntil_lifetime [of NewAllocator "''g''" "''d''" "V4 1" 5 4]
      RememberUntil_lifetime [of NewAllocator "''g''" "''d''" "V4 1" 5 5]
    unfolding if_P [OF n] Let_def by simp
qed

lemma load_rows_expires: "load_rows rows a = (ok, b) \<Longrightarrow> expires b = expires a"
  by (induction rows a rule: load_rows.induct) (auto simp: load_row_def split: option.splits)

lemma Load_Save_document:
  assumes "alloc_wf a" "set order = {ip. byIP a ip \<noteq> None}" "list_all Is4 order"
  shows "\<exists>b. Load (Document (JArr (map row_json (snapshot order a)))) NewAllocator = (True, b) \<and>
    byIP b = byIP a \<and> byKey b = byKey a \<and> expires b = expires NewAllocator"
proof -
  have "\<forall>ip\<in>set order. \<exists>w m. ip = V4 w \<and> byIP a ip = Some m"
    using assms(2,3) by (auto simp: list_all_iff elim!: Is4.elims)
  moreover have "restricts a {} NewAllocator"
    by (simp add: restricts_def NewAllocator_def fun_eq_iff split: option.splits)
  ultimately obtain b where b: "load_rows (snapshot order a) NewAllocator = (True, b)"
    "restricts a (set order) b"
    using load_rows_snapshot [OF assms(1)] by fastforce
  have "byIP b = byIP a"
    using b(2) assms(2) by (auto simp: restricts_def restrict_map_def fun_eq_iff)
  moreover have "byKey b = byKey a"
    using b(2) assms(2) alloc_wf_keyD [OF assms(1)]
    by (fastforce simp: restricts_def fun_eq_iff split: option.splits)
  ultimately show ?thesis
    using b(1) load_rows_expires [OF b(1)] by (simp add: Load_def rows_json_inverse)
qed

text \<open>
  C34: Saving is atomic and loading inverts it. Whichever call of \<open>Save\<close> fails, the state file
  keeps its old content; when \<open>Save\<close> reports success, loading the file into a fresh allocator
  succeeds and gives back exactly the mappings in both directions, in whatever order the map
  was enumerated (the expiries are not part of the file and come back as never expiring).
\<close>

theorem Save_Load_roundtrip:
  assumes "alloc_wf a" and "set order = {ip. byIP a ip \<noteq> None}" and "list_all Is4 order"
  shows "case Save faults junk order path a fs of (ok, fs') \<Rightarrow>
    if ok then \<exists>b. Load (fs' path) NewAllocator = (True, b) \<and>
      byIP b = byIP a \<and> byKey b = byKey a \<and> expires b = expires NewAllocator
    else fs' path = fs path"
  using Load_Save_document [OF assms] by (simp add: Save_def Let_def)

theorem Save_Load_roundtrip_witness:
  "let a = RememberUntil NewAllocator ''10.64.0.0/30'' ''a.example.com'' (V4 0x0A400001) 7;
       fs = snd (Save \<lparr>mkdir_fails = False, write_fails = False, rename_fails = False\<rparr> NotExist
              [V4 0x0A400001] ''state.json'' a (\<lambda>p. NotExist)) in
   \<exists>b. Load (fs ''state.json'') NewAllocator = (True, b) \<and> byIP b = byIP a"
proof -
  let ?a = "RememberUntil NewAllocator ''10.64.0.0/30'' ''a.example.com'' (V4 0x0A400001) 7"
  have wf: "alloc_wf ?a" by (rule RememberUntil_wf [OF alloc_wf_new])
  have o: "set [V4 0x0A400001] = {ip. byIP ?a ip \<noteq> None}"
    by (auto simp: RememberUntil_def NewAllocator_def Let_def)
  have v: "list_all Is4 [V4 0x0A400001]" by simp
  show ?thesis
    using Save_Load_roundtrip [OF wf o v, where path = "''state.json''" and junk = NotExist and
        faults = "\<lparr>mkdir_fails = False, write_fails = False, rename_fails = False\<rparr>" and
        fs = "\<lambda>p. NotExist"]
    by (auto simp: Save_def Let_def)
qed

end
