(* ===== verification/SqlStore.thy ===== *)
theory SqlStore
  imports Allocation
begin

text \<open>
  The shared allocation registry, \<^verbatim>\<open>SQLStore\<close> of \<^verbatim>\<open>internal/domain/state.go\<close>. The
  table is the list of its rows with the constraints of its \<^verbatim>\<open>CREATE TABLE\<close>, and each SQL
  statement of the source is a function on it. A process does not own the table: before every
  statement it sends, other processes may have run statements of their own, and the statement
  itself may fail with or without having taken effect. Both are spelled out by a script with one
  event per statement, over which the theorems quantify; the empty script is a database nobody
  else touches. The PostgreSQL statements differ from the SQLite ones only in their placeholders
  and in the casts between \<^verbatim>\<open>INET\<close> and text, so one function models both.
\<close>

section \<open>The table and its statements\<close>

record arow =
  r_gateway :: string
  r_domain :: string
  r_ip :: string
  r_expires :: "time option"

type_synonym table = "arow list"

definition key_is :: "string \<Rightarrow> string \<Rightarrow> arow \<Rightarrow> bool" where
  "key_is gateway domain r \<longleftrightarrow> r_gateway r = gateway \<and> r_domain r = domain"

text \<open>\<^verbatim>\<open>expires_at > ?\<close>, which is not true of a NULL.\<close>

definition live_at :: "time \<Rightarrow> arow \<Rightarrow> bool" where
  "live_at now r \<longleftrightarrow> (case r_expires r of None \<Rightarrow> False | Some e \<Rightarrow> now < e)"

text \<open>The statements that change the table, by whichever process they are sent.\<close>

datatype stmt =
    DeleteExpired time
  | InsertIgnore string string string time
  | UpdateExpiry time string string
  | FillNull time

definition conflicts :: "string \<Rightarrow> string \<Rightarrow> string \<Rightarrow> arow \<Rightarrow> bool" where
  "conflicts gateway domain ip r \<longleftrightarrow> key_is gateway domain r \<or> r_ip r = ip"

text \<open>The number of rows a statement affects, and the table after it.\<close>

fun exec :: "stmt \<Rightarrow> table \<Rightarrow> nat \<times> table" where
  "exec (DeleteExpired now) t =
     (length (filter (\<lambda>r. \<not> live_at now r) t), filter (live_at now) t)"
| "exec (InsertIgnore g d ip e) t =
     (if list_ex (conflicts g d ip) t then (0, t)
      else (1, t @ [\<lparr>r_gateway = g, r_domain = d, r_ip = ip, r_expires = Some e\<rparr>]))"
| "exec (UpdateExpiry e g d) t =
     (length (filter (key_is g d) t), map (\<lambda>r. if key_is g d r then r\<lparr>r_expires := Some e\<rparr> else r) t)"
| "exec (FillNull e) t =
     (length (filter (\<lambda>r. r_expires r = None) t),
      map (\<lambda>r. if r_expires r = None then r\<lparr>r_expires := Some e\<rparr> else r) t)"

definition select_key :: "string \<Rightarrow> string \<Rightarrow> time \<Rightarrow> table \<Rightarrow> arow option" where
  "select_key g d now t = find (\<lambda>r. key_is g d r \<and> live_at now r) t"

definition select_ip :: "string \<Rightarrow> time \<Rightarrow> table \<Rightarrow> arow option" where
  "select_ip ip now t = find (\<lambda>r. r_ip r = ip \<and> live_at now r) t"

text \<open>
  One event of the script: what other processes did since this process's last statement, and
  what becomes of the statement: it works, it fails without effect, or its answer is lost.
\<close>

datatype fault = NoFault | FailBefore | FailAfter
datatype event = Event "stmt list" fault

definition exec_all :: "stmt list \<Rightarrow> table \<Rightarrow> table" where
  "exec_all ss t = foldl (\<lambda>t s. snd (exec s t)) t ss"

record store =
  cache :: Allocator
  lastRenewed :: "string \<rightharpoonup> time"
  tab :: table
  script :: "event list"

definition dbError :: string where
  "dbError = ''database error''"

definition next_event :: "store \<Rightarrow> fault \<times> store" where
  "next_event s =
     (case script s of
        [] \<Rightarrow> (NoFault, s)
      | Event others f # es \<Rightarrow> (f, s\<lparr>tab := exec_all others (tab s), script := es\<rparr>))"

text \<open>\<^verbatim>\<open>ExecContext\<close> with \<^verbatim>\<open>RowsAffected\<close>, and \<^verbatim>\<open>QueryRowContext\<close> with \<^verbatim>\<open>Scan\<close>, where no row is \<^term>\<open>None\<close>.\<close>

definition db_exec :: "stmt \<Rightarrow> store \<Rightarrow> nat result \<times> store" where
  "db_exec st s =
     (case next_event s of
        (FailBefore, s') \<Rightarrow> (Inl dbError, s')
      | (FailAfter, s') \<Rightarrow> (Inl dbError, s'\<lparr>tab := snd (exec st (tab s'))\<rparr>)
      | (NoFault, s') \<Rightarrow> (Inr (fst (exec st (tab s'))), s'\<lparr>tab := snd (exec st (tab s'))\<rparr>))"

definition db_query :: "(table \<Rightarrow> 'a option) \<Rightarrow> store \<Rightarrow> 'a option result \<times> store" where
  "db_query q s =
     (case next_event s of
        (NoFault, s') \<Rightarrow> (Inr (q (tab s')), s')
      | (_, s') \<Rightarrow> (Inl dbError, s'))"

section \<open>Renewal\<close>

definition renewalDebounce :: duration where
  "renewalDebounce = 5 * 60 * 1000000000"

definition last_of :: "store \<Rightarrow> string \<Rightarrow> time" where
  "last_of s key = (case lastRenewed s key of None \<Rightarrow> zeroTime | Some t \<Rightarrow> t)"

definition stamp :: "string \<Rightarrow> string \<Rightarrow> time \<Rightarrow> store \<Rightarrow> store" where
  "stamp gateway domain now s = s\<lparr>lastRenewed := (lastRenewed s)(alloc_key gateway domain \<mapsto> now)\<rparr>"

definition error_of :: "'a result \<Rightarrow> string option" where
  "error_of r = (case r of Inl e \<Rightarrow> Some e | Inr _ \<Rightarrow> None)"

definition renew ::
  "string \<Rightarrow> string \<Rightarrow> time \<Rightarrow> duration \<Rightarrow> bool \<Rightarrow> store \<Rightarrow> string option \<times> store" where
  "renew gateway domain now lease force s =
     (let last = last_of s (alloc_key gateway domain) in
      if \<not> force \<and> \<not> IsZero last \<and> now - last < renewalDebounce then (None, s)
      else case db_exec (UpdateExpiry (now + lease) gateway domain) (stamp gateway domain now s) of
             (r, s') \<Rightarrow> (error_of r, s'))"

definition remember :: "string \<Rightarrow> string \<Rightarrow> addr \<Rightarrow> time \<Rightarrow> store \<Rightarrow> store" where
  "remember gateway domain ip expiry s = s\<lparr>cache := RememberUntil (cache s) gateway domain ip expiry\<rparr>"

section \<open>Allocate\<close>

text \<open>
  An answer is an address together with an error, as the Go functions return both. One round of
  the insertion loop: \<^term>\<open>None\<close> is the \<^verbatim>\<open>continue\<close>, anything else returns.
\<close>

type_synonym answer = "addr \<times> string option"

definition insert_one ::
  "string \<Rightarrow> string \<Rightarrow> time \<Rightarrow> duration \<Rightarrow> addr \<Rightarrow> store \<Rightarrow> answer option \<times> store" where
  "insert_one gateway domain now lease ip s =
     (case db_exec (InsertIgnore gateway domain (AddrString ip) (now + lease)) s of
        (Inl e, s1) \<Rightarrow> (Some (NoAddr, Some e), s1)
      | (Inr inserted, s1) \<Rightarrow>
          (case db_query (select_key gateway domain now) s1 of
             (Inl e, s2) \<Rightarrow> (Some (NoAddr, Some e), s2)
           | (Inr None, s2) \<Rightarrow>
               if inserted = 0 then (None, s2) else (Some (NoAddr, Some ''sql: no rows in result set''), s2)
           | (Inr (Some row), s2) \<Rightarrow>
               (case ParseAddr (r_ip row) of
                  None \<Rightarrow> (Some (NoAddr, Some ''invalid address''), s2)
                | Some allocated \<Rightarrow>
                    (Some (allocated, None),
                     stamp gateway domain now (remember gateway domain allocated (now + lease) s2)))))"

text \<open>How many addresses follow: the loop over a prefix ends because the successor of the last address is invalid.\<close>

fun addrs_left :: "addr \<Rightarrow> nat" where
  "addrs_left NoAddr = 0"
| "addrs_left (V4 w) = 2 ^ 32 - unat w"
| "addrs_left (V6 w z) = 2 ^ 128 - unat w"

lemma word_rank_less:
  fixes w :: "'a::len word"
  assumes "w + 1 \<noteq> 0"
  shows "2 ^ LENGTH('a) - unat (w + 1) < 2 ^ LENGTH('a) - unat w"
proof -
  have "unat (w + 1) = Suc (unat w)" using assms by (metis Suc_eq_plus1 add.commute unatSuc)
  moreover have "unat (w + 1) < 2 ^ LENGTH('a)" by (rule unsigned_less)
  ultimately show ?thesis by linarith
qed

lemma word_rank_pos: "0 < 2 ^ LENGTH('a) - unat (w :: 'a::len word)"
  using unsigned_less [of w, where ?'a = nat] by simp

lemma addrs_left_Next: "ip \<noteq> NoAddr \<Longrightarrow> addrs_left (Next ip) < addrs_left ip"
proof (cases ip)
  case (V4 w)
  then show ?thesis using word_rank_less [of w] word_rank_pos [of w] by auto
next
  case (V6 w z)
  then show ?thesis using word_rank_less [of w] word_rank_pos [of w] by auto
qed simp

lemma Contains_NoAddr [simp]: "\<not> Contains p NoAddr"
  by (cases p; cases "pfx_addr p") auto

text \<open>The two nested loops of \<open>Allocate\<close> over the prefixes and their addresses.\<close>

function insert_range ::
  "string \<Rightarrow> string \<Rightarrow> time \<Rightarrow> duration \<Rightarrow> prefix \<Rightarrow> addr \<Rightarrow> store \<Rightarrow> answer option \<times> store" where
  "insert_range gateway domain now lease p ip s =
     (if \<not> Contains p ip then (None, s)
      else case insert_one gateway domain now lease ip s of
             (Some r, s') \<Rightarrow> (Some r, s')
           | (None, s') \<Rightarrow> insert_range gateway domain now lease p (Next ip) s')"
  by pat_completeness auto
termination
  by (relation "measure (\<lambda>(_, _, _, _, _, ip, _). addrs_left ip)")
    (auto intro!: addrs_left_Next)

fun insert_ranges ::
  "string \<Rightarrow> string \<Rightarrow> time \<Rightarrow> duration \<Rightarrow> prefix list \<Rightarrow> store \<Rightarrow> answer \<times> store" where
  "insert_ranges gateway domain now lease [] s = ((NoAddr, Some ''synthetic ranges exhausted''), s)"
| "insert_ranges gateway domain now lease (p # ps) s =
     (case insert_range gateway domain now lease p (Next (pfx_addr (Masked p))) s of
        (Some r, s') \<Rightarrow> (r, s')
      | (None, s') \<Rightarrow> insert_ranges gateway domain now lease ps s')"

definition SQL_Allocate ::
  "string \<Rightarrow> prefix list \<Rightarrow> string \<Rightarrow> time \<Rightarrow> duration \<Rightarrow> store \<Rightarrow> answer \<times> store" where
  "SQL_Allocate gateway ps domain now lease s =
     (case LookupKeyLive (cache s) gateway domain now of
        (Some ip, c) \<Rightarrow>
          (case renew gateway domain now lease False
                  (remember gateway domain ip (now + lease) (s\<lparr>cache := c\<rparr>)) of
             (err, s1) \<Rightarrow> ((ip, err), s1))
      | (None, c) \<Rightarrow>
          (case db_query (select_key gateway domain now) (s\<lparr>cache := c\<rparr>) of
             (Inl e, s1) \<Rightarrow> ((NoAddr, Some e), s1)
           | (Inr (Some row), s1) \<Rightarrow>
               (case ParseAddr (r_ip row) of
                  None \<Rightarrow> ((NoAddr, Some ''invalid address''), s1)
                | Some ip \<Rightarrow>
                    (case renew gateway domain now lease True
                            (remember gateway domain ip (now + lease) s1) of
                       (err, s2) \<Rightarrow> ((ip, err), s2)))
           | (Inr None, s1) \<Rightarrow>
               (case db_exec (DeleteExpired now) s1 of
                  (Inl e, s2) \<Rightarrow> ((NoAddr, Some e), s2)
                | (Inr _, s2) \<Rightarrow> insert_ranges gateway domain now lease ps s2)))"

section \<open>Lookups\<close>

type_synonym 'a found = "'a option \<times> string option"

definition SQL_Lookup :: "addr \<Rightarrow> time \<Rightarrow> duration \<Rightarrow> store \<Rightarrow> Mapping found \<times> store" where
  "SQL_Lookup ip now lease s =
     (case LookupLive (cache s) ip now of
        (Some m, c) \<Rightarrow>
          (case renew (map_gateway m) (map_domain m) now lease False
                  (remember (map_gateway m) (map_domain m) ip (now + lease) (s\<lparr>cache := c\<rparr>)) of
             (err, s1) \<Rightarrow> ((Some m, err), s1))
      | (None, c) \<Rightarrow>
          (case db_query (select_ip (AddrString ip) now) (s\<lparr>cache := c\<rparr>) of
             (Inl e, s1) \<Rightarrow> ((None, Some e), s1)
           | (Inr None, s1) \<Rightarrow> ((None, None), s1)
           | (Inr (Some row), s1) \<Rightarrow>
               (case renew (r_gateway row) (r_domain row) now lease True
                       (remember (r_gateway row) (r_domain row) ip (now + lease) s1) of
                  (err, s2) \<Rightarrow>
                    ((Some \<lparr>map_gateway = r_gateway row, map_domain = r_domain row\<rparr>, err), s2))))"

definition SQL_LookupKey ::
  "string \<Rightarrow> string \<Rightarrow> time \<Rightarrow> duration \<Rightarrow> store \<Rightarrow> addr found \<times> store" where
  "SQL_LookupKey gateway domain now lease s =
     (case LookupKeyLive (cache s) gateway domain now of
        (Some ip, c) \<Rightarrow>
          (case renew gateway domain now lease False (s\<lparr>cache := c\<rparr>) of
             (err, s1) \<Rightarrow> ((Some ip, err), s1))
      | (None, c) \<Rightarrow>
          (case db_query (select_key gateway domain now) (s\<lparr>cache := c\<rparr>) of
             (Inl e, s1) \<Rightarrow> ((None, Some e), s1)
           | (Inr None, s1) \<Rightarrow> ((None, None), s1)
           | (Inr (Some row), s1) \<Rightarrow>
               (case ParseAddr (r_ip row) of
                  None \<Rightarrow> ((None, Some ''invalid address''), s1)
                | Some ip \<Rightarrow>
                    (case renew gateway domain now lease True
                            (remember gateway domain ip (now + lease) s1) of
                       (err, s2) \<Rightarrow> ((Some ip, err), s2)))))"

section \<open>Loading and saving the whole table\<close>

definition row_disk :: "arow \<Rightarrow> diskMapping" where
  "row_disk r = \<lparr>dm_gateway = r_gateway r, dm_domain = r_domain r, dm_ip = r_ip r\<rparr>"

definition SQL_Load :: "store \<Rightarrow> bool \<times> store" where
  "SQL_Load s =
     (case db_query Some s of
        (Inr (Some t), s1) \<Rightarrow>
          (case load_rows (map row_disk t) (cache s1) of (ok, c) \<Rightarrow> (ok, s1\<lparr>cache := c\<rparr>))
      | (_, s1) \<Rightarrow> (False, s1))"

text \<open>
  One upsert of the saving transaction: a row with the same key gets the address, unless another
  row holds it, which violates its uniqueness; a new row has no expiry.
\<close>

definition upsert :: "diskMapping \<Rightarrow> table \<Rightarrow> table option" where
  "upsert m t =
     (if list_ex (\<lambda>r. r_ip r = dm_ip m \<and> \<not> key_is (dm_gateway m) (dm_domain m) r) t then None
      else if list_ex (key_is (dm_gateway m) (dm_domain m)) t
      then Some (map (\<lambda>r. if key_is (dm_gateway m) (dm_domain m) r then r\<lparr>r_ip := dm_ip m\<rparr> else r) t)
      else Some (t @ [\<lparr>r_gateway = dm_gateway m, r_domain = dm_domain m, r_ip = dm_ip m,
                       r_expires = None\<rparr>]))"

fun upserts :: "diskMapping list \<Rightarrow> table \<Rightarrow> table option" where
  "upserts [] t = Some t"
| "upserts (m # ms) t = (case upsert m t of None \<Rightarrow> None | Some t' \<Rightarrow> upserts ms t')"

text \<open>The transaction is one event: it commits as a whole or is rolled back.\<close>

definition SQL_Save :: "addr list \<Rightarrow> store \<Rightarrow> bool \<times> store" where
  "SQL_Save order s =
     (case next_event s of
        (f, s1) \<Rightarrow>
          (case upserts (snapshot order (cache s1)) (tab s1) of
             None \<Rightarrow> (False, s1)
           | Some t \<Rightarrow>
               (case f of
                  NoFault \<Rightarrow> (True, s1\<lparr>tab := t\<rparr>)
                | FailBefore \<Rightarrow> (False, s1)
                | FailAfter \<Rightarrow> (False, s1\<lparr>tab := t\<rparr>))))"

section \<open>Opening the store\<close>

text \<open>The parts of a parsed URL; whether it has user information is all that is asked of it.\<close>

record url =
  u_scheme :: string
  u_user :: bool
  u_host :: string
  u_path :: string
  u_raw_query :: string
  u_fragment :: string

definition sqlitePath :: "url \<Rightarrow> string result" where
  "sqlitePath u =
     (if u_user u \<or> u_raw_query u \<noteq> [] \<or> u_fragment u \<noteq> []
      then Inl ''sqlite URL must contain only a file path''
      else if u_host u = [] then
        (if u_path u = [] then Inl ''sqlite URL has no file path'' else Inr (u_path u))
      else let tail = TrimPrefix (u_path u) ''/'' in
        Inr (if tail \<noteq> [] then u_host u @ ''/'' @ tail else u_host u))"

definition driver_dsn :: "url \<Rightarrow> string \<Rightarrow> (string \<times> string) result" where
  "driver_dsn u databaseURL =
     (if u_scheme u = ''sqlite'' then
        (case sqlitePath u of Inl e \<Rightarrow> Inl e | Inr dsn \<Rightarrow> Inr (''sqlite'', dsn))
      else if u_scheme u = ''postgres'' then Inr (''pgx'', databaseURL)
      else Inl (''unsupported database scheme '' @ u_scheme u))"

text \<open>
  Opening: the URL as \<^verbatim>\<open>url.Parse\<close> reads it, then the connection, the schema and the
  migration that gives rows without an expiry one hour. The flags say which call fails; the
  outcome of adding the column is ignored by the code. An absent table is created empty.
\<close>

record open_faults =
  open_fails :: bool
  ping_fails :: bool
  pragma_fails :: bool
  create_fails :: bool
  fill_fails :: bool

definition OpenAllocationStore ::
  "(string \<Rightarrow> url option) \<Rightarrow> open_faults \<Rightarrow> time \<Rightarrow> (string \<Rightarrow> table option) \<Rightarrow> string \<Rightarrow>
     (string \<times> (string \<rightharpoonup> time) \<times> table) result" where
  "OpenAllocationStore url_Parse faults now databases databaseURL =
     (case url_Parse databaseURL of
        None \<Rightarrow> Inl ''invalid URL''
      | Some u \<Rightarrow>
          (case driver_dsn u databaseURL of
             Inl e \<Rightarrow> Inl e
           | Inr (driver, dsn) \<Rightarrow>
               if open_fails faults \<or> ping_fails faults \<or>
                  (driver = ''sqlite'' \<and> pragma_fails faults) \<or> create_fails faults \<or> fill_fails faults
               then Inl dbError
               else
                 let t = (case databases dsn of None \<Rightarrow> [] | Some t \<Rightarrow> t) in
                 Inr (driver, Map.empty, snd (exec (FillNull (now + 3600 * 1000000000)) t))))"

section \<open>Every operation moves the table by statements\<close>

definition db_step :: "table \<Rightarrow> table \<Rightarrow> bool" where
  "db_step t t' \<longleftrightarrow> (\<exists>st. t' = snd (exec st t))"

lemma exec_step: "db_step\<^sup>*\<^sup>* t (snd (exec st t))"
  by (intro r_into_rtranclp) (auto simp: db_step_def)

lemma exec_all_steps: "db_step\<^sup>*\<^sup>* t (exec_all ss t)"
proof (induction ss arbitrary: t)
  case (Cons s ss)
  from exec_step Cons.IH have "db_step\<^sup>*\<^sup>* t (exec_all ss (snd (exec s t)))" by (rule rtranclp_trans)
  then show ?case by (simp add: exec_all_def)
qed (simp add: exec_all_def)

lemma next_event_steps: "db_step\<^sup>*\<^sup>* (tab s) (tab (snd (next_event s)))"
  by (auto simp: next_event_def exec_all_steps split: list.splits event.splits)

lemma next_event_frame [simp]:
  "cache (snd (next_event s)) = cache s" "lastRenewed (snd (next_event s)) = lastRenewed s"
  by (simp_all add: next_event_def split: list.splits event.splits)

lemma next_event_quiet [simp]: "script s = [] \<Longrightarrow> next_event s = (NoFault, s)"
  by (simp add: next_event_def)

lemma db_exec_steps: "db_step\<^sup>*\<^sup>* (tab s) (tab (snd (db_exec st s)))"
  using next_event_steps [of s]
  by (cases "next_event s"; cases "fst (next_event s)")
    (auto simp: db_exec_def intro: rtranclp_trans exec_step)

lemma db_query_steps: "db_step\<^sup>*\<^sup>* (tab s) (tab (snd (db_query q s)))"
  using next_event_steps [of s]
  by (cases "next_event s"; cases "fst (next_event s)") (auto simp: db_query_def)

lemma db_exec_quiet [simp]:
  "script s = [] \<Longrightarrow> db_exec st s = (Inr (fst (exec st (tab s))), s\<lparr>tab := snd (exec st (tab s))\<rparr>)"
  by (simp add: db_exec_def)

lemma db_query_quiet [simp]: "script s = [] \<Longrightarrow> db_query q s = (Inr (q (tab s)), s)"
  by (simp add: db_query_def)

lemma remember_frame [simp]:
  "tab (remember g d ip e s) = tab s" "lastRenewed (remember g d ip e s) = lastRenewed s"
  "script (remember g d ip e s) = script s"
  "cache (remember g d ip e s) = RememberUntil (cache s) g d ip e"
  by (simp_all add: remember_def)

lemma stamp_frame [simp]:
  "tab (stamp g d now s) = tab s" "cache (stamp g d now s) = cache s"
  "script (stamp g d now s) = script s"
  "lastRenewed (stamp g d now s) = (lastRenewed s)(alloc_key g d \<mapsto> now)"
  by (simp_all add: stamp_def)

lemma db_exec_stepsD: "db_exec st s = (r, s') \<Longrightarrow> db_step\<^sup>*\<^sup>* (tab s) (tab s')"
  using db_exec_steps [of s st] by simp

lemma db_query_stepsD: "db_query q s = (r, s') \<Longrightarrow> db_step\<^sup>*\<^sup>* (tab s) (tab s')"
  using db_query_steps [of s q] by simp

lemma renew_steps: "db_step\<^sup>*\<^sup>* (tab s) (tab (snd (renew g d now lease force s)))"
  by (auto simp: renew_def Let_def split: prod.splits dest: db_exec_stepsD)

lemma renew_stepsD: "renew g d now lease force s = (r, s') \<Longrightarrow> db_step\<^sup>*\<^sup>* (tab s) (tab s')"
  using renew_steps [of s g d now lease force] by simp

lemmas steps_dest = db_exec_stepsD db_query_stepsD renew_stepsD

lemma insert_one_steps: "db_step\<^sup>*\<^sup>* (tab s) (tab (snd (insert_one g d now lease ip s)))"
  by (auto simp: insert_one_def split: prod.splits sum.splits option.splits
      dest!: steps_dest intro: rtranclp_trans)

lemma insert_range_steps: "db_step\<^sup>*\<^sup>* (tab s) (tab (snd (insert_range g d now lease p ip s)))"
proof (induction g d now lease p ip s rule: insert_range.induct)
  case (1 g d now lease p ip s)
  show ?case
  proof (cases "Contains p ip")
    case True
    obtain r s' where r: "insert_one g d now lease ip s = (r, s')" by fastforce
    then have "db_step\<^sup>*\<^sup>* (tab s) (tab s')" using insert_one_steps [of s g d now lease ip] by simp
    with 1 [OF _ r [symmetric]] True r show ?thesis
      by (subst insert_range.simps) (auto split: option.splits intro: rtranclp_trans)
  qed (simp add: insert_range.simps [of _ _ _ _ p])
qed

declare insert_range.simps [simp del]

lemma insert_ranges_steps: "db_step\<^sup>*\<^sup>* (tab s) (tab (snd (insert_ranges g d now lease ps s)))"
proof (induction g d now lease ps s rule: insert_ranges.induct)
  case (2 g d now lease p ps s)
  obtain r s' where r: "insert_range g d now lease p (Next (pfx_addr (Masked p))) s = (r, s')" by fastforce
  then have "db_step\<^sup>*\<^sup>* (tab s) (tab s')"
    using insert_range_steps [of s g d now lease p "Next (pfx_addr (Masked p))"] by simp
  with 2 [OF r [symmetric]] r show ?case by (auto split: option.splits intro: rtranclp_trans)
qed simp

lemma insert_ranges_after:
  "db_step\<^sup>*\<^sup>* t (tab s) \<Longrightarrow> db_step\<^sup>*\<^sup>* t (tab (snd (insert_ranges g d now lease ps s)))"
  using insert_ranges_steps rtranclp_trans by metis

lemma SQL_Allocate_steps: "db_step\<^sup>*\<^sup>* (tab s) (tab (snd (SQL_Allocate g ps d now lease s)))"
  by (auto simp: SQL_Allocate_def split: prod.splits sum.splits option.splits
      dest!: steps_dest intro: rtranclp_trans intro!: insert_ranges_after)

lemma SQL_Lookup_steps: "db_step\<^sup>*\<^sup>* (tab s) (tab (snd (SQL_Lookup ip now lease s)))"
  by (auto simp: SQL_Lookup_def split: prod.splits sum.splits option.splits
      dest!: steps_dest intro: rtranclp_trans)

lemma SQL_LookupKey_steps: "db_step\<^sup>*\<^sup>* (tab s) (tab (snd (SQL_LookupKey g d now lease s)))"
  by (auto simp: SQL_LookupKey_def split: prod.splits sum.splits option.splits
      dest!: steps_dest intro: rtranclp_trans)

section \<open>Uniqueness\<close>

definition row_key :: "arow \<Rightarrow> string \<times> string" where
  "row_key r = (r_gateway r, r_domain r)"

definition unique_table :: "table \<Rightarrow> bool" where
  "unique_table t \<longleftrightarrow> distinct (map row_key t) \<and> distinct (map r_ip t)"

lemma key_is_row_key: "key_is g d r \<longleftrightarrow> row_key r = (g, d)"
  by (auto simp: key_is_def row_key_def)

lemma row_key_expires [simp]: "row_key (r\<lparr>r_expires := e\<rparr>) = row_key r"
  by (simp add: row_key_def)

lemma unique_table_redate:
  "unique_table t \<Longrightarrow> unique_table (map (\<lambda>r. if P r then r\<lparr>r_expires := e\<rparr> else r) t)"
proof -
  have "map row_key (map (\<lambda>r. if P r then r\<lparr>r_expires := e\<rparr> else r) t) = map row_key t"
    "map r_ip (map (\<lambda>r. if P r then r\<lparr>r_expires := e\<rparr> else r) t) = map r_ip t" by auto
  then show "unique_table t \<Longrightarrow> ?thesis" unfolding unique_table_def by metis
qed

lemma exec_unique: "unique_table t \<Longrightarrow> unique_table (snd (exec st t))"
proof (cases st)
  case (InsertIgnore g d ip e)
  then show "unique_table t \<Longrightarrow> ?thesis"
    by (auto simp: unique_table_def list_ex_iff conflicts_def key_is_row_key row_key_def)
qed (auto simp: unique_table_redate, auto simp: unique_table_def distinct_map_filter)

lemma db_steps_unique: "db_step\<^sup>*\<^sup>* t t' \<Longrightarrow> unique_table t \<Longrightarrow> unique_table t'"
  by (induction rule: rtranclp_induct) (auto simp: db_step_def exec_unique)

section \<open>What the statements of one lease policy do to the table\<close>

text \<open>
  The statements processes send at time \<open>now\<close> when they all grant the lease \<open>L\<close>, and the
  invariant of the rows such processes write.
\<close>

fun good_stmt :: "time \<Rightarrow> duration \<Rightarrow> stmt \<Rightarrow> bool" where
  "good_stmt now L (DeleteExpired t) \<longleftrightarrow> t = now"
| "good_stmt now L (InsertIgnore g d ip e) \<longleftrightarrow>
     e = now + L \<and> CHR 0x00 \<notin> set g \<and> (\<exists>w. ip = string4 w)"
| "good_stmt now L (UpdateExpiry e g d) \<longleftrightarrow> e = now + L"
| "good_stmt now L (FillNull e) \<longleftrightarrow> False"

definition row_ok :: "time \<Rightarrow> duration \<Rightarrow> arow \<Rightarrow> bool" where
  "row_ok now L r \<longleftrightarrow>
     (\<exists>w. r_ip r = string4 w) \<and> (\<exists>e. r_expires r = Some e \<and> e \<le> now + L) \<and> CHR 0x00 \<notin> set (r_gateway r)"

definition rows_ok :: "time \<Rightarrow> duration \<Rightarrow> table \<Rightarrow> bool" where
  "rows_ok now L t \<longleftrightarrow> unique_table t \<and> (\<forall>r\<in>set t. row_ok now L r)"

text \<open>The same registration, possibly with a later expiry.\<close>

definition later_row :: "arow \<Rightarrow> arow \<Rightarrow> bool" where
  "later_row r r' \<longleftrightarrow> row_key r' = row_key r \<and> r_ip r' = r_ip r \<and>
     (\<exists>e e'. r_expires r = Some e \<and> r_expires r' = Some e' \<and> e \<le> e')"

definition evolves :: "time \<Rightarrow> duration \<Rightarrow> table \<Rightarrow> table \<Rightarrow> bool" where
  "evolves now L t t' \<longleftrightarrow>
     (\<forall>r\<in>set t. live_at now r \<longrightarrow> (\<exists>r'\<in>set t'. later_row r r')) \<and>
     (\<forall>r'\<in>set t'. r_expires r' = Some (now + L) \<or> r' \<in> set t)"

lemma live_at_Some [simp]: "r_expires r = Some e \<Longrightarrow> live_at now r \<longleftrightarrow> now < e"
  by (simp add: live_at_def)

lemma live_atE: "live_at now r \<Longrightarrow> (\<And>e. r_expires r = Some e \<Longrightarrow> now < e \<Longrightarrow> P) \<Longrightarrow> P"
  by (auto simp: live_at_def split: option.splits)

lemma later_row_live: "later_row r r' \<Longrightarrow> live_at now r \<Longrightarrow> live_at now r'"
  by (auto simp: later_row_def)

lemma later_row_trans: "later_row r r' \<Longrightarrow> later_row r' r'' \<Longrightarrow> later_row r r''"
  by (auto simp: later_row_def)

lemma later_row_refl: "r_expires r = Some e \<Longrightarrow> later_row r r"
  by (simp add: later_row_def)

lemma evolves_refl: "evolves now L t t"
  by (auto simp: evolves_def elim!: live_atE intro: later_row_refl)

lemma evolves_trans: "evolves now L t t' \<Longrightarrow> evolves now L t' t'' \<Longrightarrow> evolves now L t t''"
  unfolding evolves_def by (meson later_row_live later_row_trans)

lemma exec_evolves:
  assumes "good_stmt now L st" "rows_ok now L t"
  shows "evolves now L t (snd (exec st t))"
proof (cases st)
  case (UpdateExpiry e g d)
  let ?f = "\<lambda>r. if key_is g d r then r\<lparr>r_expires := Some (now + L)\<rparr> else r"
  have "later_row r (?f r)" if "r \<in> set t" for r
    using assms(2) that by (auto simp: rows_ok_def row_ok_def later_row_def)
  moreover have "snd (exec st t) = map ?f t" using UpdateExpiry assms(1) by simp
  ultimately show ?thesis
    unfolding evolves_def by (force split: if_splits)
qed (use assms in \<open>auto simp: evolves_def elim!: live_atE intro: later_row_refl\<close>)

lemma exec_rows_ok:
  assumes "good_stmt now L st" "rows_ok now L t"
  shows "rows_ok now L (snd (exec st t))"
  using assms exec_unique [of t st]
  by (cases st) (auto simp: rows_ok_def row_ok_def)

lemma rows_ok_tick: "rows_ok now L t \<Longrightarrow> now \<le> now' \<Longrightarrow> rows_ok now' L t"
  by (fastforce simp: rows_ok_def row_ok_def)

section \<open>The cache against the table\<close>

definition backed :: "time \<Rightarrow> Allocator \<Rightarrow> table \<Rightarrow> bool" where
  "backed now c t \<longleftrightarrow>
     (\<forall>ip m. byIP c ip = Some m \<longrightarrow> \<not> expired c ip now \<longrightarrow>
        Is4 ip \<and> expires_of c ip \<noteq> zeroTime \<and>
        (\<exists>r\<in>set t. row_key r = (map_gateway m, map_domain m) \<and> r_ip r = AddrString ip \<and>
           (\<exists>e. r_expires r = Some e \<and> expires_of c ip \<le> e)))"

definition stamped :: "time \<Rightarrow> duration \<Rightarrow> (string \<rightharpoonup> time) \<Rightarrow> table \<Rightarrow> bool" where
  "stamped now L ren t \<longleftrightarrow>
     (\<forall>k u. ren k = Some u \<longrightarrow> zeroTime < u \<and> u \<le> now \<and>
        (\<forall>r\<in>set t. alloc_key (r_gateway r) (r_domain r) = k \<longrightarrow> (\<exists>e. r_expires r = Some e \<and> u + L \<le> e)))"

lemma expired_iff: "expires_of c ip \<noteq> zeroTime \<Longrightarrow> expired c ip now \<longleftrightarrow> expires_of c ip \<le> now"
  by (auto simp: expired_def IsZero_def)

lemma expired_mono: "expired c ip now \<Longrightarrow> now \<le> now' \<Longrightarrow> expired c ip now'"
  by (auto simp: expired_def)

lemma backedD:
  assumes "backed now c t" "byIP c ip = Some m" "\<not> expired c ip now"
  obtains r e where "Is4 ip" "r \<in> set t" "row_key r = (map_gateway m, map_domain m)"
    "r_ip r = AddrString ip" "r_expires r = Some e" "now < e" "expires_of c ip \<le> e"
proof -
  have z: "expires_of c ip \<noteq> zeroTime" and i: "Is4 ip" using assms unfolding backed_def by blast+
  moreover from this have "now < expires_of c ip" using assms(3) by (simp add: expired_iff)
  ultimately show ?thesis using assms that unfolding backed_def by (blast intro: less_le_trans)
qed

lemma backed_evolves:
  assumes "backed now c t" "evolves now L t t'"
  shows "backed now c t'"
  unfolding backed_def
proof (intro allI impI)
  fix ip m assume h: "byIP c ip = Some m" "\<not> expired c ip now"
  obtain r e where r: "Is4 ip" "r \<in> set t" "row_key r = (map_gateway m, map_domain m)"
    "r_ip r = AddrString ip" "r_expires r = Some e" "now < e" "expires_of c ip \<le> e"
    using backedD [OF assms(1) h] .
  then obtain r' where "r' \<in> set t'" "later_row r r'" using assms(2) unfolding evolves_def by auto
  moreover have "expires_of c ip \<noteq> zeroTime" using assms(1) h unfolding backed_def by blast
  ultimately show "Is4 ip \<and> expires_of c ip \<noteq> zeroTime \<and>
        (\<exists>r\<in>set t'. row_key r = (map_gateway m, map_domain m) \<and> r_ip r = AddrString ip \<and>
           (\<exists>e. r_expires r = Some e \<and> expires_of c ip \<le> e))"
    using r by (fastforce simp: later_row_def)
qed

lemma backed_tick: "backed now c t \<Longrightarrow> now \<le> now' \<Longrightarrow> backed now' c t"
  unfolding backed_def by (meson expired_mono)

text \<open>Looking up drops entries; what stays is as backed as before.\<close>

lemma backed_LookupLive: "backed now c t \<Longrightarrow> backed now (snd (LookupLive c ip now)) t"
  unfolding backed_def by (metis (no_types, lifting) LookupLive_sub expired_def)

lemma backed_LookupKeyLive: "backed now c t \<Longrightarrow> backed now (snd (LookupKeyLive c g d now)) t"
  by (simp add: LookupKeyLive_snd backed_LookupLive split: option.splits)

lemma backed_remember:
  assumes "backed now c t" "Is4 ip" "zeroTime < e"
    and "\<exists>r\<in>set t. row_key r = (g, d) \<and> r_ip r = AddrString ip \<and> (\<exists>x. r_expires r = Some x \<and> e \<le> x)"
  shows "backed now (RememberUntil c g d ip e) t"
proof (cases rule: RememberUntil_cases [of c g d ip e])
  case 2
  show ?thesis
    unfolding backed_def
  proof (intro allI impI)
    fix x m assume h: "byIP (RememberUntil c g d ip e) x = Some m" "\<not> expired (RememberUntil c g d ip e) x now"
    show "Is4 x \<and> expires_of (RememberUntil c g d ip e) x \<noteq> zeroTime \<and>
        (\<exists>r\<in>set t. row_key r = (map_gateway m, map_domain m) \<and> r_ip r = AddrString x \<and>
           (\<exists>y. r_expires r = Some y \<and> expires_of (RememberUntil c g d ip e) x \<le> y))"
    proof (cases "x = ip")
      case True
      then show ?thesis using assms(2-4) h 2 by (auto simp: expires_of_def)
    next
      case False
      then have "expires_of (RememberUntil c g d ip e) x = expires_of c x" using 2 by (simp add: expires_of_def)
      moreover from False h 2 this have "byIP c x = Some m" "\<not> expired c x now" by (auto simp: expired_def)
      ultimately show ?thesis using assms(1) unfolding backed_def by simp
    qed
  qed
qed (use assms(1) in simp)

lemma stamped_evolves:
  assumes "stamped now L ren t" "evolves now L t t'"
  shows "stamped now L ren t'"
  unfolding stamped_def
proof (intro allI impI conjI ballI)
  fix k u assume k: "ren k = Some u"
  then show "zeroTime < u" "u \<le> now" using assms(1) unfolding stamped_def by blast+
  fix r assume r: "r \<in> set t'" "alloc_key (r_gateway r) (r_domain r) = k"
  then consider "r_expires r = Some (now + L)" | "r \<in> set t" using assms(2) unfolding evolves_def by blast
  then show "\<exists>e. r_expires r = Some e \<and> u + L \<le> e"
    using assms(1) k r unfolding stamped_def by cases auto
qed

lemma stamped_tick: "stamped now L ren t \<Longrightarrow> now \<le> now' \<Longrightarrow> stamped now' L ren t"
  unfolding stamped_def by fastforce

section \<open>Operations on a quiet database\<close>

definition sinv :: "time \<Rightarrow> duration \<Rightarrow> store \<Rightarrow> bool" where
  "sinv now L s \<longleftrightarrow>
     zeroTime < now \<and> 0 < L \<and> script s = [] \<and> rows_ok now L (tab s) \<and>
     alloc_wf (cache s) \<and> backed now (cache s) (tab s) \<and> stamped now L (lastRenewed s) (tab s)"

lemma stampedD:
  "stamped now L ren t \<Longrightarrow> ren k = Some u \<Longrightarrow> r \<in> set t \<Longrightarrow> alloc_key (r_gateway r) (r_domain r) = k \<Longrightarrow>
     \<exists>e. r_expires r = Some e \<and> u + L \<le> e"
  unfolding stamped_def by blast

lemma sinvD:
  assumes "sinv now L s"
  shows "zeroTime < now" "0 < L" "script s = []" "rows_ok now L (tab s)" "unique_table (tab s)"
    "alloc_wf (cache s)" "backed now (cache s) (tab s)" "stamped now L (lastRenewed s) (tab s)"
  using assms by (auto simp: sinv_def rows_ok_def)

text \<open>
  The registry holds this name with this address, for more than the lease less the renewal
  debounce.
\<close>

definition registered :: "time \<Rightarrow> duration \<Rightarrow> table \<Rightarrow> string \<Rightarrow> string \<Rightarrow> addr \<Rightarrow> bool" where
  "registered now L t g d ip \<longleftrightarrow>
     list_ex (\<lambda>r. key_is g d r \<and> r_ip r = AddrString ip \<and> live_at now r \<and>
       live_at (now + L - renewalDebounce) r) t"

lemma sinv_LookupKeyLive:
  assumes "sinv now L s" "LookupKeyLive (cache s) g d now = (r, c)"
  shows "sinv now L (s\<lparr>cache := c\<rparr>)"
  using assms LookupKeyLive_wf [of "cache s" g d now] backed_LookupKeyLive [of now "cache s" "tab s" g d]
  by (simp add: sinv_def)

lemma sinv_LookupLive:
  assumes "sinv now L s" "LookupLive (cache s) ip now = (r, c)"
  shows "sinv now L (s\<lparr>cache := c\<rparr>)"
  using assms LookupLive_wf [of "cache s" ip now] backed_LookupLive [of now "cache s" "tab s" ip]
  by (simp add: sinv_def)

text \<open>The effect of an unconditional renewal.\<close>

definition renewed :: "time \<Rightarrow> duration \<Rightarrow> string \<Rightarrow> string \<Rightarrow> store \<Rightarrow> store" where
  "renewed now L g d s = (stamp g d now s)\<lparr>tab := snd (exec (UpdateExpiry (now + L) g d) (tab s))\<rparr>"

lemma renewed_frame [simp]:
  "cache (renewed now L g d s) = cache s" "script (renewed now L g d s) = script s"
  "lastRenewed (renewed now L g d s) = (lastRenewed s)(alloc_key g d \<mapsto> now)"
  "tab (renewed now L g d s) = snd (exec (UpdateExpiry (now + L) g d) (tab s))"
  by (simp_all add: renewed_def)

lemma renew_quiet:
  assumes "script s = []"
  shows "renew g d now L force s =
    (None, if \<not> force \<and> \<not> IsZero (last_of s (alloc_key g d)) \<and> now - last_of s (alloc_key g d) < renewalDebounce
           then s else renewed now L g d s)"
  using assms by (simp add: renew_def renewed_def error_of_def Let_def stamp_def del: exec.simps)

lemma renew_remember:
  assumes "script s = []"
  shows "renew g d now L True (remember g d ip e s) = (None, remember g d ip e (renewed now L g d s))"
  using assms by (simp add: renew_quiet renewed_def remember_def stamp_def del: exec.simps)

lemma renewed_inv:
  assumes "sinv now L s" "CHR 0x00 \<notin> set g"
  shows "sinv now L (renewed now L g d s) \<and> evolves now L (tab s) (tab (renewed now L g d s))"
proof -
  let ?t = "snd (exec (UpdateExpiry (now + L) g d) (tab s))"
  have ev: "evolves now L (tab s) ?t" and ok: "rows_ok now L ?t"
    using exec_evolves exec_rows_ok sinvD(4) [OF assms(1)] good_stmt.simps(3) by metis+
  have st: "stamped now L (lastRenewed s) ?t" by (rule stamped_evolves [OF sinvD(8) [OF assms(1)] ev])
  have nul: "CHR 0x00 \<notin> set (r_gateway r)" if "r \<in> set ?t" for r
    using ok that by (auto simp: rows_ok_def row_ok_def simp del: exec.simps)
  have upd: "r_expires r = Some (now + L)" if "r \<in> set ?t" "row_key r = (g, d)" for r
    using that by (auto simp: key_is_row_key split: if_splits)
  have "stamped now L ((lastRenewed s)(alloc_key g d \<mapsto> now)) ?t"
    unfolding stamped_def
  proof (intro allI impI)
    fix k u assume k: "((lastRenewed s)(alloc_key g d \<mapsto> now)) k = Some u"
    show "zeroTime < u \<and> u \<le> now \<and> (\<forall>r\<in>set ?t. alloc_key (r_gateway r) (r_domain r) = k \<longrightarrow>
        (\<exists>e. r_expires r = Some e \<and> u + L \<le> e))"
    proof (cases "k = alloc_key g d")
      case True
      have "r_expires r = Some (now + L)" if "r \<in> set ?t" "alloc_key (r_gateway r) (r_domain r) = k" for r
        using upd [OF that(1)] that alloc_key_inject [OF nul [OF that(1)] assms(2)] True
        by (simp add: row_key_def del: exec.simps)
      with True k sinvD(1) [OF assms(1)] show ?thesis by (auto simp del: exec.simps)
    next
      case False
      with k have "lastRenewed s k = Some u" by simp
      with st show ?thesis unfolding stamped_def by blast
    qed
  qed
  with ev ok assms(1) backed_evolves [OF sinvD(7) [OF assms(1)] ev] show ?thesis
    by (simp add: sinv_def del: exec.simps)
qed

lemma renewed_row:
  assumes "r \<in> set (tab s)" "key_is g d r" "r_ip r = AddrString ip"
  shows "\<exists>r'\<in>set (tab (renewed now L g d s)). row_key r' = (g, d) \<and> r_ip r' = AddrString ip \<and>
     r_expires r' = Some (now + L)"
proof (intro bexI conjI)
  show "r\<lparr>r_expires := Some (now + L)\<rparr> \<in> set (tab (renewed now L g d s))" using assms by force
qed (use assms in \<open>simp_all add: key_is_row_key\<close>)

lemma registeredI:
  "r \<in> set t \<Longrightarrow> row_key r = (g, d) \<Longrightarrow> r_ip r = AddrString ip \<Longrightarrow> r_expires r = Some e \<Longrightarrow> now < e \<Longrightarrow>
     now + L - renewalDebounce < e \<Longrightarrow> registered now L t g d ip"
  by (auto simp: registered_def list_ex_iff key_is_row_key)

lemma debounce_pos: "0 < renewalDebounce"
  by (simp add: renewalDebounce_def)

text \<open>A renewal for a name found in the table.\<close>

lemma renew_hard:
  assumes "sinv now L s" "CHR 0x00 \<notin> set g" "Is4 ip"
    and "r \<in> set (tab s)" "key_is g d r" "r_ip r = AddrString ip"
    and "renew g d now L True (remember g d ip (now + L) s) = (err, s')"
  shows "err = None \<and> sinv now L s' \<and> evolves now L (tab s) (tab s') \<and> registered now L (tab s') g d ip"
proof -
  have s': "err = None" "s' = remember g d ip (now + L) (renewed now L g d s)"
    using assms(7) renew_remember [OF sinvD(3) [OF assms(1)]] by simp_all
  note inv = renewed_inv [OF assms(1,2), of d]
  obtain q where q: "q \<in> set (tab s')" "row_key q = (g, d)" "r_ip q = AddrString ip" "r_expires q = Some (now + L)"
    using renewed_row [OF assms(4-6), of now L] s'(2) by (auto simp del: renewed_frame)
  have "backed now (cache s') (tab s')"
    unfolding s' remember_frame using inv assms(1,3) q s'(2)
    by (intro backed_remember) (auto simp: sinv_def simp del: renewed_frame)
  moreover have "alloc_wf (cache s')" unfolding s' remember_frame using inv by (simp add: RememberUntil_wf sinv_def)
  ultimately have "sinv now L s'" using inv unfolding s' by (simp add: sinv_def del: renewed_frame)
  moreover have "registered now L (tab s') g d ip"
    using q sinvD(2) [OF assms(1)] debounce_pos by (intro registeredI [of q]) auto
  ultimately show ?thesis using s' inv by simp
qed

text \<open>A renewal for a name found in the cache.\<close>

lemma renew_soft:
  assumes "sinv now L s" "CHR 0x00 \<notin> set g"
    and "r \<in> set (tab s)" "row_key r = (g, d)" "r_ip r = AddrString ip" "live_at now r"
    and "renew g d now L False s = (err, s')"
  shows "err = None \<and> sinv now L s' \<and> evolves now L (tab s) (tab s') \<and> registered now L (tab s') g d ip"
proof -
  let ?last = "last_of s (alloc_key g d)"
  have s': "err = None" "s' = (if \<not> IsZero ?last \<and> now - ?last < renewalDebounce then s else renewed now L g d s)"
    using assms(7) renew_quiet [OF sinvD(3) [OF assms(1)]] by simp_all
  note inv = renewed_inv [OF assms(1,2), of d]
  show ?thesis
  proof (cases "\<not> IsZero ?last \<and> now - ?last < renewalDebounce")
    case True
    then obtain u where u: "lastRenewed s (alloc_key g d) = Some u" "?last = u"
      by (auto simp: last_of_def IsZero_def split: option.splits)
    then obtain e where e: "r_expires r = Some e" "u + L \<le> e"
      using stampedD [OF sinvD(8) [OF assms(1)] u(1) assms(3)] assms(4) by (auto simp: row_key_def)
    with True u assms(3-6) have "registered now L (tab s) g d ip"
      by (intro registeredI [of r]) auto
    with True s' assms(1) evolves_refl show ?thesis by simp
  next
    case False
    obtain q where q: "q \<in> set (tab s')" "row_key q = (g, d)" "r_ip q = AddrString ip" "r_expires q = Some (now + L)"
      using renewed_row [OF assms(3) _ assms(5), of g d now L] s'(2) False assms(4)
      by (auto simp: key_is_row_key simp del: renewed_frame)
    then have "registered now L (tab s') g d ip"
      using sinvD(2) [OF assms(1)] debounce_pos by (intro registeredI [of q]) auto
    moreover have "s' = renewed now L g d s" unfolding s'(2) using False by (simp only: if_False)
    ultimately show ?thesis using s'(1) inv by (simp del: renewed_frame)
  qed
qed

text \<open>What an operation must keep, and what it does to the table the other processes share.\<close>

definition op_ok :: "time \<Rightarrow> duration \<Rightarrow> store \<Rightarrow> store \<Rightarrow> bool" where
  "op_ok now L s s' \<longleftrightarrow> sinv now L s' \<and> evolves now L (tab s) (tab s')"

lemma select_key_Some:
  "select_key g d now t = Some r \<Longrightarrow> r \<in> set t \<and> key_is g d r \<and> live_at now r"
  by (auto simp: select_key_def find_Some_iff)

lemma select_ip_Some:
  "select_ip ip now t = Some r \<Longrightarrow> r \<in> set t \<and> r_ip r = ip \<and> live_at now r"
  by (auto simp: select_ip_def find_Some_iff)

lemma select_key_None: "select_key g d now t = None \<longleftrightarrow> (\<forall>r\<in>set t. key_is g d r \<longrightarrow> \<not> live_at now r)"
  by (auto simp: select_key_def find_None_iff)

lemma row_ip_parses:
  assumes "sinv now L s" "r \<in> set (tab s)"
  obtains w where "r_ip r = string4 w"
  using assms by (auto simp: sinv_def rows_ok_def row_ok_def)

lemma cache_hit:
  assumes "sinv now L s" "CHR 0x00 \<notin> set g" "LookupKeyLive (cache s) g d now = (Some ip, c)"
  obtains r where "c = cache s" "r \<in> set (tab s)" "row_key r = (g, d)" "r_ip r = AddrString ip"
    "live_at now r" "remember g d ip e s = s"
proof -
  have h: "byKey (cache s) (alloc_key g d) = Some ip" "\<not> expired (cache s) ip now" "c = cache s"
    using assms(3) LookupKeyLive_Some by blast+
  obtain m where m: "byIP (cache s) ip = Some m" "mapping_key m = alloc_key g d"
    using alloc_wf_keyD [OF sinvD(6) [OF assms(1)] h(1)] by blast
  obtain r x where r: "r \<in> set (tab s)" "row_key r = (map_gateway m, map_domain m)"
    "r_ip r = AddrString ip" "r_expires r = Some x" "now < x"
    using backedD [OF sinvD(7) [OF assms(1)] m(1) h(2)] by metis
  have "CHR 0x00 \<notin> set (map_gateway m)"
    using sinvD(4) [OF assms(1)] r(1,2) by (auto simp: rows_ok_def row_ok_def row_key_def)
  then have "map_gateway m = g" "map_domain m = d"
    using alloc_key_inject [OF _ assms(2)] m(2) by (auto simp: mapping_key_def)
  moreover have "remember g d ip e s = s" using h(1) by (simp add: remember_def RememberUntil_def Let_def)
  ultimately show ?thesis using that [of r] h(3) r by auto
qed

lemma SQL_LookupKey_quiet:
  assumes "sinv now L s" "CHR 0x00 \<notin> set g" "SQL_LookupKey g d now L s = ((found, err), s')"
  shows "err = None \<and> op_ok now L s s' \<and>
    (case found of None \<Rightarrow> select_key g d now (tab s) = None \<and> tab s' = tab s
     | Some ip \<Rightarrow> registered now L (tab s') g d ip \<and> Is4 ip)"
proof -
  obtain hit c where c: "LookupKeyLive (cache s) g d now = (hit, c)" by fastforce
  note inv = sinv_LookupKeyLive [OF assms(1) c]
  note q = sinvD(3) [OF assms(1)]
  show ?thesis
  proof (cases hit)
    case (Some ip)
    obtain r where r: "c = cache s" "r \<in> set (tab s)" "row_key r = (g, d)" "r_ip r = AddrString ip" "live_at now r"
      using cache_hit [OF assms(1,2)] c Some by metis
    have "Is4 ip"
      using c Some sinvD(7) [OF assms(1)] unfolding LookupKeyLive_Some backed_def
      by (metis LookupKeyLive_Some option.exhaust)
    with assms(3) c Some r(1) renew_soft [OF assms(1,2) r(2-5)] show ?thesis
      by (auto simp: SQL_LookupKey_def op_ok_def split: prod.splits)
  next
    case None
    show ?thesis
    proof (cases "select_key g d now (tab s)")
      case (Some r)
      note r = select_key_Some [OF Some]
      obtain w where w: "r_ip r = string4 w" using row_ip_parses [OF assms(1)] r by blast
      with assms(3) c None Some q r renew_hard [OF inv assms(2), of "V4 w" r d] show ?thesis
        by (auto simp: SQL_LookupKey_def op_ok_def split: prod.splits)
    qed (use assms(3) c None q inv in \<open>auto simp: SQL_LookupKey_def op_ok_def evolves_refl\<close>)
  qed
qed

lemma SQL_Lookup_quiet:
  assumes "sinv now L s" "Is4 ip" "SQL_Lookup ip now L s = ((found, err), s')"
  shows "err = None \<and> op_ok now L s s' \<and>
    (case found of None \<Rightarrow> select_ip (AddrString ip) now (tab s) = None \<and> tab s' = tab s
     | Some m \<Rightarrow> registered now L (tab s') (map_gateway m) (map_domain m) ip)"
proof -
  obtain hit c where c: "LookupLive (cache s) ip now = (hit, c)" by fastforce
  note inv = sinv_LookupLive [OF assms(1) c]
  note q = sinvD(3) [OF assms(1)]
  have nul: "CHR 0x00 \<notin> set (r_gateway r)" if "r \<in> set (tab s)" for r
    using sinvD(4) [OF assms(1)] that by (auto simp: rows_ok_def row_ok_def)
  show ?thesis
  proof (cases hit)
    case (Some m)
    then have h: "byIP (cache s) ip = Some m" "\<not> expired (cache s) ip now" "c = cache s"
      using c LookupLive_Some by blast+
    obtain r x where r: "r \<in> set (tab s)" "row_key r = (map_gateway m, map_domain m)"
      "r_ip r = AddrString ip" "r_expires r = Some x" "now < x"
      using backedD [OF sinvD(7) [OF assms(1)] h(1,2)] by metis
    have "remember (map_gateway m) (map_domain m) ip (now + L) s = s"
      using h(1) by (simp add: remember_def RememberUntil_def Let_def)
    moreover have "CHR 0x00 \<notin> set (map_gateway m)" using nul [OF r(1)] r(2) by (simp add: row_key_def)
    ultimately show ?thesis
      using assms(3) c Some h(3) r(4,5) renew_soft [OF assms(1) _ r(1-3)]
      by (auto simp: SQL_Lookup_def op_ok_def split: prod.splits)
  next
    case None
    show ?thesis
    proof (cases "select_ip (AddrString ip) now (tab s)")
      case (Some r)
      note r = select_ip_Some [OF Some]
      with assms(2,3) c None Some q nul renew_hard [OF inv, of "r_gateway r" ip r "r_domain r"] show ?thesis
        by (auto simp: SQL_Lookup_def op_ok_def key_is_def split: prod.splits)
    qed (use assms(3) c None q inv in \<open>auto simp: SQL_Lookup_def op_ok_def evolves_refl\<close>)
  qed
qed

section \<open>The insertion loop takes the first free address\<close>

text \<open>The host addresses of a prefix in the order in which the loop tries them.\<close>

function hosts_from :: "prefix \<Rightarrow> addr \<Rightarrow> addr list" where
  "hosts_from p ip = (if \<not> Contains p ip then [] else ip # hosts_from p (Next ip))"
  by pat_completeness auto
termination
  by (relation "measure (\<lambda>(_, ip). addrs_left ip)") (auto intro!: addrs_left_Next)

declare hosts_from.simps [simp del]

definition hosts :: "prefix \<Rightarrow> addr list" where
  "hosts p = hosts_from p (Next (pfx_addr (Masked p)))"

definition taken :: "table \<Rightarrow> addr \<Rightarrow> bool" where
  "taken t ip \<longleftrightarrow> list_ex (\<lambda>r. r_ip r = AddrString ip) t"

lemma hosts_from_V4:
  assumes "canon4 p" "plow p \<le> unat w"
  shows "set (hosts_from p (V4 w)) = {V4 v | v. unat w \<le> unat v \<and> unat v < plow p + psize p}"
  using assms(2)
proof (induction "plow p + psize p - unat w" arbitrary: w rule: less_induct)
  case less
  show ?case
  proof (cases "Contains p (V4 w)")
    case c: True
    then have b: "plow p \<le> unat w" "unat w < plow p + psize p" by (auto simp: Contains_interval [OF assms(1)])
    show ?thesis
    proof (cases "Suc (unat w) < 4294967296")
      case True
      let ?n = "of_nat (Suc (unat w)) :: 32 word"
      have n: "unat ?n = Suc (unat w)" by (rule unat_of_nat_small [OF True])
      have "plow p + psize p - unat ?n < plow p + psize p - unat w" unfolding n using b by linarith
      from less(1) [OF this] b n have ih:
        "set (hosts_from p (V4 ?n)) = {V4 v | v. Suc (unat w) \<le> unat v \<and> unat v < plow p + psize p}" by simp
      have "set (hosts_from p (V4 w)) = insert (V4 w) (set (hosts_from p (V4 ?n)))"
        using c by (simp add: hosts_from.simps [of p "V4 w"] Next_V4 [OF True] del: Next.simps)
      with ih b show ?thesis by (auto simp: Suc_le_eq le_less word_unat_eq_iff)
    next
      case False
      then have m: "unat w = 4294967295" using unat_lt_32 [of w] by linarith
      have "w + 1 = 0" using m by (simp add: word_unat_eq_iff unat_word_ariths)
      then have "set (hosts_from p (V4 w)) = {V4 w}" using c by (simp add: hosts_from.simps)
      moreover have "v = w" if "unat w \<le> unat v" for v :: "32 word"
        using that m unat_lt_32 [of v] unfolding word_unat_eq_iff by linarith
      ultimately show ?thesis using b by auto
    qed
  next
    case False
    then show ?thesis using less.prems by (auto simp: Contains_interval [OF assms(1)] hosts_from.simps)
  qed
qed

text \<open>The loop tries exactly the host addresses: the addresses of the prefix but the first.\<close>

lemma set_hosts: "canon4 p \<Longrightarrow> set (hosts p) = {x. host_of p x}"
proof -
  assume p: "canon4 p"
  have l: "plow p < 4294967296" by (rule plow_lt)
  show ?thesis
  proof (cases "Suc (plow p) < 4294967296")
    case True
    have n: "Next (pfx_addr (Masked p)) = V4 (of_nat (Suc (plow p)))"
      using True l by (simp add: canon4_Masked [OF p] canon4_base [OF p] Next_V4 unat_of_nat_small del: Next.simps)
    have u: "unat (of_nat (Suc (plow p)) :: 32 word) = Suc (plow p)" by (rule unat_of_nat_small [OF True])
    have "plow p \<le> unat (of_nat (Suc (plow p)) :: 32 word)" unfolding u by simp
    from hosts_from_V4 [OF p this] show ?thesis
      unfolding hosts_def n u by (auto simp: host_of_iff [OF p] Suc_le_eq)
  next
    case False
    with l have m: "plow p = 4294967295" by linarith
    then have "(of_nat (plow p) :: 32 word) + 1 = 0" by simp
    then have "hosts p = []"
      by (simp add: hosts_def canon4_Masked [OF p] canon4_base [OF p] hosts_from.simps)
    moreover have "\<not> host_of p x" for x
    proof
      assume "host_of p x"
      then obtain v :: "32 word" where "plow p < unat v" unfolding host_of_iff [OF p] by blast
      with m unat_lt_32 [of v] show False by linarith
    qed
    ultimately show ?thesis by simp
  qed
qed

definition no_row :: "string \<Rightarrow> string \<Rightarrow> table \<Rightarrow> bool" where
  "no_row g d t \<longleftrightarrow> \<not> list_ex (key_is g d) t"

definition new_row :: "string \<Rightarrow> string \<Rightarrow> addr \<Rightarrow> time \<Rightarrow> arow" where
  "new_row g d ip e = \<lparr>r_gateway = g, r_domain = d, r_ip = AddrString ip, r_expires = Some e\<rparr>"

definition placed :: "string \<Rightarrow> string \<Rightarrow> time \<Rightarrow> duration \<Rightarrow> store \<Rightarrow> addr \<Rightarrow> store" where
  "placed g d now L s ip =
     stamp g d now (remember g d ip (now + L) (s\<lparr>tab := tab s @ [new_row g d ip (now + L)]\<rparr>))"

lemma placed_frame [simp]:
  "tab (placed g d now L s ip) = tab s @ [new_row g d ip (now + L)]"
  "cache (placed g d now L s ip) = RememberUntil (cache s) g d ip (now + L)"
  "lastRenewed (placed g d now L s ip) = (lastRenewed s)(alloc_key g d \<mapsto> now)"
  "script (placed g d now L s ip) = script s"
  by (simp_all add: placed_def)

lemma find_append_None: "find P xs = None \<Longrightarrow> find P (xs @ ys) = find P ys"
  by (induction xs) (auto split: if_splits)

lemma find_append_Some: "find P xs = Some x \<Longrightarrow> find P (xs @ ys) = Some x"
  by (induction xs) (auto split: if_splits)

lemma insert_one_quiet:
  assumes "script s = []" "no_row g d (tab s)" "Is4 ip" "0 < L"
  shows "insert_one g d now L ip s =
    (if taken (tab s) ip then (None, s) else (Some (ip, None), placed g d now L s ip))"
proof -
  obtain w where w: "ip = V4 w" using assms(3) by (elim Is4.elims) auto
  have c: "list_ex (conflicts g d (AddrString ip)) (tab s) = taken (tab s) ip"
    using assms(2) by (auto simp: conflicts_def taken_def no_row_def list_ex_iff)
  have n: "find (\<lambda>r. key_is g d r \<and> live_at now r) (tab s) = None"
    using assms(2) by (auto simp: find_None_iff no_row_def list_ex_iff)
  have f: "find (\<lambda>r. key_is g d r \<and> live_at now r) (tab s @ [new_row g d ip (now + L)]) =
      Some (new_row g d ip (now + L))"
    unfolding find_append_None [OF n] using assms(4) by (simp add: new_row_def key_is_def live_at_def)
  show ?thesis
    using assms(1) c n f w
    by (auto simp: insert_one_def select_key_def placed_def new_row_def)
qed

lemma insert_range_quiet:
  assumes "script s = []" "no_row g d (tab s)" "canon4 p" "0 < L"
  shows "insert_range g d now L p ip s =
    (case find (\<lambda>x. \<not> taken (tab s) x) (hosts_from p ip) of
       None \<Rightarrow> (None, s) | Some x \<Rightarrow> (Some (x, None), placed g d now L s x))"
  using assms(3)
proof (induction p ip rule: hosts_from.induct [case_names step])
  case (step p ip)
  show ?case
  proof (cases "Contains p ip")
    case True
    then have "Is4 ip" using Contains_canon4_V4 [OF step.prems] by fastforce
    note one = insert_one_quiet [OF assms(1,2) this assms(4), of now]
    show ?thesis
      using True step one by (simp add: insert_range.simps [of _ _ _ _ p ip] hosts_from.simps [of p ip])
  qed (simp add: insert_range.simps hosts_from.simps)
qed

text \<open>The first free host address of the prefixes, in order.\<close>

definition first_free :: "table \<Rightarrow> prefix list \<Rightarrow> addr option" where
  "first_free t ps = find (\<lambda>x. \<not> taken t x) (concat (map hosts ps))"

lemma first_free_Cons:
  "first_free t (p # ps) =
     (case find (\<lambda>x. \<not> taken t x) (hosts p) of None \<Rightarrow> first_free t ps | Some x \<Rightarrow> Some x)"
  by (auto simp: first_free_def find_append_None find_append_Some split: option.splits)

lemma insert_ranges_quiet:
  assumes "script s = []" "no_row g d (tab s)" "list_all canon4 ps" "0 < L"
  shows "insert_ranges g d now L ps s =
    (case first_free (tab s) ps of
       None \<Rightarrow> ((NoAddr, Some ''synthetic ranges exhausted''), s)
     | Some x \<Rightarrow> ((x, None), placed g d now L s x))"
  using assms(3)
proof (induction ps)
  case (Cons p ps)
  then show ?case
    using insert_range_quiet [OF assms(1,2) _ assms(4), of p now "Next (pfx_addr (Masked p))"]
    by (simp add: first_free_Cons hosts_def split: option.splits)
qed (simp add: first_free_def)

lemma first_free_host:
  assumes "first_free t ps = Some x" "list_all canon4 ps"
  shows "pool_host ps x \<and> Is4 x \<and> \<not> taken t x"
proof -
  have x: "\<not> taken t x" "\<exists>p\<in>set ps. x \<in> set (hosts p)"
    using assms(1) by (auto simp: first_free_def find_Some_iff dest: nth_mem)
  then obtain p where "p \<in> set ps" "host_of p x" "canon4 p"
    using assms(2) set_hosts by (auto simp: list_all_iff)
  moreover from this have "Is4 x" by (auto simp: host_of_iff)
  ultimately show ?thesis using x(1) by (auto simp: pool_host_def list_ex_iff)
qed

lemma first_free_None:
  "list_all canon4 ps \<Longrightarrow> first_free t ps = None \<longleftrightarrow> (\<forall>x. pool_host ps x \<longrightarrow> taken t x)"
  using set_hosts by (fastforce simp: first_free_def find_None_iff pool_host_def list_all_iff list_ex_iff)

lemma placed_inv:
  assumes "sinv now L s" "CHR 0x00 \<notin> set g" "no_row g d (tab s)" "Is4 ip" "\<not> taken (tab s) ip"
  shows "op_ok now L s (placed g d now L s ip) \<and> registered now L (tab (placed g d now L s ip)) g d ip"
proof -
  let ?st = "InsertIgnore g d (AddrString ip) (now + L)" and ?r = "new_row g d ip (now + L)"
  have gs: "good_stmt now L ?st" using assms(2,4) by (elim Is4.elims) auto
  have "\<not> list_ex (conflicts g d (AddrString ip)) (tab s)"
    using assms(3,5) by (auto simp: conflicts_def taken_def no_row_def list_ex_iff)
  then have ex: "snd (exec ?st (tab s)) = tab s @ [?r]" by (simp add: new_row_def)
  have ev: "evolves now L (tab s) (tab s @ [?r])" and ok: "rows_ok now L (tab s @ [?r])"
    using exec_evolves [OF gs sinvD(4) [OF assms(1)]] exec_rows_ok [OF gs sinvD(4) [OF assms(1)]]
    unfolding ex by auto
  have b: "backed now (RememberUntil (cache s) g d ip (now + L)) (tab s @ [?r])"
    using sinvD(1,2) [OF assms(1)] assms(4) backed_evolves [OF sinvD(7) [OF assms(1)] ev]
    by (intro backed_remember) (auto simp: new_row_def row_key_def)
  have st: "stamped now L (lastRenewed s) (tab s @ [?r])" by (rule stamped_evolves [OF sinvD(8) [OF assms(1)] ev])
  have "stamped now L ((lastRenewed s)(alloc_key g d \<mapsto> now)) (tab s @ [?r])"
    unfolding stamped_def
  proof (intro allI impI)
    fix k u assume k: "((lastRenewed s)(alloc_key g d \<mapsto> now)) k = Some u"
    show "zeroTime < u \<and> u \<le> now \<and> (\<forall>r\<in>set (tab s @ [?r]). alloc_key (r_gateway r) (r_domain r) = k \<longrightarrow>
        (\<exists>e. r_expires r = Some e \<and> u + L \<le> e))"
    proof (cases "k = alloc_key g d")
      case True
      have "alloc_key (r_gateway r) (r_domain r) \<noteq> k" if "r \<in> set (tab s)" for r
        using True that assms(2,3) sinvD(4) [OF assms(1)] alloc_key_inject [of "r_gateway r" g]
        by (auto simp: rows_ok_def row_ok_def no_row_def list_ex_iff key_is_def)
      with True k sinvD(1) [OF assms(1)] show ?thesis by (auto simp: new_row_def)
    next
      case False
      with k have "lastRenewed s k = Some u" by simp
      with st show ?thesis unfolding stamped_def by blast
    qed
  qed
  with b ev ok assms(1) have "op_ok now L s (placed g d now L s ip)"
    by (simp add: op_ok_def sinv_def RememberUntil_wf)
  moreover have "registered now L (tab (placed g d now L s ip)) g d ip"
    using sinvD(2) [OF assms(1)] debounce_pos by (intro registeredI [of ?r]) (auto simp: new_row_def row_key_def)
  ultimately show ?thesis by blast
qed

lemma unique_rowD:
  assumes "unique_table t" "r \<in> set t" "q \<in> set t"
  shows "row_key r = row_key q \<Longrightarrow> r = q" "r_ip r = r_ip q \<Longrightarrow> r = q"
  using assms unfolding unique_table_def by (metis distinct_map inj_onD)+

lemma select_key_unique:
  assumes "unique_table t" "r \<in> set t" "row_key r = (g, d)" "live_at now r"
  shows "select_key g d now t = Some r"
proof (cases "select_key g d now t")
  case (Some q)
  have "q \<in> set t" "row_key r = row_key q" using select_key_Some [OF Some] assms(3) by (simp_all add: key_is_row_key)
  with Some unique_rowD(1) [OF assms(1,2)] show ?thesis by blast
qed (use assms in \<open>auto simp: select_key_None key_is_row_key\<close>)

lemma sinv_delete:
  assumes "sinv now L s"
  shows "sinv now L (s\<lparr>tab := filter (live_at now) (tab s)\<rparr>)"
    and "evolves now L (tab s) (filter (live_at now) (tab s))"
proof -
  have "evolves now L (tab s) (filter (live_at now) (tab s))" "rows_ok now L (filter (live_at now) (tab s))"
    using exec_evolves [of now L "DeleteExpired now" "tab s"] exec_rows_ok [of now L "DeleteExpired now" "tab s"]
      sinvD(4) [OF assms] by simp_all
  with assms backed_evolves stamped_evolves show "sinv now L (s\<lparr>tab := filter (live_at now) (tab s)\<rparr>)"
    "evolves now L (tab s) (filter (live_at now) (tab s))"
    by (auto simp: sinv_def)
qed

text \<open>The promise of an allocation against the table before it.\<close>

definition allocate_spec :: "time \<Rightarrow> prefix list \<Rightarrow> string \<Rightarrow> string \<Rightarrow> table \<Rightarrow> addr option \<Rightarrow> bool" where
  "allocate_spec now ps g d t r \<longleftrightarrow>
     (case select_key g d now t of
        Some row \<Rightarrow> (\<exists>ip. r = Some ip \<and> r_ip row = AddrString ip)
      | None \<Rightarrow> r = first_free (filter (live_at now) t) ps)"

definition answer_of :: "answer \<Rightarrow> addr option" where
  "answer_of a = (case a of (ip, None) \<Rightarrow> Some ip | (ip, Some e) \<Rightarrow> None)"

lemma SQL_Allocate_quiet:
  assumes "sinv now L s" "CHR 0x00 \<notin> set g" "list_all canon4 ps" "SQL_Allocate g ps d now L s = (a, s')"
  shows "op_ok now L s s' \<and> allocate_spec now ps g d (tab s) (answer_of a) \<and>
    (case answer_of a of None \<Rightarrow> True | Some ip \<Rightarrow> registered now L (tab s') g d ip \<and> Is4 ip)"
proof -
  obtain hit c where c: "LookupKeyLive (cache s) g d now = (hit, c)" by fastforce
  note inv = sinv_LookupKeyLive [OF assms(1) c]
  note q = sinvD(3) [OF assms(1)] and u = sinvD(5) [OF assms(1)]
  show ?thesis
  proof (cases hit)
    case (Some ip)
    obtain r where r: "c = cache s" "r \<in> set (tab s)" "row_key r = (g, d)" "r_ip r = AddrString ip" "live_at now r"
      "remember g d ip (now + L) s = s"
      using cache_hit [OF assms(1,2)] c Some by metis
    obtain err s1 where n: "renew g d now L False s = (err, s1)" by fastforce
    have "Is4 ip"
      using c Some sinvD(7) [OF assms(1)] unfolding backed_def by (metis LookupKeyLive_Some option.exhaust)
    with assms(4) c Some r n renew_soft [OF assms(1,2) r(2-5) n] select_key_unique [OF u r(2,3,5)] show ?thesis
      by (auto simp: SQL_Allocate_def op_ok_def answer_of_def allocate_spec_def)
  next
    case miss: None
    show ?thesis
    proof (cases "select_key g d now (tab s)")
      case (Some r)
      note r = select_key_Some [OF Some]
      obtain w where w: "r_ip r = string4 w" using row_ip_parses [OF assms(1)] r by blast
      let ?s = "s\<lparr>cache := c\<rparr>"
      obtain err s1 where n: "renew g d now L True (remember g d (V4 w) (now + L) ?s) = (err, s1)" by fastforce
      from assms(4) c miss Some q r w n renew_hard [OF inv assms(2), of "V4 w" r d, OF _ _ _ _ n] show ?thesis
        by (auto simp: SQL_Allocate_def op_ok_def answer_of_def allocate_spec_def)
    next
      case None
      let ?s = "s\<lparr>cache := c, tab := filter (live_at now) (tab s)\<rparr>"
      have i2: "sinv now L ?s" "evolves now L (tab s) (tab ?s)" using sinv_delete [OF inv] by simp_all
      have nr: "no_row g d (tab ?s)" using None by (auto simp: no_row_def list_ex_iff select_key_None)
      have loop: "(a, s') = insert_ranges g d now L ps ?s"
        using assms(4) c miss None q by (simp add: SQL_Allocate_def)
      note ins = insert_ranges_quiet [OF _ nr assms(3) sinvD(2) [OF assms(1)], of now]
      show ?thesis
      proof (cases "first_free (tab ?s) ps")
        case None
        with ins loop q i2 \<open>select_key g d now (tab s) = None\<close> show ?thesis
          by (simp add: op_ok_def answer_of_def allocate_spec_def)
      next
        case (Some x)
        note x = first_free_host [OF Some assms(3)]
        from placed_inv [OF i2(1) assms(2) nr, of x] x Some ins loop q i2 None show ?thesis
          by (auto simp: op_ok_def answer_of_def allocate_spec_def elim: evolves_trans
              simp del: placed_frame)
      qed
    qed
  qed
qed

section \<open>A fleet of processes sharing the registry\<close>

text \<open>
  Several DNS processes with their caches, the shared table and a clock that does not run
  backwards. An operation of one process runs between the operations of the others; a process
  may restart with an empty cache at any moment. The gateway keys are those of allocation pools
  and the prefixes are IPv4.
\<close>

record fleet =
  fl_table :: table
  fl_clock :: time
  fl_cache :: "nat \<Rightarrow> Allocator"
  fl_renewed :: "nat \<Rightarrow> string \<rightharpoonup> time"

definition fleet_start :: "time \<Rightarrow> fleet" where
  "fleet_start now = \<lparr>fl_table = [], fl_clock = now, fl_cache = (\<lambda>_. NewAllocator), fl_renewed = (\<lambda>_. Map.empty)\<rparr>"

definition view :: "fleet \<Rightarrow> nat \<Rightarrow> store" where
  "view f i = \<lparr>cache = fl_cache f i, lastRenewed = fl_renewed f i, tab = fl_table f, script = []\<rparr>"

definition commit :: "fleet \<Rightarrow> nat \<Rightarrow> store \<Rightarrow> fleet" where
  "commit f i s = f\<lparr>fl_table := tab s, fl_cache := (fl_cache f)(i := cache s),
     fl_renewed := (fl_renewed f)(i := lastRenewed s)\<rparr>"

inductive fleet_step :: "duration \<Rightarrow> fleet \<Rightarrow> fleet \<Rightarrow> bool" for L where
  tick: "fl_clock f \<le> t \<Longrightarrow> fleet_step L f (f\<lparr>fl_clock := t\<rparr>)"
| allocate: "CHR 0x00 \<notin> set g \<Longrightarrow> list_all canon4 ps \<Longrightarrow>
    fleet_step L f (commit f i (snd (SQL_Allocate g ps d (fl_clock f) L (view f i))))"
| lookup_key: "CHR 0x00 \<notin> set g \<Longrightarrow>
    fleet_step L f (commit f i (snd (SQL_LookupKey g d (fl_clock f) L (view f i))))"
| lookup: "Is4 ip \<Longrightarrow> fleet_step L f (commit f i (snd (SQL_Lookup ip (fl_clock f) L (view f i))))"
| restart: "fleet_step L f (f\<lparr>fl_cache := (fl_cache f)(i := NewAllocator), fl_renewed := (fl_renewed f)(i := Map.empty)\<rparr>)"

inductive_cases fleet_stepE: "fleet_step L f f'"

definition fleet_inv :: "duration \<Rightarrow> fleet \<Rightarrow> bool" where
  "fleet_inv L f \<longleftrightarrow> (\<forall>i. sinv (fl_clock f) L (view f i))"

lemma view_fields [simp]:
  "cache (view f i) = fl_cache f i" "lastRenewed (view f i) = fl_renewed f i"
  "tab (view f i) = fl_table f" "script (view f i) = []"
  by (simp_all add: view_def)

lemma fleet_start_inv: "zeroTime < now \<Longrightarrow> 0 < L \<Longrightarrow> fleet_inv L (fleet_start now)"
  by (simp add: fleet_inv_def sinv_def rows_ok_def unique_table_def fleet_start_def backed_def stamped_def
      alloc_wf_new) (simp add: NewAllocator_def)

lemma sinv_empty_cache:
  "sinv now L s \<Longrightarrow> sinv now L (s\<lparr>cache := NewAllocator, lastRenewed := Map.empty\<rparr>)"
  by (simp add: sinv_def alloc_wf_new) (simp add: backed_def stamped_def NewAllocator_def)

lemma commit_inv:
  assumes "fleet_inv L f" "op_ok (fl_clock f) L (view f i) s"
  shows "fleet_inv L (commit f i s)"
  unfolding fleet_inv_def
proof
  fix j
  have j: "sinv (fl_clock f) L (view f j)" using assms(1) by (simp add: fleet_inv_def)
  have s: "sinv (fl_clock f) L s" "evolves (fl_clock f) L (fl_table f) (tab s)"
    using assms(2) by (simp_all add: op_ok_def)
  show "sinv (fl_clock (commit f i s)) L (view (commit f i s) j)"
    using s j backed_evolves [OF _ s(2)] stamped_evolves [OF _ s(2)]
    by (cases "j = i") (simp_all add: sinv_def commit_def view_def)
qed

lemma fleet_step_inv:
  assumes "fleet_step L f f'" "fleet_inv L f"
  shows "fleet_inv L f'"
proof -
  have v: "sinv (fl_clock f) L (view f i)" for i using assms(2) by (simp add: fleet_inv_def)
  show ?thesis
    using assms(1)
  proof cases
    case (tick t)
    then show ?thesis
      using v by (auto simp: fleet_inv_def sinv_def view_def intro: rows_ok_tick backed_tick stamped_tick less_le_trans)
  next
    case (allocate g ps i d)
    then show ?thesis
      using SQL_Allocate_quiet [OF v, of g ps d] by (metis commit_inv [OF assms(2)] prod.collapse)
  next
    case (lookup_key g i d)
    then show ?thesis
      using SQL_LookupKey_quiet [OF v, of g d] by (metis commit_inv [OF assms(2)] prod.collapse)
  next
    case (lookup ip i)
    then show ?thesis
      using SQL_Lookup_quiet [OF v, of ip] by (metis commit_inv [OF assms(2)] prod.collapse)
  next
    case (restart i)
    have "sinv (fl_clock f') L (view f' j)" for j
      using v [of j] sinv_empty_cache [OF v, of i] restart by (cases "j = i") (simp_all add: view_def)
    then show ?thesis by (simp add: fleet_inv_def)
  qed
qed

lemma fleet_reachable_inv:
  "(fleet_step L)\<^sup>*\<^sup>* f f' \<Longrightarrow> fleet_inv L f \<Longrightarrow> fleet_inv L f'"
  by (induction rule: rtranclp_induct) (auto intro: fleet_step_inv)

lemma live_entry_row:
  assumes "fleet_inv L f" "CHR 0x00 \<notin> set g" "fst (LookupKeyLive (fl_cache f i) g d (fl_clock f)) = Some ip"
  obtains r w where "r \<in> set (fl_table f)" "row_key r = (g, d)" "r_ip r = AddrString ip" "ip = V4 w"
proof -
  have v: "sinv (fl_clock f) L (view f i)" using assms(1) by (simp add: fleet_inv_def)
  obtain c where c: "LookupKeyLive (cache (view f i)) g d (fl_clock f) = (Some ip, c)"
    using assms(3) by (cases "LookupKeyLive (fl_cache f i) g d (fl_clock f)") auto
  have "Is4 ip"
    using c sinvD(7) [OF v] unfolding backed_def by (metis LookupKeyLive_Some option.exhaust)
  then obtain w where "ip = V4 w" by (elim Is4.elims) auto
  with cache_hit [OF v assms(2) c] that show ?thesis by (metis view_fields(3))
qed

section \<open>Properties of the registry\<close>

definition day :: time where
  "day = 1700000000000000000"

definition hour :: duration where
  "hour = 3600 * 1000000000"

definition demo_pool :: "prefix list" where
  "demo_pool = [Pfx (V4 0x0A400000) 30]"

definition demo_store :: "event list \<Rightarrow> store" where
  "demo_store es = \<lparr>cache = NewAllocator, lastRenewed = Map.empty, tab = [], script = es\<rparr>"





definition demo_key :: string where
  "demo_key = rangeKey demo_pool"

definition demo_fleet :: fleet where
  "demo_fleet = commit (fleet_start day) 0
     (snd (SQL_Allocate demo_key demo_pool ''a'' day hour (view (fleet_start day) 0)))"

definition demo_fleet2 :: fleet where
  "demo_fleet2 = commit demo_fleet 1
     (snd (SQL_Allocate demo_key demo_pool ''b'' day hour (view demo_fleet 1)))"

lemma demo_fleet_clock: "fl_clock (fleet_start day) = day" "fl_clock demo_fleet = day" "fl_clock demo_fleet2 = day"
  by (simp_all add: fleet_start_def demo_fleet_def demo_fleet2_def commit_def)

lemma demo_steps:
  shows "(fleet_step hour)\<^sup>*\<^sup>* (fleet_start day) demo_fleet" and "(fleet_step hour)\<^sup>*\<^sup>* (fleet_start day) demo_fleet2"
proof -
  have k: "CHR 0x00 \<notin> set demo_key" "list_all canon4 demo_pool" by code_simp+
  have a: "fleet_step hour (fleet_start day) demo_fleet"
    using fleet_step.allocate [OF k, of hour "fleet_start day" 0 "''a''"] by (simp add: demo_fleet_def demo_fleet_clock)
  have b: "fleet_step hour demo_fleet demo_fleet2"
    using fleet_step.allocate [OF k, of hour demo_fleet 1 "''b''"] by (simp add: demo_fleet2_def demo_fleet_clock)
  show "(fleet_step hour)\<^sup>*\<^sup>* (fleet_start day) demo_fleet" using a by (rule r_into_rtranclp)
  then show "(fleet_step hour)\<^sup>*\<^sup>* (fleet_start day) demo_fleet2" using b by (rule rtranclp.rtrancl_into_rtrancl)
qed

lemma demo_times: "zeroTime < day" "0 < hour"
  by (simp_all add: zeroTime_def day_def hour_def)



definition minute :: duration where
  "minute = 60 * 1000000000"

definition lost_renewal :: "answer \<times> store" where
  "lost_renewal = SQL_Allocate demo_key demo_pool ''a'' day hour
     ((demo_store [Event [] NoFault, Event [] FailBefore])\<lparr>tab := [new_row demo_key ''a'' (V4 0x0A400001) (day + minute)]\<rparr>)"

definition other_process :: "answer \<times> store" where
  "other_process = SQL_Allocate demo_key demo_pool ''b'' (day + 2 * minute) hour
     ((demo_store [])\<lparr>tab := tab (snd lost_renewal)\<rparr>)"
text \<open>
  A renewal that fails is forgotten, and then an address can serve two names. A process
  that finds a name's row one minute before it expires caches it for a whole lease before it
  renews the row; when that update fails, the error is reported once, but the cache keeps the
  entry and the renewal counts as done. Two minutes later another process has removed the row
  and given the address to another name, and the first process still answers it, without error,
  for the old name.
\<close>

theorem failed_renewal_shares_address:
  "fst lost_renewal = (V4 0x0A400001, Some dbError) \<and>
   fst other_process = (V4 0x0A400001, None) \<and>
   fst (SQL_LookupKey demo_key ''a'' (day + 2 * minute) hour
          ((snd lost_renewal)\<lparr>tab := tab (snd other_process)\<rparr>)) = (Some (V4 0x0A400001), None) \<and>
   fst (SQL_Lookup (V4 0x0A400001) (day + 2 * minute) hour (snd other_process)) =
     (Some \<lparr>map_gateway = demo_key, map_domain = ''b''\<rparr>, None)"
  by (intro conjI) code_simp+

lemma FillNull_rows:
  assumes "t' = snd (exec (FillNull e) t)"
  shows "map row_key t' = map row_key t" "map r_ip t' = map r_ip t"
    "list_all2 (\<lambda>r r'. r_expires r' = (case r_expires r of None \<Rightarrow> Some e | x \<Rightarrow> x)) t t'"
  using assms by (auto simp: list_all2_map2 list.rel_refl_strong split: option.splits)

lemma OpenAllocationStore_opens:
  "isl (OpenAllocationStore url_Parse faults now databases databaseURL) \<longleftrightarrow>
     open_fails faults \<or> ping_fails faults \<or> create_fails faults \<or> fill_fails faults \<or>
     (case url_Parse databaseURL of
        None \<Rightarrow> True
      | Some u \<Rightarrow>
          if u_scheme u = ''sqlite''
          then pragma_fails faults \<or> u_user u \<or> u_raw_query u \<noteq> [] \<or> u_fragment u \<noteq> [] \<or>
               (u_host u = [] \<and> u_path u = [])
          else u_scheme u \<noteq> ''postgres'')"
  by (auto simp: OpenAllocationStore_def driver_dsn_def sqlitePath_def Let_def split: option.splits sum.splits)

text \<open>
  C38: Opening a store migrates it without loss. For a URL of one of the two supported schemes
  and a database whose calls work, the opened table has the rows of the old one in the same
  order with the same names and addresses; rows that had no expiry get one an hour ahead and
  the others keep theirs. Uniqueness carries over, no renewal is recorded yet, and a missing
  table is an empty one. Opening fails only when a database call fails, the URL does not parse,
  names another scheme, or is a SQLite URL with credentials, a query, a fragment or no path.
\<close>

theorem OpenAllocationStore_migrates:
  "case OpenAllocationStore url_Parse faults now databases databaseURL of
     Inl e \<Rightarrow>
       open_fails faults \<or> ping_fails faults \<or> create_fails faults \<or> fill_fails faults \<or>
       (case url_Parse databaseURL of
          None \<Rightarrow> True
        | Some u \<Rightarrow>
            if u_scheme u = ''sqlite''
            then pragma_fails faults \<or> u_user u \<or> u_raw_query u \<noteq> [] \<or> u_fragment u \<noteq> [] \<or>
                 (u_host u = [] \<and> u_path u = [])
            else u_scheme u \<noteq> ''postgres'')
   | Inr (driver, ren, t') \<Rightarrow>
       (\<exists>u dsn. url_Parse databaseURL = Some u \<and>
          (u_scheme u = ''sqlite'' \<and> driver = ''sqlite'' \<and> sqlitePath u = Inr dsn \<and>
             \<not> u_user u \<and> u_raw_query u = [] \<and> u_fragment u = [] \<and> dsn \<noteq> [] \<or>
           u_scheme u = ''postgres'' \<and> driver = ''pgx'' \<and> dsn = databaseURL) \<and>
          (let t = (case databases dsn of None \<Rightarrow> [] | Some t \<Rightarrow> t) in
           map row_key t' = map row_key t \<and> map r_ip t' = map r_ip t \<and>
           (unique_table t' \<longleftrightarrow> unique_table t) \<and> ren = Map.empty \<and>
           list_all2 (\<lambda>r r'. r_expires r' =
             (case r_expires r of None \<Rightarrow> Some (now + hour) | x \<Rightarrow> x)) t t'))"
proof (cases "OpenAllocationStore url_Parse faults now databases databaseURL")
  case (Inr r)
  obtain driver ren t' where r: "r = (driver, ren, t')" by (cases r)
  from Inr r obtain u dsn where u: "url_Parse databaseURL = Some u" "driver_dsn u databaseURL = Inr (driver, dsn)"
    and t': "t' = snd (exec (FillNull (now + hour)) (case databases dsn of None \<Rightarrow> [] | Some t \<Rightarrow> t))" "ren = Map.empty"
    by (auto simp: OpenAllocationStore_def hour_def Let_def simp del: exec.simps split: option.splits sum.splits if_splits)
  have "u_scheme u = ''sqlite'' \<and> driver = ''sqlite'' \<and> sqlitePath u = Inr dsn \<and>
             \<not> u_user u \<and> u_raw_query u = [] \<and> u_fragment u = [] \<and> dsn \<noteq> [] \<or>
           u_scheme u = ''postgres'' \<and> driver = ''pgx'' \<and> dsn = databaseURL"
    using u(2) by (auto simp: driver_dsn_def sqlitePath_def Let_def split: sum.splits if_splits)
  with u(1) t' Inr r FillNull_rows [OF t'(1)] show ?thesis
    by (auto simp: Let_def unique_table_def simp del: exec.simps)
next
  case (Inl e)
  then show ?thesis
    using OpenAllocationStore_opens [of url_Parse faults now databases databaseURL] by simp
qed

definition demo_url :: url where
  "demo_url = \<lparr>u_scheme = ''sqlite'', u_user = False, u_host = ''state'', u_path = ''/gateway.db'',
     u_raw_query = [], u_fragment = []\<rparr>"

definition no_open_faults :: open_faults where
  "no_open_faults = \<lparr>open_fails = False, ping_fails = False, pragma_fails = False, create_fails = False,
     fill_fails = False\<rparr>"

definition old_row :: arow where
  "old_row = \<lparr>r_gateway = ''g'', r_domain = ''a'', r_ip = ''10.64.0.1'', r_expires = None\<rparr>"

theorem OpenAllocationStore_migrates_witness:
  "\<exists>t. OpenAllocationStore (\<lambda>s. Some demo_url) no_open_faults day
         (\<lambda>f. if f = ''state/gateway.db'' then Some [old_row] else None) ''sqlite://state/gateway.db'' =
       Inr (''sqlite'', Map.empty, t) \<and> map row_key t = [(''g'', ''a'')] \<and>
     list_all2 (\<lambda>r r'. r_expires r' = (case r_expires r of None \<Rightarrow> Some (day + hour) | x \<Rightarrow> x)) [old_row] t"
proof -
  let ?open = "OpenAllocationStore (\<lambda>s. Some demo_url) no_open_faults day
         (\<lambda>f. if f = ''state/gateway.db'' then Some [old_row] else None) ''sqlite://state/gateway.db''"
  have p: "sqlitePath demo_url = Inr ''state/gateway.db''" by code_simp
  have s: "u_scheme demo_url = ''sqlite''" by (simp add: demo_url_def)
  obtain d m t where o: "?open = Inr (d, m, t)"
    using p s by (simp add: OpenAllocationStore_def driver_dsn_def no_open_faults_def Let_def)
  from OpenAllocationStore_migrates [where url_Parse = "\<lambda>s. Some demo_url" and
      faults = no_open_faults and now = day and databaseURL = "''sqlite://state/gateway.db''" and
      databases = "\<lambda>f. if f = ''state/gateway.db'' then Some [old_row] else None"]
  show ?thesis unfolding o using p s by (auto simp: Let_def row_key_def old_row_def)
qed

end
