(* ===== verification/Lifecycle.thy ===== *)
theory Lifecycle
  imports SqlStore
begin

text \<open>
  \<^verbatim>\<open>AllocationLifecycle\<close> and the \<^verbatim>\<open>AllocationStore\<close> interface of
  \<^verbatim>\<open>internal/domain/state.go\<close>. The interface is a record of operations over some state, its
  contract a locale: the operations keep an invariant and what the store holds, an answer is
  held, and what is held is found again by name and by address. The lemmas about the lifecycle
  are proved once in the locale; it is interpreted on the SQL store and on the plain allocator,
  which is what the lifecycle uses when it has no store.
\<close>

section \<open>The interface\<close>

record 's store_ops =
  op_lookup_key :: "string \<Rightarrow> string \<Rightarrow> time \<Rightarrow> duration \<Rightarrow> 's \<Rightarrow> addr found \<times> 's"
  op_allocate :: "string \<Rightarrow> prefix list \<Rightarrow> string \<Rightarrow> time \<Rightarrow> duration \<Rightarrow> 's \<Rightarrow> answer \<times> 's"
  op_lookup :: "addr \<Rightarrow> time \<Rightarrow> duration \<Rightarrow> 's \<Rightarrow> Mapping found \<times> 's"

definition sql_ops :: "store store_ops" where
  "sql_ops = \<lparr>op_lookup_key = SQL_LookupKey, op_allocate = SQL_Allocate, op_lookup = SQL_Lookup\<rparr>"

text \<open>The allocator itself as a store, without expiry renewal and without errors but exhaustion.\<close>

definition mem_allocate ::
  "string \<Rightarrow> prefix list \<Rightarrow> string \<Rightarrow> time \<Rightarrow> duration \<Rightarrow> Allocator \<Rightarrow> answer \<times> Allocator" where
  "mem_allocate g ps d now lease a =
     (case Allocate a g ps d of
        (Inl e, a') \<Rightarrow> ((NoAddr, Some e), a')
      | (Inr ip, a') \<Rightarrow> ((ip, None), a'))"

definition mem_ops :: "Allocator store_ops" where
  "mem_ops =
     \<lparr>op_lookup_key = (\<lambda>g d now lease a. case LookupKeyLive a g d now of (r, a') \<Rightarrow> ((r, None), a')),
      op_allocate = mem_allocate,
      op_lookup = (\<lambda>ip now lease a. ((Lookup a ip, None), a))\<rparr>"

section \<open>The lifecycle\<close>

record AllocationLifecycle =
  lc_path :: string
  lc_lease :: duration

definition lease :: "AllocationLifecycle \<Rightarrow> duration" where
  "lease l = (if 0 < lc_lease l then lc_lease l else 3600 * 1000000000)"

text \<open>\<open>Allocate\<close> and \<open>Lookup\<close> with a store.\<close>

definition store_Allocate ::
  "'s store_ops \<Rightarrow> string \<Rightarrow> prefix list \<Rightarrow> string \<Rightarrow> time \<Rightarrow> duration \<Rightarrow> 's \<Rightarrow> answer \<times> 's" where
  "store_Allocate ops g ps d now L s =
     (case op_lookup_key ops g d now L s of
        ((found, err), s1) \<Rightarrow>
          if err \<noteq> None \<or> found \<noteq> None
          then ((case found of None \<Rightarrow> NoAddr | Some ip \<Rightarrow> ip, err), s1)
          else op_allocate ops g ps d now L s1)"

definition store_Lookup :: "'s store_ops \<Rightarrow> addr \<Rightarrow> time \<Rightarrow> duration \<Rightarrow> 's \<Rightarrow> Mapping option \<times> 's" where
  "store_Lookup ops ip now L s =
     (case op_lookup ops ip now L s of
        ((found, err), s1) \<Rightarrow> (if err = None then found else None, s1))"

text \<open>
  A process's allocation state: the store with the allocator in its cache field, and the file
  system. Whether there is a store is the flag; without one a fresh allocation is saved to the
  state path, if there is one, and the error of saving is the error of the allocation.
\<close>

record node =
  n_store :: store
  n_fs :: "string \<Rightarrow> file_state"

definition Lifecycle_Allocate ::
  "bool \<Rightarrow> (Allocator \<Rightarrow> (string \<Rightarrow> file_state) \<Rightarrow> bool \<times> (string \<Rightarrow> file_state)) \<Rightarrow>
     AllocationLifecycle \<Rightarrow> time \<Rightarrow> string \<Rightarrow> prefix list \<Rightarrow> string \<Rightarrow> node \<Rightarrow> answer \<times> node" where
  "Lifecycle_Allocate has_store save l now g ps d n =
     (if has_store
      then (case store_Allocate sql_ops g ps d now (lease l) (n_store n) of
              (a, s') \<Rightarrow> (a, n\<lparr>n_store := s'\<rparr>))
      else (case LookupKeyLive (cache (n_store n)) g d now of
              (Some ip, c) \<Rightarrow> ((ip, None), n\<lparr>n_store := (n_store n)\<lparr>cache := c\<rparr>\<rparr>)
            | (None, c) \<Rightarrow>
                (case Allocate c g ps d of
                   (Inl e, c') \<Rightarrow> ((NoAddr, Some e), n\<lparr>n_store := (n_store n)\<lparr>cache := c'\<rparr>\<rparr>)
                 | (Inr ip, c') \<Rightarrow>
                     let n' = n\<lparr>n_store := (n_store n)\<lparr>cache := c'\<rparr>\<rparr> in
                     if lc_path l \<noteq> []
                     then (case save c' (n_fs n) of
                             (ok, fs) \<Rightarrow> ((ip, if ok then None else Some ''save''), n'\<lparr>n_fs := fs\<rparr>))
                     else ((ip, None), n'))))"

definition Lifecycle_Lookup ::
  "bool \<Rightarrow> AllocationLifecycle \<Rightarrow> time \<Rightarrow> addr \<Rightarrow> node \<Rightarrow> Mapping option \<times> node" where
  "Lifecycle_Lookup has_store l now ip n =
     (if \<not> has_store then (Lookup (cache (n_store n)) ip, n)
      else (case store_Lookup sql_ops ip now (lease l) (n_store n) of
              (m, s') \<Rightarrow> (m, n\<lparr>n_store := s'\<rparr>)))"

section \<open>The contract\<close>

locale allocation_store =
  fixes ops :: "'s store_ops"
    and inv :: "time \<Rightarrow> duration \<Rightarrow> 's \<Rightarrow> bool"
    and holds :: "time \<Rightarrow> duration \<Rightarrow> 's \<Rightarrow> string \<Rightarrow> string \<Rightarrow> addr \<Rightarrow> bool"
    and key_ok :: "string \<Rightarrow> bool"
    and pool_ok :: "string \<Rightarrow> prefix list \<Rightarrow> bool"
  assumes pool_key: "pool_ok g ps \<Longrightarrow> key_ok g"
    and lookup_key_law: "inv now L s \<Longrightarrow> key_ok g \<Longrightarrow> op_lookup_key ops g d now L s = ((found, err), s') \<Longrightarrow>
      err = None \<and> inv now L s' \<and> (\<forall>h e x. holds now L s h e x \<longrightarrow> holds now L s' h e x) \<and>
      (\<forall>ip. found = Some ip \<longrightarrow> holds now L s' g d ip)"
    and lookup_key_found: "inv now L s \<Longrightarrow> key_ok g \<Longrightarrow> holds now L s g d ip \<Longrightarrow>
      fst (op_lookup_key ops g d now L s) = (Some ip, None)"
    and allocate_law: "inv now L s \<Longrightarrow> pool_ok g ps \<Longrightarrow> op_allocate ops g ps d now L s = (a, s') \<Longrightarrow>
      inv now L s' \<and> (\<forall>h e x. holds now L s h e x \<longrightarrow> holds now L s' h e x) \<and>
      (\<forall>ip. answer_of a = Some ip \<longrightarrow> holds now L s' g d ip)"
    and lookup_law: "inv now L s \<Longrightarrow> Is4 ip \<Longrightarrow> op_lookup ops ip now L s = ((owner, err), s') \<Longrightarrow>
      err = None \<and> inv now L s' \<and> (\<forall>h e x. holds now L s h e x \<longrightarrow> holds now L s' h e x) \<and>
      (\<forall>m. owner = Some m \<longrightarrow> holds now L s' (map_gateway m) (map_domain m) ip)"
    and lookup_found: "inv now L s \<Longrightarrow> holds now L s g d ip \<Longrightarrow>
      Is4 ip \<and> fst (op_lookup ops ip now L s) = (Some \<lparr>map_gateway = g, map_domain = d\<rparr>, None)"
begin

lemma held_address_unique:
  "inv now L s \<Longrightarrow> key_ok g \<Longrightarrow> holds now L s g d x \<Longrightarrow> holds now L s g d y \<Longrightarrow> x = y"
  using lookup_key_found [of now L s g d x] lookup_key_found [of now L s g d y] by simp

lemma held_name_unique:
  "inv now L s \<Longrightarrow> holds now L s g d ip \<Longrightarrow> holds now L s h e ip \<Longrightarrow> g = h \<and> d = e"
  using lookup_found [of now L s g d ip] lookup_found [of now L s h e ip] by simp

lemma store_Allocate_law:
  assumes "inv now L s" "pool_ok g ps" "store_Allocate ops g ps d now L s = (a, s')"
  shows "inv now L s' \<and> (\<forall>h e x. holds now L s h e x \<longrightarrow> holds now L s' h e x) \<and>
    (\<forall>ip. answer_of a = Some ip \<longrightarrow> holds now L s' g d ip)"
proof -
  obtain found err s1 where k: "op_lookup_key ops g d now L s = ((found, err), s1)"
    by (metis prod.collapse)
  note law = lookup_key_law [OF assms(1) pool_key [OF assms(2)] k]
  show ?thesis
  proof (cases found)
    case None
    with k law assms(3) have "op_allocate ops g ps d now L s1 = (a, s')" by (simp add: store_Allocate_def)
    from allocate_law [OF _ assms(2) this] law show ?thesis by blast
  next
    case (Some ip)
    with k law assms(3) have "a = (ip, None)" "s' = s1" by (auto simp: store_Allocate_def)
    with law Some show ?thesis by (auto simp: answer_of_def)
  qed
qed

text \<open>Asking again gives the same address.\<close>

lemma store_Allocate_again:
  assumes "inv now L s" "pool_ok g ps" "holds now L s g d ip"
  shows "answer_of (fst (store_Allocate ops g ps d now L s)) = Some ip"
proof -
  obtain s1 where "op_lookup_key ops g d now L s = ((Some ip, None), s1)"
    using lookup_key_found [OF assms(1) pool_key [OF assms(2)] assms(3)] by (metis prod.collapse)
  then show ?thesis by (simp add: store_Allocate_def answer_of_def)
qed

text \<open>The reverse lookup of an answered address gives the name it was answered for.\<close>

lemma store_Lookup_held:
  assumes "inv now L s" "holds now L s g d ip"
  shows "fst (store_Lookup ops ip now L s) = Some \<lparr>map_gateway = g, map_domain = d\<rparr>"
proof -
  obtain s1 where "op_lookup ops ip now L s = ((Some \<lparr>map_gateway = g, map_domain = d\<rparr>, None), s1)"
    using lookup_found [OF assms] by (metis prod.collapse)
  then show ?thesis by (simp add: store_Lookup_def)
qed

lemma store_Lookup_law:
  assumes "inv now L s" "Is4 ip" "store_Lookup ops ip now L s = (found, s')"
  shows "inv now L s' \<and> (\<forall>h e x. holds now L s h e x \<longrightarrow> holds now L s' h e x) \<and>
    (\<forall>m. found = Some m \<longrightarrow> holds now L s' (map_gateway m) (map_domain m) ip)"
proof -
  obtain f err s1 where k: "op_lookup ops ip now L s = ((f, err), s1)" by (metis prod.collapse)
  with lookup_law [OF assms(1,2) k] assms(3) show ?thesis by (auto simp: store_Lookup_def)
qed

text \<open>An answered name resolves back from its address, at once.\<close>

lemma allocate_then_lookup:
  assumes "inv now L s" "pool_ok g ps" "store_Allocate ops g ps d now L s = ((ip, None), s')"
  shows "fst (store_Lookup ops ip now L s') = Some \<lparr>map_gateway = g, map_domain = d\<rparr> \<and>
    answer_of (fst (store_Allocate ops g ps d now L s')) = Some ip"
proof -
  have "inv now L s'" "holds now L s' g d ip"
    using store_Allocate_law [OF assms] by (auto simp: answer_of_def)
  then show ?thesis using store_Lookup_held store_Allocate_again assms(2) by blast
qed

end

section \<open>The SQL store keeps the contract\<close>

definition sql_holds :: "time \<Rightarrow> duration \<Rightarrow> store \<Rightarrow> string \<Rightarrow> string \<Rightarrow> addr \<Rightarrow> bool" where
  "sql_holds now L s g d ip \<longleftrightarrow> registered now L (tab s) g d ip \<and> Is4 ip"

definition sql_key_ok :: "string \<Rightarrow> bool" where
  "sql_key_ok g \<longleftrightarrow> CHR 0x00 \<notin> set g"

definition sql_pool_ok :: "string \<Rightarrow> prefix list \<Rightarrow> bool" where
  "sql_pool_ok g ps \<longleftrightarrow> sql_key_ok g \<and> list_all canon4 ps"

lemma registeredE:
  assumes "registered now L t g d ip"
  obtains r e where "r \<in> set t" "row_key r = (g, d)" "r_ip r = AddrString ip" "r_expires r = Some e"
    "now < e" "now + L - renewalDebounce < e"
  using assms by (auto simp: registered_def list_ex_iff key_is_row_key elim!: live_atE)

lemma registered_evolves:
  assumes "registered now L t g d ip" "evolves now L t t'"
  shows "registered now L t' g d ip"
proof -
  obtain r e where r: "r \<in> set t" "row_key r = (g, d)" "r_ip r = AddrString ip" "r_expires r = Some e"
    "now < e" "now + L - renewalDebounce < e" using assms(1) by (rule registeredE)
  then obtain r' where "r' \<in> set t'" "later_row r r'" using assms(2) unfolding evolves_def by auto
  with r show ?thesis by (auto simp: later_row_def intro: registeredI)
qed

lemma sql_holds_op: "op_ok now L s s' \<Longrightarrow> sql_holds now L s g d ip \<Longrightarrow> sql_holds now L s' g d ip"
  by (auto simp: sql_holds_def op_ok_def intro: registered_evolves)

lemma sql_holds_unique:
  assumes "sinv now L s" "sql_holds now L s g d x" "sql_holds now L s h e y"
  shows "(g = h \<and> d = e) = (x = y)"
proof -
  obtain v w where vw: "x = V4 v" "y = V4 w" using assms(2,3) by (auto simp: sql_holds_def elim!: Is4.elims)
  obtain r where r: "r \<in> set (tab s)" "row_key r = (g, d)" "r_ip r = AddrString x"
    using assms(2) by (auto simp: sql_holds_def elim: registeredE)
  obtain q where q: "q \<in> set (tab s)" "row_key q = (h, e)" "r_ip q = AddrString y"
    using assms(3) by (auto simp: sql_holds_def elim: registeredE)
  show ?thesis using unique_rowD [OF sinvD(5) [OF assms(1)] r(1) q(1)] r q vw by auto
qed

lemma sql_lookup_key_found:
  assumes "sinv now L s" "sql_key_ok g" "sql_holds now L s g d ip"
  shows "fst (SQL_LookupKey g d now L s) = (Some ip, None)"
proof -
  obtain found err s' where k: "SQL_LookupKey g d now L s = ((found, err), s')" by (metis prod.collapse)
  note q = SQL_LookupKey_quiet [OF assms(1) _ k] and nul = assms(2) [unfolded sql_key_ok_def]
  have h: "sql_holds now L s' g d ip" using q nul sql_holds_op assms(3) by blast
  obtain r e where r: "r \<in> set (tab s)" "row_key r = (g, d)" "r_expires r = Some e" "now < e"
    using assms(3) by (auto simp: sql_holds_def elim: registeredE)
  have "select_key g d now (tab s) \<noteq> None" using r by (auto simp: select_key_None key_is_row_key)
  with q nul obtain x where x: "found = Some x" "sql_holds now L s' g d x" "sinv now L s'"
    by (cases found) (auto simp: sql_holds_def op_ok_def)
  with sql_holds_unique [OF x(3) h x(2)] q nul k show ?thesis by simp
qed

lemma sql_lookup_found:
  assumes "sinv now L s" "sql_holds now L s g d ip"
  shows "Is4 ip \<and> fst (SQL_Lookup ip now L s) = (Some \<lparr>map_gateway = g, map_domain = d\<rparr>, None)"
proof -
  have i: "Is4 ip" using assms(2) by (simp add: sql_holds_def)
  obtain found err s' where k: "SQL_Lookup ip now L s = ((found, err), s')" by (metis prod.collapse)
  note q = SQL_Lookup_quiet [OF assms(1) i k]
  have h: "sql_holds now L s' g d ip" using q sql_holds_op assms(2) by blast
  obtain r e where r: "r \<in> set (tab s)" "r_ip r = AddrString ip" "r_expires r = Some e" "now < e"
    using assms(2) by (auto simp: sql_holds_def elim: registeredE)
  have "select_ip (AddrString ip) now (tab s) \<noteq> None" using r by (auto simp: select_ip_def find_None_iff)
  with q i obtain m where m: "found = Some m" "sql_holds now L s' (map_gateway m) (map_domain m) ip" "sinv now L s'"
    by (cases found) (auto simp: sql_holds_def op_ok_def)
  from sql_holds_unique [OF m(3) h m(2)] have "m = \<lparr>map_gateway = g, map_domain = d\<rparr>" by (cases m) auto
  with q m i k show ?thesis by simp
qed

interpretation sql: allocation_store sql_ops sinv sql_holds sql_key_ok sql_pool_ok
proof
  fix now L s g ps d a s' found err ip
  show "sql_pool_ok g ps \<Longrightarrow> sql_key_ok g" by (simp add: sql_pool_ok_def)
  show "sinv now L s \<Longrightarrow> sql_key_ok g \<Longrightarrow> op_lookup_key sql_ops g d now L s = ((found, err), s') \<Longrightarrow>
      err = None \<and> sinv now L s' \<and> (\<forall>h e x. sql_holds now L s h e x \<longrightarrow> sql_holds now L s' h e x) \<and>
      (\<forall>ip. found = Some ip \<longrightarrow> sql_holds now L s' g d ip)"
    using SQL_LookupKey_quiet [of now L s g d found err s'] sql_holds_op [of now L s s']
    by (auto simp: sql_ops_def sql_key_ok_def op_ok_def sql_holds_def)
  show "sinv now L s \<Longrightarrow> sql_key_ok g \<Longrightarrow> sql_holds now L s g d ip \<Longrightarrow>
      fst (op_lookup_key sql_ops g d now L s) = (Some ip, None)"
    using sql_lookup_key_found by (simp add: sql_ops_def)
  show "sinv now L s \<Longrightarrow> sql_pool_ok g ps \<Longrightarrow> op_allocate sql_ops g ps d now L s = (a, s') \<Longrightarrow>
      sinv now L s' \<and> (\<forall>h e x. sql_holds now L s h e x \<longrightarrow> sql_holds now L s' h e x) \<and>
      (\<forall>ip. answer_of a = Some ip \<longrightarrow> sql_holds now L s' g d ip)"
    using SQL_Allocate_quiet [of now L s g ps d a s'] sql_holds_op [of now L s s']
    by (auto simp: sql_ops_def sql_pool_ok_def sql_key_ok_def op_ok_def sql_holds_def)
  show "sinv now L s \<Longrightarrow> sql_holds now L s g d ip \<Longrightarrow>
      Is4 ip \<and> fst (op_lookup sql_ops ip now L s) = (Some \<lparr>map_gateway = g, map_domain = d\<rparr>, None)"
    using sql_lookup_found by (simp add: sql_ops_def)
next
  fix now L s ip found err s'
  show "sinv now L s \<Longrightarrow> Is4 ip \<Longrightarrow> op_lookup sql_ops ip now L s = ((found, err), s') \<Longrightarrow>
      err = None \<and> sinv now L s' \<and> (\<forall>h e x. sql_holds now L s h e x \<longrightarrow> sql_holds now L s' h e x) \<and>
      (\<forall>m. found = Some m \<longrightarrow> sql_holds now L s' (map_gateway m) (map_domain m) ip)"
    using SQL_Lookup_quiet [of now L s ip found err s'] sql_holds_op [of now L s s']
    by (auto simp: sql_ops_def op_ok_def sql_holds_def)
qed

section \<open>The plain allocator keeps it too\<close>

definition mem_key_ok :: "prefix list list \<Rightarrow> string \<Rightarrow> bool" where
  "mem_key_ok R g \<longleftrightarrow> list_ex (\<lambda>ps. g = rangeKey ps) R"

definition mem_pool_ok :: "prefix list list \<Rightarrow> string \<Rightarrow> prefix list \<Rightarrow> bool" where
  "mem_pool_ok R g ps \<longleftrightarrow> ps \<in> set R \<and> g = rangeKey ps"

definition mem_store_inv :: "prefix list list \<Rightarrow> time \<Rightarrow> duration \<Rightarrow> Allocator \<Rightarrow> bool" where
  "mem_store_inv R now L a \<longleftrightarrow> pools_ok R \<and> mem_inv R a \<and> expires a = Map.empty"

definition mem_holds :: "prefix list list \<Rightarrow> time \<Rightarrow> duration \<Rightarrow> Allocator \<Rightarrow> string \<Rightarrow> string \<Rightarrow> addr \<Rightarrow> bool" where
  "mem_holds R now L a g d ip \<longleftrightarrow> mem_key_ok R g \<and> LookupKey a g d = Some ip"

lemma mem_never_expires: "expires a = Map.empty \<Longrightarrow> \<not> expired a ip now"
  by (simp add: expired_def expires_of_def IsZero_def)

lemma mem_held:
  assumes "mem_store_inv R now L a" "mem_holds R now L a g d ip"
  shows "byIP a ip = Some \<lparr>map_gateway = g, map_domain = d\<rparr>" "Is4 ip"
proof -
  obtain ps where ps: "ps \<in> set R" "g = rangeKey ps"
    using assms(2) by (auto simp: mem_holds_def mem_key_ok_def list_ex_iff)
  have R: "pools_ok R" "mem_inv R a" using assms(1) by (auto simp: mem_store_inv_def)
  have "byIP a ip = Some \<lparr>map_gateway = g, map_domain = d\<rparr> \<and> pool_host ps ip"
    using mem_inv_key [OF R ps(1), of d ip] assms(2) ps(2) by (simp add: mem_holds_def LookupKey_def)
  moreover from this obtain p where "p \<in> set ps" "host_of p ip" by (auto simp: pool_host_def list_ex_iff)
  moreover have "canon4 p" using good_poolD(1) [OF pools_okD(1) [OF R(1) ps(1)]] calculation(2) by blast
  ultimately show "byIP a ip = Some \<lparr>map_gateway = g, map_domain = d\<rparr>" "Is4 ip"
    by (auto simp: host_of_iff)
qed

lemma mem_lookup_key:
  assumes "mem_store_inv R now L a" "mem_key_ok R g"
  shows "LookupKeyLive a g d now = (LookupKey a g d, a)"
proof (cases "LookupKey a g d")
  case (Some ip)
  with assms have "mem_holds R now L a g d ip" by (simp add: mem_holds_def)
  from mem_held(1) [OF assms(1) this] Some assms(1) show ?thesis
    by (simp add: LookupKeyLive_def LookupLive_def mem_store_inv_def mem_never_expires)
qed (simp add: LookupKeyLive_def)

lemma Allocate_expires: "expires (snd (Allocate a g ps d)) = expires a"
  by (auto simp: Allocate_def Let_def split: option.splits)

lemma mem_allocate_law:
  assumes "mem_store_inv R now L a" "mem_pool_ok R g ps" "mem_allocate g ps d now L a = (r, b)"
  shows "mem_store_inv R now L b \<and> (\<forall>h e x. mem_holds R now L a h e x \<longrightarrow> mem_holds R now L b h e x) \<and>
    (\<forall>ip. answer_of r = Some ip \<longrightarrow> mem_holds R now L b g d ip)"
proof -
  have ps: "ps \<in> set R" "g = rangeKey ps" and R: "pools_ok R" "mem_inv R a" "expires a = Map.empty"
    using assms(1,2) by (auto simp: mem_pool_ok_def mem_store_inv_def)
  have key: "mem_key_ok R g" using ps by (auto simp: mem_key_ok_def list_ex_iff)
  show ?thesis
  proof (cases "Allocate a g ps d")
    case (Pair x c)
    then have e: "expires c = Map.empty" using Allocate_expires [of a g ps d] R(3) by simp
    show ?thesis
    proof (cases x)
      case (Inl err)
      with Pair assms(3) have "b = a" "answer_of r = None"
        using Allocate_error [of a g ps d err c] by (auto simp: mem_allocate_def answer_of_def)
      with assms(1) show ?thesis by simp
    next
      case (Inr ip)
      with Pair assms(3) have b: "b = c" "answer_of r = Some ip" by (auto simp: mem_allocate_def answer_of_def)
      note ok = Allocate_ok [OF R(1,2) ps(1), of d ip b]
      have al: "Allocate a (rangeKey ps) ps d = (Inr ip, b)" using Pair Inr b ps(2) by simp
      have inv: "mem_store_inv R now L b" using ok al R(1) e b by (simp add: mem_store_inv_def)
      have "mem_holds R now L b h f y" if "mem_holds R now L a h f y" for h f y
      proof -
        have "Lookup b y = Some \<lparr>map_gateway = h, map_domain = f\<rparr>"
          using ok al mem_held(1) [OF assms(1) that] by (simp add: Lookup_def)
        then have "byKey b (alloc_key h f) = Some y"
          using alloc_wf_ipD [of b y] inv by (simp add: Lookup_def mem_store_inv_def mem_inv_def)
        with that show ?thesis by (simp add: mem_holds_def LookupKey_def)
      qed
      with inv ok al b key ps(2) show ?thesis by (simp add: mem_holds_def)
    qed
  qed
qed

interpretation mem: allocation_store mem_ops "mem_store_inv R" "mem_holds R" "mem_key_ok R" "mem_pool_ok R"
  for R
proof
  fix now L s g ps d a s' found err ip
  show "mem_pool_ok R g ps \<Longrightarrow> mem_key_ok R g" by (auto simp: mem_pool_ok_def mem_key_ok_def list_ex_iff)
  show "mem_store_inv R now L s \<Longrightarrow> mem_key_ok R g \<Longrightarrow> op_lookup_key mem_ops g d now L s = ((found, err), s') \<Longrightarrow>
      err = None \<and> mem_store_inv R now L s' \<and> (\<forall>h e x. mem_holds R now L s h e x \<longrightarrow> mem_holds R now L s' h e x) \<and>
      (\<forall>ip. found = Some ip \<longrightarrow> mem_holds R now L s' g d ip)"
    using mem_lookup_key [of R now L s g d] by (auto simp: mem_ops_def mem_holds_def)
  show "mem_store_inv R now L s \<Longrightarrow> mem_key_ok R g \<Longrightarrow> mem_holds R now L s g d ip \<Longrightarrow>
      fst (op_lookup_key mem_ops g d now L s) = (Some ip, None)"
    using mem_lookup_key [of R now L s g d] by (auto simp: mem_ops_def mem_holds_def)
  show "mem_store_inv R now L s \<Longrightarrow> mem_pool_ok R g ps \<Longrightarrow> op_allocate mem_ops g ps d now L s = (a, s') \<Longrightarrow>
      mem_store_inv R now L s' \<and> (\<forall>h e x. mem_holds R now L s h e x \<longrightarrow> mem_holds R now L s' h e x) \<and>
      (\<forall>ip. answer_of a = Some ip \<longrightarrow> mem_holds R now L s' g d ip)"
    using mem_allocate_law [of R now L s g ps d a s'] by (simp add: mem_ops_def)
  show "mem_store_inv R now L s \<Longrightarrow> mem_holds R now L s g d ip \<Longrightarrow>
      Is4 ip \<and> fst (op_lookup mem_ops ip now L s) = (Some \<lparr>map_gateway = g, map_domain = d\<rparr>, None)"
    using mem_held [of R now L s g d ip] by (simp add: mem_ops_def Lookup_def)
next
  fix now L s ip found err s'
  show "mem_store_inv R now L s \<Longrightarrow> Is4 ip \<Longrightarrow> op_lookup mem_ops ip now L s = ((found, err), s') \<Longrightarrow>
      err = None \<and> mem_store_inv R now L s' \<and> (\<forall>h e x. mem_holds R now L s h e x \<longrightarrow> mem_holds R now L s' h e x) \<and>
      (\<forall>m. found = Some m \<longrightarrow> mem_holds R now L s' (map_gateway m) (map_domain m) ip)"
    using mem_inv_ipD [of R s ip] alloc_wf_ipD [OF mem_inv_wf, of R s ip]
    by (fastforce simp: mem_ops_def Lookup_def mem_holds_def mem_key_ok_def list_ex_iff LookupKey_def
        mem_store_inv_def mapping_key_def)
qed

section \<open>Properties of the lifecycle\<close>

text \<open>When the allocation state of a process is in order, with or without a store.\<close>

definition node_ok :: "bool \<Rightarrow> prefix list list \<Rightarrow> time \<Rightarrow> duration \<Rightarrow> node \<Rightarrow> bool" where
  "node_ok has_store R now L n \<longleftrightarrow>
     (if has_store then sinv now L (n_store n) else mem_store_inv R now L (cache (n_store n)))"

definition node_pool_ok :: "bool \<Rightarrow> prefix list list \<Rightarrow> string \<Rightarrow> prefix list \<Rightarrow> bool" where
  "node_pool_ok has_store R g ps \<longleftrightarrow> (if has_store then sql_pool_ok g ps else mem_pool_ok R g ps)"

definition node_holds ::
  "bool \<Rightarrow> prefix list list \<Rightarrow> time \<Rightarrow> duration \<Rightarrow> node \<Rightarrow> string \<Rightarrow> string \<Rightarrow> addr \<Rightarrow> bool" where
  "node_holds has_store R now L n g d ip \<longleftrightarrow>
     (if has_store then sql_holds now L (n_store n) g d ip else mem_holds R now L (cache (n_store n)) g d ip)"

text \<open>Without a store the lifecycle is the plain allocator seen as a store, plus saving.\<close>

lemma Lifecycle_Allocate_mem:
  assumes "Lifecycle_Allocate False save l now g ps d n = (a, n')"
  shows "\<exists>a'. store_Allocate mem_ops g ps d now (lease l) (cache (n_store n)) = (a', cache (n_store n')) \<and>
    fst a = fst a' \<and> (snd a = None \<longrightarrow> a = a')"
  using assms
  by (auto simp: Lifecycle_Allocate_def store_Allocate_def mem_ops_def mem_allocate_def Let_def
      split: prod.splits option.splits sum.splits if_splits)

lemma Lifecycle_Allocate_law:
  assumes "node_ok st R now (lease l) n" "node_pool_ok st R g ps"
    and "Lifecycle_Allocate st save l now g ps d n = (a, n')"
  shows "node_ok st R now (lease l) n' \<and>
    (\<forall>ip. answer_of a = Some ip \<longrightarrow> node_holds st R now (lease l) n' g d ip)"
proof (cases st)
  case True
  then obtain s' where "store_Allocate sql_ops g ps d now (lease l) (n_store n) = (a, s')" "n' = n\<lparr>n_store := s'\<rparr>"
    using assms(3) by (auto simp: Lifecycle_Allocate_def split: prod.splits)
  with sql.store_Allocate_law [of now "lease l" "n_store n" g ps d a s'] assms(1,2) True show ?thesis
    by (simp add: node_ok_def node_pool_ok_def node_holds_def)
next
  case False
  then obtain a' where a': "store_Allocate mem_ops g ps d now (lease l) (cache (n_store n)) = (a', cache (n_store n'))"
    "fst a = fst a'" "snd a = None \<longrightarrow> a = a'"
    using Lifecycle_Allocate_mem [of save l now g ps d n a n'] assms(3) by auto
  with mem.store_Allocate_law [OF _ _ a'(1)] assms(1,2) False show ?thesis
    by (auto simp: node_ok_def node_pool_ok_def node_holds_def answer_of_def split: prod.splits option.splits)
qed

lemma Lifecycle_Allocate_held:
  assumes "node_ok st R now (lease l) n" "node_pool_ok st R g ps" "node_holds st R now (lease l) n g d ip"
  shows "fst (Lifecycle_Allocate st save l now g ps d n) = (ip, None)"
proof (cases st)
  case True
  obtain s1 where "op_lookup_key sql_ops g d now (lease l) (n_store n) = ((Some ip, None), s1)"
    using sql.lookup_key_found [of now "lease l" "n_store n" g d ip] assms True sql.pool_key
    by (metis node_holds_def node_ok_def node_pool_ok_def prod.collapse)
  with True show ?thesis by (simp add: Lifecycle_Allocate_def store_Allocate_def)
next
  case False
  then have "LookupKeyLive (cache (n_store n)) g d now = (Some ip, cache (n_store n))"
    using mem_lookup_key [of R now "lease l" "cache (n_store n)" g d] assms mem.pool_key
    by (auto simp: node_holds_def node_ok_def node_pool_ok_def mem_holds_def)
  with False show ?thesis by (simp add: Lifecycle_Allocate_def)
qed

lemma Lifecycle_Lookup_held:
  assumes "node_ok st R now (lease l) n" "node_holds st R now (lease l) n g d ip"
  shows "fst (Lifecycle_Lookup st l now ip n) = Some \<lparr>map_gateway = g, map_domain = d\<rparr>"
proof (cases st)
  case True
  with assms sql.store_Lookup_held [of now "lease l" "n_store n" g d ip] show ?thesis
    by (auto simp: Lifecycle_Lookup_def node_ok_def node_holds_def split: prod.splits)
next
  case False
  with assms mem_held(1) [of R now "lease l" "cache (n_store n)" g d ip] show ?thesis
    by (simp add: Lifecycle_Lookup_def node_ok_def node_holds_def Lookup_def)
qed

lemma Lifecycle_Lookup_law:
  assumes "node_ok st R now (lease l) n" "Is4 ip" "Lifecycle_Lookup st l now ip n = (found, n')"
  shows "node_ok st R now (lease l) n'"
proof (cases st)
  case True
  then obtain s' where "store_Lookup sql_ops ip now (lease l) (n_store n) = (found, s')" "n' = n\<lparr>n_store := s'\<rparr>"
    using assms(3) by (auto simp: Lifecycle_Lookup_def split: prod.splits)
  with sql.store_Lookup_law [of now "lease l" "n_store n" ip found s'] assms(1,2) True show ?thesis
    by (simp add: node_ok_def)
qed (use assms in \<open>simp add: Lifecycle_Lookup_def\<close>)

text \<open>
  C16: An allocated address names its name. Through the lifecycle, with the SQL store or with
  the plain allocator, an address that was answered without error resolves back to exactly the
  pool and the name it was answered for, asking for the name again gives the same address
  without error, and the state stays in order.
\<close>

theorem Lifecycle_allocate_lookup:
  assumes "node_ok st R now (lease l) n" and "node_pool_ok st R g ps"
    and "Lifecycle_Allocate st save l now g ps d n = ((ip, None), n')"
  shows "fst (Lifecycle_Lookup st l now ip n') = Some \<lparr>map_gateway = g, map_domain = d\<rparr> \<and>
    fst (Lifecycle_Allocate st save l now g ps d n') = (ip, None) \<and> node_ok st R now (lease l) n'"
proof -
  have h: "node_ok st R now (lease l) n'" "node_holds st R now (lease l) n' g d ip"
    using Lifecycle_Allocate_law [OF assms] by (auto simp: answer_of_def)
  with Lifecycle_Allocate_held [OF h(1) assms(2) h(2), of save] Lifecycle_Lookup_held [OF h] show ?thesis by blast
qed

definition demo_node :: node where
  "demo_node = \<lparr>n_store = demo_store [], n_fs = (\<lambda>p. NotExist)\<rparr>"

definition demo_life :: AllocationLifecycle where
  "demo_life = \<lparr>lc_path = [], lc_lease = 0\<rparr>"

lemma demo_node_ok: "node_ok True R day (lease demo_life) demo_node"
  using fleet_start_inv [OF demo_times(1), of "lease demo_life"]
  by (simp add: fleet_inv_def node_ok_def demo_node_def demo_store_def demo_life_def lease_def view_def fleet_start_def)

theorem Lifecycle_allocate_lookup_witness:
  "\<exists>n'. Lifecycle_Allocate True (\<lambda>a fs. (True, fs)) demo_life day demo_key demo_pool ''a'' demo_node =
          ((V4 0x0A400001, None), n') \<and>
        fst (Lifecycle_Lookup True demo_life day (V4 0x0A400001) n') =
          Some \<lparr>map_gateway = demo_key, map_domain = ''a''\<rparr>"
proof -
  have p: "node_pool_ok True [] demo_key demo_pool" by code_simp
  have "fst (Lifecycle_Allocate True (\<lambda>a fs. (True, fs)) demo_life day demo_key demo_pool ''a'' demo_node) =
      (V4 0x0A400001, None)" by code_simp
  then obtain n' where a: "Lifecycle_Allocate True (\<lambda>a fs. (True, fs)) demo_life day demo_key demo_pool ''a'' demo_node =
      ((V4 0x0A400001, None), n')" by (metis prod.collapse)
  from Lifecycle_allocate_lookup [OF demo_node_ok p a] a show ?thesis by blast
qed

text \<open>
  A failed save is reported once and then forgotten. Without a store, when saving the state
  file fails, the allocation of a new name reports the error and keeps the address in memory; the
  next request for the name is answered from memory without error and without saving.
\<close>

theorem Lifecycle_save_error_forgotten:
  assumes "mem_store_inv R now (lease l) (cache (n_store n))" and "mem_pool_ok R g ps" and "lc_path l \<noteq> []"
    and "LookupKey (cache (n_store n)) g d = None" and "\<forall>a. fst (save a (n_fs n)) = False"
    and "Lifecycle_Allocate False save l now g ps d n = ((ip, err), n')" and "ip \<noteq> NoAddr"
  shows "err \<noteq> None \<and> fst (Lifecycle_Allocate False save' l now g ps d n') = (ip, None) \<and>
    n_fs (snd (Lifecycle_Allocate False save' l now g ps d n')) = n_fs n'"
proof -
  have key: "mem_key_ok R g" using mem.pool_key [OF assms(2)] .
  have m: "LookupKeyLive (cache (n_store n)) g d now = (None, cache (n_store n))"
    using mem_lookup_key [OF assms(1) key, of d] assms(4) by simp
  obtain c where c: "Allocate (cache (n_store n)) g ps d = (Inr ip, c)"
    using assms(6,7) m by (auto simp: Lifecycle_Allocate_def Let_def split: prod.splits sum.splits if_splits)
  have n': "err \<noteq> None" "cache (n_store n') = c"
    using assms(3,6) assms(5) [rule_format, of c] m c
    by (auto simp: Lifecycle_Allocate_def Let_def split: prod.splits if_splits)
  have "mem_store_inv R now (lease l) c" "mem_holds R now (lease l) c g d ip"
    using mem_allocate_law [OF assms(1,2), of d "(ip, None)" c] c by (auto simp: mem_allocate_def answer_of_def)
  then have "LookupKeyLive c g d now = (Some ip, c)"
    using mem_lookup_key [OF _ key, of now "lease l" c d] by (simp add: mem_holds_def)
  with n' show ?thesis by (simp add: Lifecycle_Allocate_def)
qed

theorem Lifecycle_save_error_forgotten_witness:
  "let save = (\<lambda>a fs. (False, fs)); l = demo_life\<lparr>lc_path := ''state.json''\<rparr>;
       ps = [Pfx (V4 0x0A400000) 30];
       r = Lifecycle_Allocate False save l day (rangeKey ps) ps ''a'' demo_node in
   fst r = (V4 0x0A400001, Some ''save'') \<and>
   fst (Lifecycle_Allocate False save l day (rangeKey ps) ps ''a'' (snd r)) = (V4 0x0A400001, None)"
proof -
  let ?ps = "[Pfx (V4 0x0A400000) 30]" and ?l = "demo_life\<lparr>lc_path := ''state.json''\<rparr>"
  let ?save = "\<lambda>a fs. (False, fs)"
  have i: "mem_store_inv example_pools day (lease ?l) (cache (n_store demo_node))"
    using example_pools_ok mem_inv_new
    by (simp add: mem_store_inv_def demo_node_def demo_store_def) (simp add: NewAllocator_def)
  have p: "mem_pool_ok example_pools (rangeKey ?ps) ?ps" by (simp add: mem_pool_ok_def example_pools_def)
  have k: "LookupKey (cache (n_store demo_node)) (rangeKey ?ps) ''a'' = None" by code_simp
  have r: "fst (Lifecycle_Allocate False ?save ?l day (rangeKey ?ps) ?ps ''a'' demo_node) =
      (V4 0x0A400001, Some ''save'')" by code_simp
  then obtain n' where n': "Lifecycle_Allocate False ?save ?l day (rangeKey ?ps) ?ps ''a'' demo_node =
      ((V4 0x0A400001, Some ''save''), n')" by (metis prod.collapse)
  from Lifecycle_save_error_forgotten [OF i p _ k _ n'] n' show ?thesis by (simp add: Let_def)
qed

end
