(* ===== verification/Tags.thy ===== *)
theory Tags
  imports Prelude
begin

text \<open>
  The tag namespace of \<^verbatim>\<open>internal/domain/tags.go\<close>: names under \<^verbatim>\<open>.tags\<close> are boolean
  expressions over node tags, resolved against the current inventory. The expression is compiled
  to three lists of clauses as in the code; the lemmas show that this evaluates the formula the
  name denotes, whatever the order of its labels.
\<close>

record TaggedNode =
  tn_address :: string
  tn_tags :: "string list"

section \<open>Compiling an expression\<close>

record clauses =
  required :: "string list"
  either :: "string list list"
  excluded :: "string list"

text \<open>The loop over the alternatives of one label; \<^term>\<open>None\<close> is \<^verbatim>\<open>return nil, false\<close>.\<close>

fun tag_options :: "string list \<Rightarrow> string list \<Rightarrow> string list \<Rightarrow> (string list \<times> string list) option" where
  "tag_options [] pos ex = Some (pos, ex)"
| "tag_options (tag # opts) pos ex =
     (if tag = [] then None
      else if HasPrefix tag ''no-'' then
        (if length tag = 3 then None else tag_options opts pos (ex @ [''tag:'' @ drop 3 tag]))
      else tag_options opts (pos @ [''tag:'' @ tag]) ex)"

fun tag_parts :: "string list \<Rightarrow> clauses \<Rightarrow> clauses option" where
  "tag_parts [] cl = Some cl"
| "tag_parts (part # parts) cl =
     (let opts = Split part ''-or-'' in
      if opts = [] then None
      else (case tag_options opts [] (excluded cl) of
              None \<Rightarrow> None
            | Some (pos, ex) \<Rightarrow>
                tag_parts parts
                  (if length pos = 1 then cl\<lparr>excluded := ex, required := required cl @ [hd pos]\<rparr>
                   else if 1 < length pos then cl\<lparr>excluded := ex, either := either cl @ [pos]\<rparr>
                   else cl\<lparr>excluded := ex\<rparr>)))"

definition node_selected :: "clauses \<Rightarrow> TaggedNode \<Rightarrow> bool" where
  "node_selected cl node \<longleftrightarrow>
     list_all (\<lambda>tag. tag \<in> set (tn_tags node)) (required cl) \<and>
     list_all (\<lambda>choices. list_ex (\<lambda>tag. tag \<in> set (tn_tags node)) choices) (either cl) \<and>
     list_all (\<lambda>tag. tag \<notin> set (tn_tags node)) (excluded cl)"

definition TagExpression :: "(string \<Rightarrow> string) \<Rightarrow> string \<Rightarrow> TaggedNode list \<Rightarrow> string list option" where
  "TagExpression ul name nodes =
     (let parts = SplitByte (CHR ''.'') (TrimSuffix (ToLower ul name) ''.'') in
      if length parts < 2 \<or> last parts \<noteq> ''tags'' then None
      else (case tag_parts (butlast parts) \<lparr>required = [], either = [], excluded = []\<rparr> of
              None \<Rightarrow> None
            | Some cl \<Rightarrow> Some (map tn_address (filter (node_selected cl) nodes))))"

text \<open>An inventory that cannot be read answers an expression with no address.\<close>

definition ResolveTags :: "(string \<Rightarrow> string) \<Rightarrow> string \<Rightarrow> TaggedNode list result \<Rightarrow> string list option" where
  "ResolveTags ul name source =
     (case source of
        Inl err \<Rightarrow> (case TagExpression ul name [] of None \<Rightarrow> None | Some _ \<Rightarrow> Some [])
      | Inr nodes \<Rightarrow> TagExpression ul name nodes)"

section \<open>The formula of a name\<close>

definition negative :: "string \<Rightarrow> bool" where
  "negative tag \<longleftrightarrow> HasPrefix tag ''no-''"

definition option_ok :: "string \<Rightarrow> bool" where
  "option_ok tag \<longleftrightarrow> tag \<noteq> [] \<and> tag \<noteq> ''no-''"

text \<open>
  A label holds of a set of tags when it has no positive alternative or one of them is there,
  and none of its negated tags is there.
\<close>

definition label_holds :: "string list \<Rightarrow> string \<Rightarrow> bool" where
  "label_holds tags label \<longleftrightarrow>
     (let opts = Split label ''-or-''; pos = filter (\<lambda>t. \<not> negative t) opts in
      (pos = [] \<or> list_ex (\<lambda>t. ''tag:'' @ t \<in> set tags) pos) \<and>
      list_all (\<lambda>t. negative t \<longrightarrow> ''tag:'' @ drop 3 t \<notin> set tags) opts)"

definition expression_labels :: "(string \<Rightarrow> string) \<Rightarrow> string \<Rightarrow> string list" where
  "expression_labels ul name = butlast (SplitByte (CHR ''.'') (TrimSuffix (ToLower ul name) ''.''))"

definition is_expression :: "(string \<Rightarrow> string) \<Rightarrow> string \<Rightarrow> bool" where
  "is_expression ul name \<longleftrightarrow>
     (let parts = SplitByte (CHR ''.'') (TrimSuffix (ToLower ul name) ''.'') in
      2 \<le> length parts \<and> last parts = ''tags'' \<and>
      list_all (\<lambda>label. list_all option_ok (Split label ''-or-'')) (butlast parts))"

lemma Split_nonempty: "Split s sep \<noteq> []"
  by (subst Split.simps) (auto split: option.splits)

lemma HasPrefix_negative: "HasPrefix tag ''no-'' \<longleftrightarrow> negative tag"
  by (simp add: negative_def)

lemma negative_length: "negative tag \<Longrightarrow> length tag = 3 \<longleftrightarrow> tag = ''no-''"
  by (auto simp: negative_def HasPrefix_def prefix_def)

lemma negative_no: "negative ''no-''"
  by (simp add: negative_def HasPrefix_def)

definition pos_tags :: "string \<Rightarrow> string list" where
  "pos_tags label = map ((@) ''tag:'') (filter (\<lambda>t. \<not> negative t) (Split label ''-or-''))"

definition neg_tags :: "string \<Rightarrow> string list" where
  "neg_tags label = map (\<lambda>t. ''tag:'' @ drop 3 t) (filter negative (Split label ''-or-''))"

definition label_ok :: "string \<Rightarrow> bool" where
  "label_ok label \<longleftrightarrow> list_all option_ok (Split label ''-or-'')"

lemma tag_options_eq:
  "tag_options opts pos ex =
     (if list_all option_ok opts
      then Some (pos @ map ((@) ''tag:'') (filter (\<lambda>t. \<not> negative t) opts),
                 ex @ map (\<lambda>t. ''tag:'' @ drop 3 t) (filter negative opts))
      else None)"
proof (induction opts arbitrary: pos ex)
  case (Cons tag opts)
  show ?case
  proof (cases "option_ok tag")
    case True
    then show ?thesis using Cons by (simp add: HasPrefix_negative option_ok_def negative_length)
  next
    case False
    then have "tag = [] \<or> tag = ''no-''" by (simp add: option_ok_def)
    with False show ?thesis by (auto simp: HasPrefix_negative negative_no)
  qed
qed simp

definition add_label :: "string \<Rightarrow> clauses \<Rightarrow> clauses" where
  "add_label label cl =
     (let pos = pos_tags label; cl = cl\<lparr>excluded := excluded cl @ neg_tags label\<rparr> in
      if length pos = 1 then cl\<lparr>required := required cl @ [hd pos]\<rparr>
      else if 1 < length pos then cl\<lparr>either := either cl @ [pos]\<rparr> else cl)"

lemma tag_parts_step:
  "tag_parts (label # labels) cl = (if label_ok label then tag_parts labels (add_label label cl) else None)"
  by (simp add: Split_nonempty tag_options_eq label_ok_def add_label_def pos_tags_def neg_tags_def Let_def)

lemma tag_parts_defined: "tag_parts labels cl \<noteq> None \<longleftrightarrow> list_all label_ok labels"
  by (induction labels arbitrary: cl) (simp_all add: tag_parts_step del: tag_parts.simps(2))

lemma label_holds_alt:
  "label_holds tags label \<longleftrightarrow>
     (pos_tags label = [] \<or> list_ex (\<lambda>t. t \<in> set tags) (pos_tags label)) \<and>
     list_all (\<lambda>t. t \<notin> set tags) (neg_tags label)"
  by (auto simp: label_holds_def pos_tags_def neg_tags_def Let_def list_all_iff list_ex_iff)

lemma add_label_selected:
  "node_selected (add_label label cl) node \<longleftrightarrow> node_selected cl node \<and> label_holds (tn_tags node) label"
proof (cases "pos_tags label")
  case Nil
  then show ?thesis by (auto simp: add_label_def node_selected_def label_holds_alt)
next
  case (Cons t ts)
  then show ?thesis
    by (cases ts) (auto simp: add_label_def node_selected_def label_holds_alt)
qed

lemma tag_parts_selected:
  "tag_parts labels cl = Some cl' \<Longrightarrow>
     node_selected cl' node \<longleftrightarrow> node_selected cl node \<and> list_all (label_holds (tn_tags node)) labels"
  by (induction labels arbitrary: cl)
    (auto simp: tag_parts_step add_label_selected simp del: tag_parts.simps(2) split: if_splits)

section \<open>Properties\<close>

text \<open>
  C29: A tag name evaluates its formula. A name is handled exactly when its last label is
  \<^verbatim>\<open>tags\<close>, there is at least one label before it and no alternative is empty or a bare
  negation; the answer is then the addresses, in inventory order, of exactly the nodes of which
  every label holds: one of its positive alternatives, if it has any, and none of its negated
  tags.
\<close>

theorem TagExpression_evaluates:
  "TagExpression ul name nodes =
     (if is_expression ul name
      then Some (map tn_address
             (filter (\<lambda>node. list_all (label_holds (tn_tags node)) (expression_labels ul name)) nodes))
      else None)"
proof -
  let ?parts = "SplitByte (CHR ''.'') (TrimSuffix (ToLower ul name) ''.'')"
  let ?cl = "\<lparr>required = [], either = [], excluded = []\<rparr>"
  have e: "is_expression ul name \<longleftrightarrow>
      \<not> (length ?parts < 2 \<or> last ?parts \<noteq> ''tags'') \<and> tag_parts (butlast ?parts) ?cl \<noteq> None"
    unfolding tag_parts_defined by (auto simp: is_expression_def label_ok_def Let_def not_less list_all_iff)
  have s: "node_selected cl = (\<lambda>node. list_all (label_holds (tn_tags node)) (butlast ?parts))"
    if "tag_parts (butlast ?parts) ?cl = Some cl" for cl
    using tag_parts_selected [OF that] by (simp add: node_selected_def fun_eq_iff)
  show ?thesis
    unfolding TagExpression_def expression_labels_def
    using e s by (auto simp: Let_def split: option.splits)
qed

text \<open>
  The tag namespace is never forwarded. Whether a name is handled depends on the name
  alone: with an unreadable inventory \<open>ResolveTags\<close> handles exactly the same names, with no
  address.
\<close>

theorem ResolveTags_handles:
  "(ResolveTags ul name source = None) = (\<not> is_expression ul name) \<and>
   (case source of Inl err \<Rightarrow> ResolveTags ul name source \<in> {None, Some []}
    | Inr nodes \<Rightarrow> ResolveTags ul name source = TagExpression ul name nodes)"
  by (auto simp: ResolveTags_def TagExpression_evaluates split: sum.splits option.splits)

end
