(* ===== verification/Identity.thy ===== *)
theory Identity
  imports Policy Tags "HOL-Library.List_Lexorder" "HOL-Library.Char_ord" "HOL-Library.Multiset"
begin

text \<open>
  Where identities and inventories come from: \<^verbatim>\<open>LocalAPI\<close> of
  \<^verbatim>\<open>internal/domain/service.go\<close> and \<^verbatim>\<open>TSNetIdentity\<close> of \<^verbatim>\<open>tsnet.go\<close>. The daemon
  and the embedded client are not part of the repository: what a request to them yields is a
  parameter, with every outcome the code distinguishes. The lemmas show that the inventory given
  to tag resolution does not depend on the order in which Go walks the peer map.
\<close>

section \<open>The local daemon\<close>

datatype 'a http_result = TransportError | BadStatus | BadBody | Decoded 'a

record localWhoIs =
  lw_capmap :: "capmap option"
  lw_tags :: "string list"

record statusNode =
  sn_ips :: "addr list"
  sn_tags :: "string list"
  sn_capmap :: capmap

record localStatus =
  ls_self :: statusNode
  ls_peer :: "statusNode option list"
  ls_ips :: "addr list"

text \<open>The two endpoints the code calls, the first by its query parameters.\<close>

record LocalAPI =
  api_whois :: "(string \<times> string) list \<Rightarrow> localWhoIs http_result"
  api_status :: "localStatus http_result"

definition DeadlineExceeded :: string where
  "DeadlineExceeded = ''context deadline exceeded''"

definition whoIs :: "LocalAPI \<Rightarrow> addr \<Rightarrow> addr \<Rightarrow> localWhoIs result" where
  "whoIs l source destination =
     (let v = (''addr'', AddrString source) #
              (if IsValid destination then [(''dst_ip'', AddrString destination)] else []) in
      case api_whois l v of
        TransportError \<Rightarrow> Inl ''transport''
      | BadStatus \<Rightarrow> Inl (''whois: '' @ DeadlineExceeded)
      | BadBody \<Rightarrow> Inl DeadlineExceeded
      | Decoded response \<Rightarrow> Inr response)"

definition LocalAPI_Capabilities :: "LocalAPI \<Rightarrow> addr \<Rightarrow> addr \<Rightarrow> capmap result" where
  "LocalAPI_Capabilities l source destination =
     (case whoIs l source destination of
        Inl e \<Rightarrow> Inl e
      | Inr response \<Rightarrow>
          (case lw_capmap response of None \<Rightarrow> Inl DeadlineExceeded | Some m \<Rightarrow> Inr m))"

definition LocalAPI_IsGateway :: "LocalAPI \<Rightarrow> addr \<Rightarrow> string list \<Rightarrow> bool result" where
  "LocalAPI_IsGateway l source gateways =
     (case whoIs l source NoAddr of
        Inl e \<Rightarrow> Inl e
      | Inr response \<Rightarrow> Inr (list_ex (\<lambda>tag. tag \<in> set gateways) (lw_tags response)))"

definition status :: "LocalAPI \<Rightarrow> localStatus result" where
  "status l =
     (case api_status l of
        TransportError \<Rightarrow> Inl ''transport''
      | BadStatus \<Rightarrow> Inl DeadlineExceeded
      | BadBody \<Rightarrow> Inl DeadlineExceeded
      | Decoded st \<Rightarrow> Inr st)"

definition LocalAPI_NodeConfig :: "LocalAPI \<Rightarrow> NodeConfig result" where
  "LocalAPI_NodeConfig l =
     (case status l of
        Inl e \<Rightarrow> Inl e
      | Inr st \<Rightarrow>
          (case ConfigFromNodeAttrs (sn_capmap (ls_self st)) of
             Some config \<Rightarrow> Inr config
           | None \<Rightarrow> Inl DeadlineExceeded))"

definition TailscaleIP :: "LocalAPI \<Rightarrow> addr result" where
  "TailscaleIP l =
     (case status l of
        Inl e \<Rightarrow> Inl e
      | Inr st \<Rightarrow>
          (case find Is4 (ls_ips st) of None \<Rightarrow> Inl DeadlineExceeded | Some ip \<Rightarrow> Inr ip))"

section \<open>The node inventory\<close>

text \<open>
  \<^verbatim>\<open>sort.Slice\<close> orders by the address text, bytewise; it is not stable, so the model's
  stable sort is one of its possible results when two entries have the same address.
\<close>

definition taggedNodes :: "statusNode list \<Rightarrow> TaggedNode list" where
  "taggedNodes nodes =
     sort_key tn_address
       (concat (map (\<lambda>node.
          if sn_tags node = [] then []
          else map (\<lambda>a. \<lparr>tn_address = AddrString a, tn_tags = remdups (sn_tags node)\<rparr>)
                 (filter Is4 (sn_ips node))) nodes))"

definition LocalAPI_TaggedNodes :: "LocalAPI \<Rightarrow> TaggedNode list result" where
  "LocalAPI_TaggedNodes l =
     (case status l of
        Inl e \<Rightarrow> Inl e
      | Inr st \<Rightarrow> Inr (taggedNodes (ls_self st # List.map_filter id (ls_peer st))))"

section \<open>The embedded client\<close>

text \<open>
  A capability map of the client: for each name a list of raw messages (\<^term>\<open>None\<close> is the nil
  slice), each of which is JSON or not (\<^term>\<open>None\<close>, whose encoding fails).
\<close>

type_synonym raw_capmap = "(string \<times> json option list option) list"

fun encode_value :: "json option list option \<Rightarrow> json option" where
  "encode_value None = Some JNull"
| "encode_value (Some raws) = map_option JArr (those raws)"

fun encodeCapMap :: "raw_capmap \<Rightarrow> capmap result" where
  "encodeCapMap [] = Inr Map.empty"
| "encodeCapMap ((capability, value) # values) =
     (case encode_value value of
        None \<Rightarrow> Inl ''json''
      | Some raw \<Rightarrow>
          (case encodeCapMap values of
             Inl e \<Rightarrow> Inl e
           | Inr res \<Rightarrow> Inr (res(capability \<mapsto> raw))))"

record PeerStatus =
  ps_ips :: "addr list"
  ps_tags :: "string list option"
  ps_capmap :: raw_capmap

record TSNetIdentity =
  ts_whois :: "string \<Rightarrow> (raw_capmap \<times> string list) result"
  ts_status :: "(PeerStatus option \<times> PeerStatus option list) result"

definition TSNet_Capabilities :: "TSNetIdentity \<Rightarrow> addr \<Rightarrow> addr \<Rightarrow> capmap result" where
  "TSNet_Capabilities i source destination =
     (case ts_whois i (AddrString source) of
        Inl e \<Rightarrow> Inl e
      | Inr (caps, _) \<Rightarrow> encodeCapMap caps)"

definition TSNet_IsGateway :: "TSNetIdentity \<Rightarrow> addr \<Rightarrow> string list \<Rightarrow> bool result" where
  "TSNet_IsGateway i source gateways =
     (case ts_whois i (AddrString source) of
        Inl e \<Rightarrow> Inl e
      | Inr (_, tags) \<Rightarrow> Inr (list_ex (\<lambda>tag. tag \<in> set gateways) tags))"

text \<open>A status without a self node is a nil dereference, the \<^verbatim>\<open>panic\<close> error here.\<close>

definition TSNet_NodeConfig :: "TSNetIdentity \<Rightarrow> NodeConfig result" where
  "TSNet_NodeConfig i =
     (case ts_status i of
        Inl e \<Rightarrow> Inl e
      | Inr (None, _) \<Rightarrow> Inl ''panic''
      | Inr (Some self, _) \<Rightarrow>
          (case encodeCapMap (ps_capmap self) of
             Inl e \<Rightarrow> Inl e
           | Inr raw \<Rightarrow>
               (case ConfigFromNodeAttrs raw of
                  None \<Rightarrow> Inl DeadlineExceeded
                | Some config \<Rightarrow> Inr config)))"

definition peer_node :: "PeerStatus \<Rightarrow> statusNode" where
  "peer_node p =
     \<lparr>sn_ips = ps_ips p, sn_tags = (case ps_tags p of None \<Rightarrow> [] | Some ts \<Rightarrow> ts), sn_capmap = Map.empty\<rparr>"

definition TSNet_TaggedNodes :: "TSNetIdentity \<Rightarrow> TaggedNode list result" where
  "TSNet_TaggedNodes i =
     (case ts_status i of
        Inl e \<Rightarrow> Inl e
      | Inr (self, peers) \<Rightarrow> Inr (taggedNodes (map peer_node (List.map_filter id (self # peers)))))"

section \<open>Properties\<close>

lemma sort_key_mset_unique:
  fixes k :: "'a \<Rightarrow> 'b::linorder"
  assumes "mset xs = mset ys" "inj_on k (set xs)"
  shows "sort_key k xs = sort_key k ys"
proof -
  have "map k (sort_key k zs) = sort (map k zs)" for zs
    by (rule sym, rule properties_for_sort) simp_all
  moreover have "sort (map k xs) = sort (map k ys)"
    using assms(1) by (intro properties_for_sort) simp_all
  ultimately have "map k (sort_key k xs) = map k (sort_key k ys)" by simp
  moreover have "set ys = set xs" using assms(1) by (metis set_mset_mset)
  ultimately show ?thesis using assms(2) by (intro map_inj_on [of k]) auto
qed

lemma concat_map_unique:
  "distinct (concat (map f ns)) \<Longrightarrow> n \<in> set ns \<Longrightarrow> m \<in> set ns \<Longrightarrow> a \<in> set (f n) \<Longrightarrow> a \<in> set (f m) \<Longrightarrow> n = m"
  by (induction ns) auto

definition tagged_entries :: "statusNode list \<Rightarrow> TaggedNode list" where
  "tagged_entries nodes =
     concat (map (\<lambda>node.
       if sn_tags node = [] then []
       else map (\<lambda>a. \<lparr>tn_address = AddrString a, tn_tags = remdups (sn_tags node)\<rparr>)
              (filter Is4 (sn_ips node))) nodes)"

lemma taggedNodes_entries: "taggedNodes nodes = sort_key tn_address (tagged_entries nodes)"
  by (simp only: taggedNodes_def tagged_entries_def)

lemma tagged_entries_iff:
  "e \<in> set (tagged_entries nodes) \<longleftrightarrow>
     (\<exists>n\<in>set nodes. sn_tags n \<noteq> [] \<and> (\<exists>a\<in>set (sn_ips n). Is4 a \<and>
        e = \<lparr>tn_address = AddrString a, tn_tags = remdups (sn_tags n)\<rparr>))"
  by (auto simp: tagged_entries_def)

lemma tagged_entries_mset:
  "mset nodes = mset nodes' \<Longrightarrow> mset (tagged_entries nodes) = mset (tagged_entries nodes')"
  unfolding tagged_entries_def mset_concat sum_mset_sum_list [symmetric] mset_map by simp

lemma tagged_entries_inj:
  assumes "distinct (concat (map (\<lambda>n. filter Is4 (sn_ips n)) nodes))"
  shows "inj_on tn_address (set (tagged_entries nodes))"
proof (rule inj_onI)
  fix e f
  assume ef: "e \<in> set (tagged_entries nodes)" "f \<in> set (tagged_entries nodes)" "tn_address e = tn_address f"
  obtain n a where n: "n \<in> set nodes" "a \<in> set (sn_ips n)" "Is4 a"
    "e = \<lparr>tn_address = AddrString a, tn_tags = remdups (sn_tags n)\<rparr>"
    using ef(1) unfolding tagged_entries_iff by blast
  obtain m b where m: "m \<in> set nodes" "b \<in> set (sn_ips m)" "Is4 b"
    "f = \<lparr>tn_address = AddrString b, tn_tags = remdups (sn_tags m)\<rparr>"
    using ef(2) unfolding tagged_entries_iff by blast
  have "a = b" using ef(3) n(3,4) m(3,4) by (auto elim!: Is4.elims)
  with concat_map_unique [OF assms n(1) m(1), of a] n m show "e = f" by simp
qed

text \<open>
  The inventory does not depend on map order. When no IPv4 address belongs to two nodes, the
  entries built from the nodes in any order are the same list; it is sorted by address and has
  an entry for exactly the IPv4 addresses of the tagged nodes, with their node's tags.
\<close>

theorem taggedNodes_order_independent:
  assumes "mset nodes = mset nodes'" and "distinct (concat (map (\<lambda>n. filter Is4 (sn_ips n)) nodes))"
  shows "taggedNodes nodes = taggedNodes nodes' \<and> sorted (map tn_address (taggedNodes nodes)) \<and>
    set (taggedNodes nodes) =
      {\<lparr>tn_address = AddrString a, tn_tags = remdups (sn_tags n)\<rparr> | n a.
         n \<in> set nodes \<and> sn_tags n \<noteq> [] \<and> a \<in> set (sn_ips n) \<and> Is4 a}"
proof (intro conjI)
  show "taggedNodes nodes = taggedNodes nodes'"
    unfolding taggedNodes_entries
    by (rule sort_key_mset_unique [OF tagged_entries_mset [OF assms(1)] tagged_entries_inj [OF assms(2)]])
  show "sorted (map tn_address (taggedNodes nodes))" by (simp add: taggedNodes_entries)
  show "set (taggedNodes nodes) =
      {\<lparr>tn_address = AddrString a, tn_tags = remdups (sn_tags n)\<rparr> | n a.
         n \<in> set nodes \<and> sn_tags n \<noteq> [] \<and> a \<in> set (sn_ips n) \<and> Is4 a}"
    unfolding taggedNodes_entries set_sort using tagged_entries_iff [of _ nodes] by blast
qed

definition demo_nodes :: "statusNode list" where
  "demo_nodes =
     [\<lparr>sn_ips = [V4 0x64400003], sn_tags = [''tag:a''], sn_capmap = Map.empty\<rparr>,
      \<lparr>sn_ips = [V4 0x64400002, V6 1 []], sn_tags = [''tag:b'', ''tag:a''], sn_capmap = Map.empty\<rparr>]"

theorem taggedNodes_order_independent_witness:
  "taggedNodes demo_nodes = taggedNodes (rev demo_nodes) \<and>
   map tn_address (taggedNodes demo_nodes) = [''100.64.0.2'', ''100.64.0.3'']"
proof -
  have d: "distinct (concat (map (\<lambda>n. filter Is4 (sn_ips n)) demo_nodes))" by code_simp
  have m: "mset demo_nodes = mset (rev demo_nodes)" by simp
  have "map tn_address (taggedNodes demo_nodes) = [''100.64.0.2'', ''100.64.0.3'']" by code_simp
  with taggedNodes_order_independent [OF m d] show ?thesis by blast
qed

end
