(* ===== verification/Service.thy ===== *)
theory Service
  imports Lifecycle Identity
begin

text \<open>
  The decisions of \<^verbatim>\<open>Service\<close> in \<^verbatim>\<open>internal/domain/service.go\<close>: answering a DNS question,
  mapping an address back, and authorizing a flow. The identity source is a parameter (what it
  answers for a pair of addresses, and, if it can tell, whether a source is itself a gateway);
  it is instantiated by the sources of \<^verbatim>\<open>Identity\<close>. The four counters are 64-bit words. Go
  walks the gateway map in an unspecified order, so it is a list of entries here and the lemmas
  show that the order does not matter.
\<close>

section \<open>State\<close>

record identity =
  id_caps :: "addr \<Rightarrow> addr \<Rightarrow> capmap result"
  id_gateway :: "(addr \<Rightarrow> string list \<Rightarrow> bool result) option"

definition local_identity :: "LocalAPI \<Rightarrow> identity" where
  "local_identity l = \<lparr>id_caps = LocalAPI_Capabilities l, id_gateway = Some (LocalAPI_IsGateway l)\<rparr>"

definition tsnet_identity :: "TSNetIdentity \<Rightarrow> identity" where
  "tsnet_identity i = \<lparr>id_caps = TSNet_Capabilities i, id_gateway = Some (TSNet_IsGateway i)\<rparr>"

text \<open>
  The node is the allocation state of the lifecycle in use; the flag says whether it has a
  store, and an explicit lifecycle overrides the state path and the lease of the service.
\<close>

record Service =
  sv_gateways :: "(string \<times> Gateway) list"
  sv_node :: node
  sv_store :: bool
  sv_lifecycle :: "AllocationLifecycle option"
  sv_path :: string
  sv_lease :: duration
  sv_synthesized :: u64
  sv_passthrough :: u64
  sv_allowed :: u64
  sv_denied :: u64

datatype DNSOutcome = DNSPassthrough | DNSSynthesized | DNSUnavailable

definition service_lifecycle :: "Service \<Rightarrow> AllocationLifecycle" where
  "service_lifecycle s =
     (case sv_lifecycle s of
        Some l \<Rightarrow> l
      | None \<Rightarrow> \<lparr>lc_path = sv_path s, lc_lease = sv_lease s\<rparr>)"

definition bump_passthrough :: "Service \<Rightarrow> Service" where
  "bump_passthrough s = s\<lparr>sv_passthrough := sv_passthrough s + 1\<rparr>"

definition bump_synthesized :: "Service \<Rightarrow> Service" where
  "bump_synthesized s = s\<lparr>sv_synthesized := sv_synthesized s + 1\<rparr>"

definition bump_allowed :: "Service \<Rightarrow> Service" where
  "bump_allowed s = s\<lparr>sv_allowed := sv_allowed s + 1\<rparr>"

definition bump_denied :: "Service \<Rightarrow> Service" where
  "bump_denied s = s\<lparr>sv_denied := sv_denied s + 1\<rparr>"

text \<open>What the service runs in: Unicode lowering, the identity source, the saving of the state file and the clock.\<close>

type_synonym saver = "Allocator \<Rightarrow> (string \<Rightarrow> file_state) \<Rightarrow> bool \<times> (string \<Rightarrow> file_state)"

record env =
  env_lower :: "string \<Rightarrow> string"
  env_identity :: identity
  env_save :: saver
  env_now :: time

section \<open>DNS\<close>

definition is_gateway_source :: "env \<Rightarrow> Service \<Rightarrow> addr \<Rightarrow> bool" where
  "is_gateway_source env s source =
     (case id_gateway (env_identity env) of
        None \<Rightarrow> False
      | Some check \<Rightarrow> (case check source (map fst (sv_gateways s)) of Inl _ \<Rightarrow> True | Inr g \<Rightarrow> g))"

definition DNSAnswer :: "env \<Rightarrow> addr \<Rightarrow> string \<Rightarrow> Service \<Rightarrow> (addr \<times> DNSOutcome) \<times> Service" where
  "DNSAnswer env source name s =
     (if is_gateway_source env s source then ((NoAddr, DNSPassthrough), bump_passthrough s)
      else (case NormalName (env_lower env) name of
              (n, False) \<Rightarrow> ((NoAddr, DNSPassthrough), bump_passthrough s)
            | (n, True) \<Rightarrow>
                (case id_caps (env_identity env) source NoAddr of
                   Inl _ \<Rightarrow> ((NoAddr, DNSPassthrough), bump_passthrough s)
                 | Inr caps \<Rightarrow>
                     (case RangesForName (Parse (env_lower env) caps) n of
                        None \<Rightarrow> ((NoAddr, DNSPassthrough), bump_passthrough s)
                      | Some ranges \<Rightarrow>
                          (case Lifecycle_Allocate (sv_store s) (env_save env) (service_lifecycle s)
                                  (env_now env) (rangeKey ranges) ranges n (sv_node s) of
                             ((ip, Some err), node) \<Rightarrow>
                               ((NoAddr, DNSUnavailable), bump_passthrough (s\<lparr>sv_node := node\<rparr>))
                           | ((ip, None), node) \<Rightarrow>
                               ((ip, DNSSynthesized), bump_synthesized (s\<lparr>sv_node := node\<rparr>)))))))"

definition DNS :: "env \<Rightarrow> addr \<Rightarrow> string \<Rightarrow> Service \<Rightarrow> (addr \<times> bool) \<times> Service" where
  "DNS env source name s =
     (case DNSAnswer env source name s of ((ip, outcome), s') \<Rightarrow> ((ip, outcome = DNSSynthesized), s'))"

definition PTRMapping :: "env \<Rightarrow> addr \<Rightarrow> Service \<Rightarrow> Mapping option \<times> Service" where
  "PTRMapping env ip s =
     (case Lifecycle_Lookup (sv_store s) (service_lifecycle s) (env_now env) ip (sv_node s) of
        (m, node) \<Rightarrow> (m, s\<lparr>sv_node := node\<rparr>))"

section \<open>Flows\<close>

text \<open>
  The loop of \<open>gatewayForDestination\<close>: \<^term>\<open>None\<close> is the early return on a second match. A
  selected gateway is one whose prefixes are not nil, which a gateway that contains an address
  cannot have.
\<close>

fun select_gateway :: "Gateway list \<Rightarrow> addr \<Rightarrow> Gateway option \<Rightarrow> Gateway option option" where
  "select_gateway [] destination selected = Some selected"
| "select_gateway (gateway # gateways) destination selected =
     (if \<not> containsPrefix (gw_prefixes gateway) destination then select_gateway gateways destination selected
      else if selected \<noteq> None then None
      else select_gateway gateways destination (Some gateway))"

definition gatewayForDestination :: "Service \<Rightarrow> addr \<Rightarrow> Gateway option" where
  "gatewayForDestination s destination =
     (case select_gateway (map snd (sv_gateways s)) destination None of
        None \<Rightarrow> None
      | Some selected \<Rightarrow> selected)"

definition Flow ::
  "env \<Rightarrow> addr \<Rightarrow> addr \<Rightarrow> string \<Rightarrow> u16 \<Rightarrow> Service \<Rightarrow> (Mapping \<times> Gateway) option \<times> Service" where
  "Flow env source destination proto port s =
     (case PTRMapping env destination s of
        (None, s1) \<Rightarrow> (None, bump_denied s1)
      | (Some m, s1) \<Rightarrow>
          (case id_caps (env_identity env) source destination of
             Inl _ \<Rightarrow> (None, bump_denied s1)
           | Inr caps \<Rightarrow>
               (case gatewayForDestination s1 destination of
                  None \<Rightarrow> (None, bump_denied s1)
                | Some gateway \<Rightarrow>
                    (case GatewayFor (Parse (env_lower env) caps) gateway (map_domain m) proto port of
                       None \<Rightarrow> (None, bump_denied s1)
                     | Some gw \<Rightarrow> (Some (m, gw), bump_allowed s1)))))"

definition FlowDomain ::
  "env \<Rightarrow> addr \<Rightarrow> addr \<Rightarrow> string \<Rightarrow> string \<Rightarrow> u16 \<Rightarrow> Service \<Rightarrow> Gateway option \<times> Service" where
  "FlowDomain env source destination name proto port s =
     (case NormalName (env_lower env) name of
        (n, False) \<Rightarrow> (None, bump_denied s)
      | (n, True) \<Rightarrow>
          (case gatewayForDestination s destination of
             None \<Rightarrow> (None, bump_denied s)
           | Some gateway \<Rightarrow>
               (case id_caps (env_identity env) source destination of
                  Inl _ \<Rightarrow> (None, bump_denied s)
                | Inr caps \<Rightarrow>
                    (case GatewayFor (Parse (env_lower env) caps) gateway n proto port of
                       None \<Rightarrow> (None, bump_denied s)
                     | Some gw \<Rightarrow> (Some gw, bump_allowed s)))))"

section \<open>Selecting the gateway of a destination\<close>

lemma select_gateway_eq:
  "select_gateway gws destination selected =
     (case filter (\<lambda>g. containsPrefix (gw_prefixes g) destination) gws of
        [] \<Rightarrow> Some selected
      | [g] \<Rightarrow> if selected = None then Some (Some g) else None
      | _ \<Rightarrow> None)"
  by (induction gws destination selected rule: select_gateway.induct)
    (auto split: list.splits)

lemma gatewayForDestination_Some:
  "gatewayForDestination s destination = Some gw \<longleftrightarrow>
     filter (\<lambda>g. containsPrefix (gw_prefixes g) destination) (map snd (sv_gateways s)) = [gw]"
  by (auto simp: gatewayForDestination_def select_gateway_eq split: list.splits)

text \<open>
  The gateway of a destination is the only one that has it. \<open>gatewayForDestination\<close>
  answers a gateway exactly when one entry of the map, and no other, has a prefix containing the
  address, and the answer is the same for every order in which the map is walked.
\<close>

theorem gatewayForDestination_unique:
  "(gatewayForDestination s destination = Some gw) =
     (filter (\<lambda>g. containsPrefix (gw_prefixes g) destination) (map snd (sv_gateways s)) = [gw]) \<and>
   (mset (sv_gateways s) = mset (sv_gateways s') \<longrightarrow>
      gatewayForDestination s destination = gatewayForDestination s' destination)"
proof (intro conjI impI)
  show "(gatewayForDestination s destination = Some gw) =
     (filter (\<lambda>g. containsPrefix (gw_prefixes g) destination) (map snd (sv_gateways s)) = [gw])"
    by (rule gatewayForDestination_Some)
next
  let ?f = "\<lambda>g. containsPrefix (gw_prefixes g) destination"
  let ?l = "filter ?f (map snd (sv_gateways s))" and ?r = "filter ?f (map snd (sv_gateways s'))"
  assume "mset (sv_gateways s) = mset (sv_gateways s')"
  then have m: "mset ?l = mset ?r" by (metis mset_filter mset_map)
  then have "?l = [g] \<longleftrightarrow> ?r = [g]" for g by (metis mset_single_iff_right mset_zero_iff mset.simps(2))
  then have "gatewayForDestination s destination = Some g \<longleftrightarrow> gatewayForDestination s' destination = Some g" for g
    by (simp only: gatewayForDestination_Some)
  then show "gatewayForDestination s destination = gatewayForDestination s' destination"
    by (metis option.exhaust)
qed

section \<open>DNS answers\<close>

text \<open>
  What a question asks for: the normalized name and its pool, if the source may be answered
  synthetically.
\<close>

definition authorized_pool :: "env \<Rightarrow> addr \<Rightarrow> string \<Rightarrow> Service \<Rightarrow> (string \<times> prefix list) option" where
  "authorized_pool env source name s =
     (if is_gateway_source env s source then None
      else (case NormalName (env_lower env) name of
              (n, ok) \<Rightarrow>
                if \<not> ok then None
                else (case id_caps (env_identity env) source NoAddr of
                        Inl _ \<Rightarrow> None
                      | Inr caps \<Rightarrow> map_option (Pair n) (RangesForName (Parse (env_lower env) caps) n))))"

definition allocate_for :: "env \<Rightarrow> Service \<Rightarrow> string \<Rightarrow> prefix list \<Rightarrow> answer \<times> node" where
  "allocate_for env s n ranges =
     Lifecycle_Allocate (sv_store s) (env_save env) (service_lifecycle s) (env_now env) (rangeKey ranges) ranges n (sv_node s)"

lemma DNSAnswer_eq:
  "DNSAnswer env source name s =
     (case authorized_pool env source name s of
        None \<Rightarrow> ((NoAddr, DNSPassthrough), bump_passthrough s)
      | Some (n, ranges) \<Rightarrow>
          (case allocate_for env s n ranges of
             ((ip, Some err), node) \<Rightarrow> ((NoAddr, DNSUnavailable), bump_passthrough (s\<lparr>sv_node := node\<rparr>))
           | ((ip, None), node) \<Rightarrow> ((ip, DNSSynthesized), bump_synthesized (s\<lparr>sv_node := node\<rparr>))))"
  by (auto simp: DNSAnswer_def authorized_pool_def allocate_for_def split: prod.splits bool.splits sum.splits option.splits)

lemmas bump_defs = bump_passthrough_def bump_synthesized_def bump_allowed_def bump_denied_def

lemma authorized_pool_frame:
  assumes "sv_gateways s' = sv_gateways s"
  shows "authorized_pool env source name s' = authorized_pool env source name s"
  unfolding authorized_pool_def is_gateway_source_def assms ..

lemma RangesForName_wf:
  assumes "RangesForName (Parse ul caps) n = Some ranges"
  shows "wf_ranges ranges"
proof -
  obtain g where g: "g \<in> set (name_grants (Parse ul caps) n)" "grant_ranges g = ranges"
    using assms unfolding RangesForName_iff by (metis last_in_set)
  then have "g \<in> set (Parse ul caps)" by (auto simp: name_grants_def)
  then show ?thesis using Parse_elem parse_entry_wf g(2) by (metis wf_grant_def)
qed

lemma authorized_pool_wf:
  "authorized_pool env source name s = Some (n, ranges) \<Longrightarrow> wf_ranges ranges \<and> validName n"
  by (auto simp: authorized_pool_def NormalName_def Let_def split: if_splits sum.splits prod.splits dest: RangesForName_wf)

lemma wf_ranges_pool: "wf_ranges ranges \<Longrightarrow> sql_pool_ok (rangeKey ranges) ranges"
  by (simp add: sql_pool_ok_def sql_key_ok_def wf_ranges_def rangeKey_no_nul)


lemma DNSAnswer_registered:
  assumes "sv_store s" and "sinv (env_now env) (lease (service_lifecycle s)) (n_store (sv_node s))"
    and "DNSAnswer env source name s = ((ip, DNSSynthesized), s')"
  shows "\<exists>n ranges. authorized_pool env source name s = Some (n, ranges) \<and>
    sql_holds (env_now env) (lease (service_lifecycle s)) (n_store (sv_node s')) (rangeKey ranges) n ip \<and>
    fst (PTRMapping env ip s') = Some \<lparr>map_gateway = rangeKey ranges, map_domain = n\<rparr> \<and>
    fst (DNSAnswer env source name s') = (ip, DNSSynthesized)"
proof -
  obtain n ranges where p: "authorized_pool env source name s = Some (n, ranges)"
    using assms(3) by (auto simp: DNSAnswer_eq split: option.splits)
  obtain node where a: "allocate_for env s n ranges = ((ip, None), node)"
    and s': "s' = bump_synthesized (s\<lparr>sv_node := node\<rparr>)"
    using assms(3) p by (auto simp: DNSAnswer_eq split: prod.splits option.splits)
  have wf: "node_pool_ok True [] (rangeKey ranges) ranges" "node_ok True [] (env_now env) (lease (service_lifecycle s)) (sv_node s)"
    using authorized_pool_wf [OF p] wf_ranges_pool assms(2) by (auto simp: node_pool_ok_def node_ok_def)
  have al: "Lifecycle_Allocate True (env_save env) (service_lifecycle s) (env_now env) (rangeKey ranges) ranges n (sv_node s)
      = ((ip, None), node)" using a assms(1) by (simp add: allocate_for_def)
  have h: "node_ok True [] (env_now env) (lease (service_lifecycle s)) node"
    "node_holds True [] (env_now env) (lease (service_lifecycle s)) node (rangeKey ranges) n ip"
    using Lifecycle_Allocate_law [OF wf(2,1) al] by (auto simp: answer_of_def)
  have f: "sv_node s' = node" "service_lifecycle s' = service_lifecycle s" "sv_store s'"
    using assms(1) by (cases "sv_lifecycle s"; simp add: s' bump_defs service_lifecycle_def)+
  have "fst (allocate_for env s' n ranges) = (ip, None)"
    using Lifecycle_Allocate_held [OF h(1) wf(1) h(2)] f by (simp add: allocate_for_def)
  moreover have "authorized_pool env source name s' = Some (n, ranges)"
    using p authorized_pool_frame [of s' s env source name] by (simp add: s' bump_defs)
  ultimately have again: "fst (DNSAnswer env source name s') = (ip, DNSSynthesized)"
    by (auto simp: DNSAnswer_eq split: prod.splits option.splits)
  have "fst (PTRMapping env ip s') = Some \<lparr>map_gateway = rangeKey ranges, map_domain = n\<rparr>"
    using Lifecycle_Lookup_held [OF h] f by (auto simp: PTRMapping_def split: prod.splits)
  with p h(2) again f show ?thesis by (auto simp: node_holds_def)
qed


section \<open>Flows\<close>

lemma GatewayFor_authorized:
  assumes "GatewayFor grants gw name proto port = Some gw'"
  shows "Authorize grants (gw_prefixes gw) name proto port \<and> gw_prefixes gw' = gw_prefixes gw"
proof (rule GatewayFor_SomeE [OF assms])
  fix p
  assume "(gw_resolver gw', p) \<in> set (candidates grants gw name proto port)" "gw_prefixes gw' = gw_prefixes gw"
  then show ?thesis using candidates_Authorize by (metis empty_iff empty_set)
qed


text \<open>
  C15: A stateless gateway decides like the DNS authority. A gateway that learns the name of a
  destination from its PTR record, with the final dot of the DNS form or without it, and knows
  the same gateways, takes for every flow the decision the authority takes from its own mapping.
\<close>

theorem FlowDomain_agrees:
  assumes "fst (PTRMapping env destination s) = Some m" and "validName (map_domain m)"
    and "name = map_domain m \<or> name = map_domain m @ ''.''" and "sv_gateways t = sv_gateways s"
  shows "fst (FlowDomain env source destination name proto port t) =
    map_option snd (fst (Flow env source destination proto port s))"
proof -
  obtain s1 where p: "PTRMapping env destination s = (Some m, s1)"
    using assms(1) by (metis prod.collapse)
  then have "sv_gateways s1 = sv_gateways s" by (auto simp: PTRMapping_def split: prod.splits)
  then have g: "gatewayForDestination s1 destination = gatewayForDestination t destination"
    using assms(4) by (simp add: gatewayForDestination_def)
  have "NormalName (env_lower env) name = (map_domain m, True)"
    using assms(2,3) validName_fixed NormalName_dot by blast
  then show ?thesis
    by (simp add: FlowDomain_def Flow_def p g split: option.splits sum.splits)
qed

section \<open>A run of the service\<close>

definition demo_env :: env where
  "demo_env = \<lparr>env_lower = id, env_identity = \<lparr>id_caps = (\<lambda>src dst. Inr example_caps), id_gateway = None\<rparr>,
     env_save = (\<lambda>a fs. (True, fs)), env_now = day\<rparr>"

definition demo_service :: Service where
  "demo_service = \<lparr>sv_gateways = [(''local-egress'', example_gateway)], sv_node = demo_node, sv_store = True,
     sv_lifecycle = None, sv_path = [], sv_lease = 0, sv_synthesized = 0, sv_passthrough = 0, sv_allowed = 0,
     sv_denied = 0\<rparr>"

definition demo_client :: addr where
  "demo_client = V4 0x64400002"

lemma demo_service_ok:
  "sv_store demo_service" "sinv (env_now demo_env) (lease (service_lifecycle demo_service)) (n_store (sv_node demo_service))"
  using demo_node_ok [of "[]"]
  by (simp_all add: demo_service_def demo_env_def service_lifecycle_def node_ok_def demo_life_def lease_def)

text \<open>What the service knows of every spelling of the granted name.\<close>

lemma demo_policy: "Parse (env_lower demo_env) example_caps = [example_grant]"
  by (simp add: demo_env_def Parse_example)

lemma demo_authorized:
  assumes "NormalName id name = (''a.example.com'', True)"
  shows "authorized_pool demo_env demo_client name demo_service = Some (''a.example.com'', grant_ranges example_grant)"
proof -
  have "RangesForName [example_grant] ''a.example.com'' = Some (grant_ranges example_grant)" by code_simp
  then show ?thesis
    using assms demo_policy by (simp add: authorized_pool_def is_gateway_source_def) (simp add: demo_env_def)
qed

lemma demo_answers:
  assumes "NormalName id name = (''a.example.com'', True)"
  shows "DNSAnswer demo_env demo_client name demo_service =
      ((V4 0x0AFE0001, DNSSynthesized), snd (DNSAnswer demo_env demo_client name demo_service))"
    and "sv_gateways (snd (DNSAnswer demo_env demo_client name demo_service)) = sv_gateways demo_service"
proof -
  have "fst (allocate_for demo_env demo_service ''a.example.com'' (grant_ranges example_grant)) = (V4 0x0AFE0001, None)"
    by code_simp
  then obtain n where "allocate_for demo_env demo_service ''a.example.com'' (grant_ranges example_grant) = ((V4 0x0AFE0001, None), n)"
    by (metis prod.collapse)
  then have "DNSAnswer demo_env demo_client name demo_service =
      ((V4 0x0AFE0001, DNSSynthesized), bump_synthesized (demo_service\<lparr>sv_node := n\<rparr>))"
    by (simp add: DNSAnswer_eq demo_authorized [OF assms])
  then show "DNSAnswer demo_env demo_client name demo_service =
      ((V4 0x0AFE0001, DNSSynthesized), snd (DNSAnswer demo_env demo_client name demo_service))"
    "sv_gateways (snd (DNSAnswer demo_env demo_client name demo_service)) = sv_gateways demo_service"
    by (simp_all add: bump_defs)
qed

lemma demo_reverse_mapping:
  assumes "NormalName id name = (''a.example.com'', True)"
  shows "fst (PTRMapping demo_env (V4 0x0AFE0001) (snd (DNSAnswer demo_env demo_client name demo_service))) =
    Some \<lparr>map_gateway = ''10.254.0.0/29,10.254.1.0/30'', map_domain = ''a.example.com''\<rparr>"
proof -
  have "rangeKey (grant_ranges example_grant) = ''10.254.0.0/29,10.254.1.0/30''" by code_simp
  with DNSAnswer_registered [OF demo_service_ok demo_answers(1) [OF assms]] demo_authorized [OF assms] show ?thesis by auto
qed

lemma demo_spellings:
  "NormalName id ''A.Example.com.'' = (''a.example.com'', True)" "NormalName id ''A.Example.com'' = (''a.example.com'', True)"
  by code_simp+

definition answered_service :: Service where
  "answered_service = snd (DNSAnswer demo_env demo_client ''A.Example.com.'' demo_service)"

theorem gatewayForDestination_unique_witness:
  "gatewayForDestination demo_service (V4 0x0AFE0001) = Some example_gateway \<and>
   gatewayForDestination (demo_service\<lparr>sv_gateways := rev (sv_gateways demo_service)\<rparr>) (V4 0x0AFE0001) = Some example_gateway"
proof -
  have f: "filter (\<lambda>g. containsPrefix (gw_prefixes g) (V4 0x0AFE0001)) (map snd (sv_gateways demo_service)) = [example_gateway]"
    by code_simp
  let ?t = "demo_service\<lparr>sv_gateways := rev (sv_gateways demo_service)\<rparr>"
  have m: "mset (sv_gateways demo_service) = mset (sv_gateways ?t)" by simp
  note u = gatewayForDestination_unique [of demo_service "V4 0x0AFE0001" example_gateway ?t]
  from u f have a: "gatewayForDestination demo_service (V4 0x0AFE0001) = Some example_gateway" by blast
  from u m have "gatewayForDestination demo_service (V4 0x0AFE0001) = gatewayForDestination ?t (V4 0x0AFE0001)" by blast
  with a show ?thesis by (simp only: simp_thms)
qed


theorem FlowDomain_agrees_witness:
  "fst (Flow demo_env demo_client (V4 0x0AFE0001) ''tcp'' 443 answered_service) =
     Some (\<lparr>map_gateway = ''10.254.0.0/29,10.254.1.0/30'', map_domain = ''a.example.com''\<rparr>,
       example_gateway\<lparr>gw_resolver := ''9.9.9.9:53''\<rparr>) \<and>
   fst (FlowDomain demo_env demo_client (V4 0x0AFE0001) ''a.example.com.'' ''tcp'' 443 demo_service) =
     Some (example_gateway\<lparr>gw_resolver := ''9.9.9.9:53''\<rparr>)"
proof -
  let ?m = "\<lparr>map_gateway = ''10.254.0.0/29,10.254.1.0/30'', map_domain = ''a.example.com''\<rparr>"
  have p: "fst (PTRMapping demo_env (V4 0x0AFE0001) answered_service) = Some ?m"
    using demo_reverse_mapping [OF demo_spellings(1)] by (simp only: answered_service_def)
  have v: "validName (map_domain ?m)" by code_simp
  have g: "sv_gateways demo_service = sv_gateways answered_service"
    using demo_answers(2) [OF demo_spellings(1)] by (simp only: answered_service_def)
  obtain t where t: "PTRMapping demo_env (V4 0x0AFE0001) answered_service = (Some ?m, t)" using p by (metis prod.collapse)
  have "sv_gateways t = sv_gateways answered_service" using t by (auto simp: PTRMapping_def split: prod.splits)
  then have "gatewayForDestination t (V4 0x0AFE0001) = gatewayForDestination demo_service (V4 0x0AFE0001)"
    using g by (simp add: gatewayForDestination_def)
  moreover have "gatewayForDestination demo_service (V4 0x0AFE0001) = Some example_gateway" by code_simp
  moreover have "id_caps (env_identity demo_env) demo_client (V4 0x0AFE0001) = Inr example_caps" by (simp add: demo_env_def)
  ultimately have f: "fst (Flow demo_env demo_client (V4 0x0AFE0001) ''tcp'' 443 answered_service) =
      Some (?m, example_gateway\<lparr>gw_resolver := ''9.9.9.9:53''\<rparr>)"
    by (simp add: Flow_def t demo_policy GatewayFor_example)
  have n: "''a.example.com.'' = map_domain ?m \<or> ''a.example.com.'' = map_domain ?m @ ''.''" by simp
  show ?thesis using FlowDomain_agrees [OF p v n g, of demo_client "''tcp''" 443] f by simp
qed

end
