(* ===== verification/DnsUdp.thy ===== *)
theory DnsUdp
  imports Netip
begin

unbundle bit_operations_syntax

text \<open>
  The wire half of the DNS authority, \<^verbatim>\<open>internal/dnsudp/server.go\<close>. A datagram is a list of
  bytes; positions in it are natural numbers, and the answers are built by the same writes at
  positions as in the code. The decision is a parameter over some state, as the code takes it as
  a function. The lemmas show that every position the code reads or writes is inside the
  datagram, what an accepted question is, that encoded names and reverse names read back, and
  what an answer looks like byte by byte; the server loop is a step relation whose bound on
  concurrent handlers and whose ownership of buffers are invariants.
\<close>

section \<open>Bytes\<close>

definition byte_char :: "u8 \<Rightarrow> char" where
  "byte_char b = char_of (unat b)"

definition char_byte :: "char \<Rightarrow> u8" where
  "char_byte c = of_nat (code c)"

definition bytes_string :: "bytes \<Rightarrow> string" where
  "bytes_string bs = map byte_char bs"

definition string_bytes :: "string \<Rightarrow> bytes" where
  "string_bytes s = map char_byte s"

text \<open>\<^verbatim>\<open>binary.BigEndian\<close>, at a position.\<close>

definition Uint16 :: "bytes \<Rightarrow> nat \<Rightarrow> u16" where
  "Uint16 b p = push_bit 8 (ucast (b ! p)) OR ucast (b ! (p + 1))"

definition PutUint16 :: "nat \<Rightarrow> u16 \<Rightarrow> bytes \<Rightarrow> bytes" where
  "PutUint16 p v b = b[p := ucast (drop_bit 8 v), p + 1 := ucast v]"

definition PutUint32 :: "nat \<Rightarrow> 32 word \<Rightarrow> bytes \<Rightarrow> bytes" where
  "PutUint32 p v b =
     b[p := ucast (drop_bit 24 v), p + 1 := ucast (drop_bit 16 v), p + 2 := ucast (drop_bit 8 v), p + 3 := ucast v]"

text \<open>\<^verbatim>\<open>copy(b[p:p+n], src)\<close>.\<close>

definition copy_at :: "nat \<Rightarrow> nat \<Rightarrow> bytes \<Rightarrow> bytes \<Rightarrow> bytes" where
  "copy_at p n src b = (let k = min n (length src) in take p b @ take k src @ drop (p + k) b)"

fun AsSlice :: "addr \<Rightarrow> bytes" where
  "AsSlice (V4 w) = map (\<lambda>i. ucast (drop_bit (8 * i) w)) [3, 2, 1, 0]"
| "AsSlice (V6 w z) = map (\<lambda>i. ucast (drop_bit (8 * i) w)) (rev [0..<16])"
| "AsSlice NoAddr = []"

definition from_bytes :: "bytes \<Rightarrow> 'a::len word" where
  "from_bytes bs = foldl (\<lambda>w b. push_bit 8 w OR ucast b) 0 bs"

definition AddrFromSlice :: "bytes \<Rightarrow> addr" where
  "AddrFromSlice bs =
     (if length bs = 4 then V4 (from_bytes bs) else if length bs = 16 then V6 (from_bytes bs) [] else NoAddr)"

section \<open>Questions\<close>

definition TypeA :: u16 where "TypeA = 1"
definition TypePTR :: u16 where "TypePTR = 12"
definition TypeAAAA :: u16 where "TypeAAAA = 28"

record Question =
  q_name :: string
  q_type :: u16

text \<open>The label loop of \<open>parseQuestion\<close>, from position \<open>p\<close>.\<close>

function parse_labels :: "bytes \<Rightarrow> nat \<Rightarrow> string list \<Rightarrow> (string list \<times> nat) option" where
  "parse_labels request p labels =
     (if length request \<le> p then None
      else let n = unat (request ! p); p1 = p + 1 in
        if n = 0 then Some (labels, p1)
        else if 63 < n \<or> length request < p1 + n then None
        else parse_labels request (p1 + n) (labels @ [bytes_string (take n (drop p1 request))]))"
  by pat_completeness auto
termination
  by (relation "measure (\<lambda>(request, p, _). length request - p)") auto

declare parse_labels.simps [simp del]

definition parseQuestion :: "bytes \<Rightarrow> (Question \<times> nat) option" where
  "parseQuestion request =
     (if length request < 17 \<or> Uint16 request 4 \<noteq> 1 then None
      else (case parse_labels request 12 [] of
              None \<Rightarrow> None
            | Some (labels, p) \<Rightarrow>
                if length request < p + 4 then None
                else Some (\<lparr>q_name = Join labels ''.'', q_type = Uint16 request p\<rparr>, p + 4)))"

text \<open>The source of a datagram: the bytes of a UDP address, or the text of any other.\<close>

datatype net_addr = UDPAddr bytes | OtherAddr string

definition ParseAddrPort :: "string \<Rightarrow> (addr \<times> nat) option" where
  "ParseAddrPort s =
     (case CutLastByte s (CHR '':'') of
        None \<Rightarrow> None
      | Some (ip, port) \<Rightarrow>
          if ip = [] \<or> port = [] then None
          else let v6 = (hd ip = CHR ''['') in
            if v6 \<and> (length ip < 2 \<or> last ip \<noteq> CHR '']'') then None
            else (case ParseUint16 port of
                    None \<Rightarrow> None
                  | Some n \<Rightarrow>
                      (case ParseAddr (if v6 then butlast (tl ip) else ip) of
                         None \<Rightarrow> None
                       | Some a \<Rightarrow> if v6 = Is4 a then None else Some (a, n))))"

definition sourceIP :: "net_addr \<Rightarrow> addr" where
  "sourceIP source =
     (case source of
        UDPAddr ip \<Rightarrow> AddrFromSlice ip
      | OtherAddr s \<Rightarrow> (case ParseAddrPort s of None \<Rightarrow> NoAddr | Some (a, _) \<Rightarrow> a))"

section \<open>Answers\<close>

definition reply_flags :: "bytes \<Rightarrow> u16" where
  "reply_flags request = 0x8000 OR (Uint16 request 2 AND 0x0100)"

definition addressAnswer :: "bytes \<Rightarrow> nat \<Rightarrow> addr \<Rightarrow> bytes" where
  "addressAnswer request e ip =
     (let response = PutUint16 2 (reply_flags request) (take e request @ replicate 16 0) in
      if IsValid ip
      then copy_at (e + 12) 4 (AsSlice ip)
             (PutUint16 (e + 10) 4
               (PutUint32 (e + 6) 600
                 (PutUint16 (e + 4) 1
                   (PutUint16 (e + 2) TypeA
                     ((PutUint16 6 1 response)[e := 0xc0, e + 1 := 0x0c])))))
      else take e response)"

definition serverFailure :: "bytes \<Rightarrow> nat \<Rightarrow> bytes" where
  "serverFailure request e =
     (let response = addressAnswer request e NoAddr in PutUint16 2 (Uint16 response 2 OR 2) response)"

definition encodeName :: "string \<Rightarrow> bytes" where
  "encodeName name =
     concat (map (\<lambda>label. of_nat (length label) # string_bytes label)
       (SplitByte (CHR ''.'') (TrimSuffix name ''.''))) @ [0]"

definition ptrAnswer :: "bytes \<Rightarrow> nat \<Rightarrow> string \<Rightarrow> bytes" where
  "ptrAnswer request e name =
     (let rdata = encodeName name;
          response = PutUint16 2 (reply_flags request) (take e request @ replicate (12 + length rdata) 0) in
      copy_at (e + 12) (length rdata) rdata
        (PutUint16 (e + 10) (of_nat (length rdata))
          (PutUint32 (e + 6) 600
            (PutUint16 (e + 4) 1
              (PutUint16 (e + 2) TypePTR
                ((PutUint16 6 1 response)[e := 0xc0, e + 1 := 0x0c]))))))"

section \<open>Responding\<close>

datatype Outcome = NoResponse | Address | PTR | Passthrough | Unavailable

record Decision =
  dec_outcome :: Outcome
  dec_address :: addr
  dec_ptr :: string

text \<open>
  The decision function may be absent and may change the state behind it. The flag of the
  result asks for forwarding.
\<close>

type_synonym 's decide = "addr \<Rightarrow> Question \<Rightarrow> 's \<Rightarrow> Decision \<times> 's"

definition respond_with :: "bytes \<Rightarrow> Question \<Rightarrow> nat \<Rightarrow> Decision \<Rightarrow> bytes option \<times> bool" where
  "respond_with request question e decision =
     (case dec_outcome decision of
        Address \<Rightarrow>
          if q_type question = TypeA then (Some (addressAnswer request e (dec_address decision)), False)
          else if q_type question = TypeAAAA then (Some (addressAnswer request e NoAddr), False)
          else (None, False)
      | PTR \<Rightarrow>
          if dec_ptr decision \<noteq> [] then (Some (ptrAnswer request e (dec_ptr decision)), False)
          else (Some (addressAnswer request e NoAddr), False)
      | Passthrough \<Rightarrow> (None, True)
      | Unavailable \<Rightarrow> (Some (serverFailure request e), False)
      | NoResponse \<Rightarrow> (None, False))"

definition Respond :: "'s decide option \<Rightarrow> bytes \<Rightarrow> net_addr \<Rightarrow> 's \<Rightarrow> (bytes option \<times> bool) \<times> 's" where
  "Respond decide request source s =
     (case parseQuestion request of
        None \<Rightarrow> ((None, False), s)
      | Some (question, e) \<Rightarrow>
          (case decide of
             None \<Rightarrow> ((None, False), s)
           | Some f \<Rightarrow>
               (case f (sourceIP source) question s of
                  (decision, s') \<Rightarrow> (respond_with request question e decision, s'))))"

text \<open>
  Forwarding: what an exchange with the upstream yields, if dialling, writing and reading all
  work, is a parameter. The reply of a handler to its client is the response or the forwarded
  answer.
\<close>

definition forward :: "string option \<Rightarrow> (string \<Rightarrow> bytes \<Rightarrow> bytes option) \<Rightarrow> bytes \<Rightarrow> bytes option" where
  "forward upstream exchange request = (case upstream of None \<Rightarrow> None | Some u \<Rightarrow> exchange u request)"

definition handle ::
  "'s decide option \<Rightarrow> string option \<Rightarrow> (string \<Rightarrow> bytes \<Rightarrow> bytes option) \<Rightarrow> bytes \<Rightarrow> net_addr \<Rightarrow> 's \<Rightarrow> bytes option \<times> 's" where
  "handle decide upstream exchange request source s =
     (case Respond decide request source s of
        ((Some response, _), s') \<Rightarrow> (Some response, s')
      | ((None, True), s') \<Rightarrow> (forward upstream exchange request, s')
      | ((None, False), s') \<Rightarrow> (None, s'))"

section \<open>Reverse names\<close>

text \<open>The digit loop, in 16-bit arithmetic.\<close>

fun reverse_octet :: "u16 \<Rightarrow> string \<Rightarrow> u16 option" where
  "reverse_octet n [] = Some n"
| "reverse_octet n (c # cs) =
     (if \<not> is_digit c then None
      else let n' = n * 10 + of_nat (digit_val c) in
        if 255 < n' then None else reverse_octet n' cs)"

definition ReverseIPv4 :: "(string \<Rightarrow> string) \<Rightarrow> string \<Rightarrow> addr option" where
  "ReverseIPv4 ul name =
     (case SplitByte (CHR ''.'') (TrimSuffix (ToLower ul name) ''.'') of
        [a, b, c, d, x, y] \<Rightarrow>
          if x \<noteq> ''in-addr'' \<or> y \<noteq> ''arpa'' then None
          else (case (reverse_octet 0 d, reverse_octet 0 c, reverse_octet 0 b, reverse_octet 0 a) of
                  (Some o0, Some o1, Some o2, Some o3) \<Rightarrow>
                    Some (V4 (from_bytes [ucast o0, ucast o1, ucast o2, ucast o3]))
                | _ \<Rightarrow> None)
      | _ \<Rightarrow> None)"

section \<open>Reading and writing bytes\<close>

lemma byte_char_byte [simp]: "byte_char (char_byte c) = c"
proof -
  have "unat (of_nat (code c) :: 8 word) = code c" by (simp add: unat_of_nat)
  then show ?thesis by (simp add: byte_char_def char_byte_def code_def)
qed

lemma bytes_string_bytes [simp]: "bytes_string (string_bytes s) = s"
  by (simp add: bytes_string_def string_bytes_def comp_def)

lemma string_bytes_length [simp]: "length (string_bytes s) = length s" "length (bytes_string b) = length b"
  by (simp_all add: string_bytes_def bytes_string_def)

lemma PutUint16_length [simp]: "length (PutUint16 p v b) = length b"
  by (simp add: PutUint16_def)

lemma be16_join: "push_bit 8 (ucast (ucast (drop_bit 8 v) :: u8)) OR ucast (ucast v :: u8) = (v :: u16)"
  by (rule bit_word_eqI) (auto simp: bit_simps)

lemma Uint16_Put [simp]: "p + 1 < length b \<Longrightarrow> Uint16 (PutUint16 p v b) p = v"
  by (simp add: Uint16_def PutUint16_def be16_join)

lemma PutUint16_Put [simp]: "PutUint16 p v (PutUint16 p u b) = PutUint16 p v b"
  by (simp add: PutUint16_def list_update_swap)

lemma Uint16_Put_other:
  "q + 1 < p \<or> p + 1 < q \<Longrightarrow> Uint16 (PutUint16 p v b) q = Uint16 b q"
  by (auto simp: Uint16_def PutUint16_def)

lemma Uint16_append: "p + 1 < length xs \<Longrightarrow> Uint16 (xs @ ys) p = Uint16 xs p"
  by (simp add: Uint16_def nth_append)

lemma Uint16_take: "p + 1 < e \<Longrightarrow> Uint16 (take e b) p = Uint16 b p"
  by (simp add: Uint16_def)

lemma PutUint16_nth: "i \<noteq> p \<Longrightarrow> i \<noteq> p + 1 \<Longrightarrow> PutUint16 p v b ! i = b ! i"
  by (simp add: PutUint16_def)

lemma PutUint16_append1 [wire_simps]: "p + 1 < length xs \<Longrightarrow> PutUint16 p v (xs @ ys) = PutUint16 p v xs @ ys"
  by (simp add: PutUint16_def list_update_append)

lemma PutUint16_append2 [wire_simps]: "PutUint16 (length xs + i) v (xs @ ys) = xs @ PutUint16 i v ys"
  by (simp add: PutUint16_def list_update_append)

lemma PutUint32_append2 [wire_simps]: "PutUint32 (length xs + i) v (xs @ ys) = xs @ PutUint32 i v ys"
  by (simp add: PutUint32_def list_update_append)

lemma copy_at_append2 [wire_simps]: "copy_at (length xs + i) n src (xs @ ys) = xs @ copy_at i n src ys"
  by (simp add: copy_at_def Let_def add.assoc)

section \<open>The layout of an answer\<close>

text \<open>The request up to the end of its question, with the reply flags and one answer counted.\<close>

definition reply_body :: "bytes \<Rightarrow> nat \<Rightarrow> bytes" where
  "reply_body request e = PutUint16 6 1 (PutUint16 2 (reply_flags request) (take e request))"

text \<open>A resource record that points back to the question's name, class IN, ten minutes to live.\<close>

definition record_bytes :: "u16 \<Rightarrow> bytes \<Rightarrow> bytes" where
  "record_bytes t rdata =
     [0xc0, 0x0c, ucast (drop_bit 8 t), ucast t, 0, 1, 0, 0, 2, 88,
      ucast (drop_bit 8 (of_nat (length rdata) :: u16)), of_nat (length rdata)] @ rdata"

lemma reply_body_length [simp]: "e \<le> length request \<Longrightarrow> length (reply_body request e) = e"
  by (simp add: reply_body_def)

lemma write_record:
  assumes "length body = e" "length rdata = k"
  shows "copy_at (e + 12) k rdata
        (PutUint16 (e + 10) (of_nat k) (PutUint32 (e + 6) 600 (PutUint16 (e + 4) 1
          (PutUint16 (e + 2) t ((body @ replicate (12 + k) 0)[e := 0xc0, e + 1 := 0x0c]))))) =
    body @ record_bytes t rdata"
proof -
  have t: "replicate (12 + k) (0 :: u8) = [0, 0, 0, 0, 0, 0, 0, 0, 0, 0, 0, 0] @ replicate k 0"
    by (simp add: replicate_add numeral_eq_Suc)
  have b: "((body @ replicate (12 + k) 0)[e := 0xc0, e + 1 := 0x0c]) =
      body @ ([0xc0, 0x0c, 0, 0, 0, 0, 0, 0, 0, 0, 0, 0] @ replicate k 0)"
    using assms(1) by (simp add: t list_update_append)
  have u: "(ucast (of_nat k :: u16) :: u8) = of_nat k"
    by (rule bit_word_eqI) (auto simp: bit_simps)
  show ?thesis
    unfolding b using assms
    by (simp only: wire_simps assms(1) [symmetric])
      (simp add: PutUint16_def PutUint32_def copy_at_def record_bytes_def u)
qed

lemma addressAnswer_valid:
  assumes "12 \<le> e" "e \<le> length request" "IsValid ip"
  shows "addressAnswer request e ip = reply_body request e @ record_bytes TypeA (take 4 (AsSlice ip))"
proof -
  have c: "copy_at p 4 (AsSlice ip) b = copy_at p 4 (take 4 (AsSlice ip)) b" for p b
    by (simp add: copy_at_def Let_def min_def)
  have l: "length (take 4 (AsSlice ip)) = 4" using assms(3) by (cases ip) (auto simp: IsValid_def)
  let ?body = "PutUint16 2 (reply_flags request) (take e request)"
  have r: "PutUint16 2 (reply_flags request) (take e request @ replicate 16 0) = ?body @ replicate 16 0"
    using assms by (intro PutUint16_append1) simp
  have r6: "PutUint16 6 1 (?body @ replicate 16 0) = reply_body request e @ replicate 16 0"
    unfolding reply_body_def using assms by (intro PutUint16_append1) simp
  show ?thesis
    using write_record [of "reply_body request e" e "take 4 (AsSlice ip)" 4 TypeA] assms l
    by (simp add: addressAnswer_def r r6 c)
qed

lemma addressAnswer_empty:
  assumes "12 \<le> e" "e \<le> length request"
  shows "addressAnswer request e NoAddr = PutUint16 2 (reply_flags request) (take e request)"
    and "serverFailure request e = PutUint16 2 (reply_flags request OR 2) (take e request)"
proof -
  have "PutUint16 2 (reply_flags request) (take e request @ replicate 16 0) =
      PutUint16 2 (reply_flags request) (take e request) @ replicate 16 0"
    using assms by (intro PutUint16_append1) simp
  then show a: "addressAnswer request e NoAddr = PutUint16 2 (reply_flags request) (take e request)"
    using assms by (simp add: addressAnswer_def IsValid_def)
  show "serverFailure request e = PutUint16 2 (reply_flags request OR 2) (take e request)"
    unfolding serverFailure_def a Let_def using assms
    by (subst Uint16_Put) simp_all
qed

lemma ptrAnswer_layout:
  assumes "12 \<le> e" "e \<le> length request"
  shows "ptrAnswer request e name = reply_body request e @ record_bytes TypePTR (encodeName name)"
proof -
  let ?k = "length (encodeName name)"
  let ?body = "PutUint16 2 (reply_flags request) (take e request)"
  have r: "PutUint16 2 (reply_flags request) (take e request @ replicate (12 + ?k) 0) = ?body @ replicate (12 + ?k) 0"
    using assms by (intro PutUint16_append1) simp
  have r6: "PutUint16 6 1 (?body @ replicate (12 + ?k) 0) = reply_body request e @ replicate (12 + ?k) 0"
    unfolding reply_body_def using assms by (intro PutUint16_append1) simp
  show ?thesis
    unfolding ptrAnswer_def Let_def r r6
    by (rule write_record) (use assms in simp_all)
qed

section \<open>The label loop\<close>

definition label_size :: "string list \<Rightarrow> nat" where
  "label_size labels = sum_list (map (\<lambda>l. Suc (length l)) labels)"

definition wire_labels :: "string list \<Rightarrow> bool" where
  "wire_labels labels \<longleftrightarrow> list_all (\<lambda>l. l \<noteq> [] \<and> length l \<le> 63) labels"

lemma label_size_simps [simp]:
  "label_size [] = 0" "label_size (l # ls) = Suc (length l + label_size ls)"
  "label_size (ls @ ms) = label_size ls + label_size ms"
  by (simp_all add: label_size_def)

text \<open>What the loop accepts: some labels of one to 63 bytes and the root, all inside the datagram.\<close>

lemma parse_labels_Some:
  "parse_labels request p labels = Some (labels', p') \<Longrightarrow>
     \<exists>new. labels' = labels @ new \<and> wire_labels new \<and> p' = p + label_size new + 1 \<and> p' \<le> length request"
proof (induction request p labels rule: parse_labels.induct)
  case (1 request p labels)
  let ?n = "unat (request ! p)"
  show ?case
  proof (cases "?n = 0")
    case True
    with 1(2) show ?thesis
      by (auto simp: parse_labels.simps [of request p] wire_labels_def split: if_splits intro!: exI [of _ "[]"])
  next
    case False
    let ?l = "bytes_string (take ?n (drop (p + 1) request))"
    from False 1(2) have c: "\<not> length request \<le> p" "\<not> (63 < ?n \<or> length request < p + 1 + ?n)"
      and r: "parse_labels request (p + 1 + ?n) (labels @ [?l]) = Some (labels', p')"
      by (auto simp: parse_labels.simps [of request p] Let_def split: if_splits)
    from 1(1) [OF c(1) refl refl False c(2) r] obtain new where
      new: "labels' = (labels @ [?l]) @ new" "wire_labels new" "p' = p + 1 + ?n + label_size new + 1" "p' \<le> length request"
      by blast
    have l: "length ?l = ?n" using c(2) by auto
    then have "?l \<noteq> []" using False by (metis list.size(3))
    with l new c show ?thesis
      by (intro exI [of _ "?l # new"]) (auto simp: wire_labels_def)
  qed
qed

text \<open>The loop reads only what it accepts.\<close>

lemma parse_labels_frame:
  assumes "parse_labels request p labels = Some (labels', p')"
    and "\<forall>i. p \<le> i \<and> i < p' \<longrightarrow> other ! i = request ! i" "p' \<le> length other"
  shows "parse_labels other p labels = Some (labels', p')"
  using assms(1,2)
proof (induction request p labels rule: parse_labels.induct)
  case (1 request p labels)
  let ?n = "unat (request ! p)"
  have p': "p < p'" "p' \<le> length request" using parse_labels_Some [OF 1(2)] by auto
  then have o: "\<not> length other \<le> p" "other ! p = request ! p" using 1(3) assms(3) by auto
  show ?case
  proof (cases "?n = 0")
    case True
    with 1(2) o show ?thesis
      by (auto simp: parse_labels.simps [of request p] parse_labels.simps [of other p] split: if_splits)
  next
    case False
    let ?l = "bytes_string (take ?n (drop (p + 1) request))"
    from False 1(2) have c: "\<not> length request \<le> p" "\<not> (63 < ?n \<or> length request < p + 1 + ?n)"
      and r: "parse_labels request (p + 1 + ?n) (labels @ [?l]) = Some (labels', p')"
      by (auto simp: parse_labels.simps [of request p] Let_def split: if_splits)
    have q: "p + 1 + ?n < p'" using parse_labels_Some [OF r] by auto
    have "take ?n (drop (p + 1) other) = take ?n (drop (p + 1) request)"
    proof (rule nth_equalityI)
      show "length (take ?n (drop (p + 1) other)) = length (take ?n (drop (p + 1) request))"
        using q c(2) assms(3) by auto
      fix i assume "i < length (take ?n (drop (p + 1) other))"
      then show "take ?n (drop (p + 1) other) ! i = take ?n (drop (p + 1) request) ! i"
        using 1(3) q c(2) assms(3) by simp
    qed
    moreover have "parse_labels other (p + 1 + ?n) (labels @ [?l]) = Some (labels', p')"
      using 1(1) [OF c(1) refl refl False c(2) r] 1(3) by simp
    ultimately show ?thesis
      using o c q assms(3) False by (simp add: parse_labels.simps [of other p] Let_def)
  qed
qed

text \<open>Encoded labels read back.\<close>

definition encode_labels :: "string list \<Rightarrow> bytes" where
  "encode_labels labels = concat (map (\<lambda>label. of_nat (length label) # string_bytes label) labels)"

lemma encode_labels_length [simp]: "length (encode_labels labels) = label_size labels"
  by (induction labels) (simp_all add: encode_labels_def)

lemma parse_encoded:
  assumes "wire_labels new"
  shows "parse_labels (pre @ encode_labels new @ 0 # post) (length pre) labels =
    Some (labels @ new, length pre + label_size new + 1)"
  using assms
proof (induction new arbitrary: pre labels)
  case Nil
  then show ?case by (simp add: parse_labels.simps encode_labels_def)
next
  case (Cons l new)
  have l: "l \<noteq> []" "length l \<le> 63" and new: "wire_labels new" using Cons.prems by (auto simp: wire_labels_def)
  then have u: "unat (of_nat (length l) :: u8) = length l" by (simp add: unat_of_nat)
  let ?m = "pre @ (of_nat (length l) # string_bytes l) @ encode_labels new @ 0 # post"
  have m: "pre @ encode_labels (l # new) @ 0 # post = ?m" by (simp add: encode_labels_def)
  have "parse_labels ?m (length pre) labels =
      parse_labels ?m (length pre + 1 + length l) (labels @ [l])"
    using l u by (subst parse_labels.simps) (simp add: nth_append Let_def)
  also have "\<dots> = Some ((labels @ [l]) @ new, length (pre @ of_nat (length l) # string_bytes l) + label_size new + 1)"
    using Cons.IH [OF new, of "pre @ of_nat (length l) # string_bytes l" "labels @ [l]"] by simp
  finally show ?case unfolding m by simp
qed

lemma encodeName_labels:
  "encodeName name = encode_labels (SplitByte (CHR ''.'') (TrimSuffix name ''.'')) @ [0]"
  by (simp add: encodeName_def encode_labels_def)

lemma label_size_Join: "labels \<noteq> [] \<Longrightarrow> label_size labels = Suc (length (Join labels [c]))"
  by (induction labels "[c]" rule: Join.induct) simp_all

section \<open>Questions and answers\<close>

lemma parseQuestion_SomeE:
  assumes "parseQuestion request = Some (q, e)"
  obtains labels where "wire_labels labels" "q = \<lparr>q_name = Join labels ''.'', q_type = Uint16 request (e - 4)\<rparr>"
    "e = 12 + label_size labels + 1 + 4" "e \<le> length request" "Uint16 request 4 = 1"
    "parse_labels request 12 [] = Some (labels, e - 4)"
proof -
  from assms obtain labels p where p: "parse_labels request 12 [] = Some (labels, p)" "e = p + 4"
    "p + 4 \<le> length request" "Uint16 request 4 = 1" "q = \<lparr>q_name = Join labels ''.'', q_type = Uint16 request p\<rparr>"
    by (auto simp: parseQuestion_def split: if_splits option.splits)
  with parse_labels_Some [OF p(1)] that [of labels] show ?thesis by auto
qed

lemma parseQuestion_end: "parseQuestion request = Some (q, e) \<Longrightarrow> 17 \<le> e \<and> e \<le> length request"
  by (erule parseQuestion_SomeE) simp

lemma parseQuestion_frame:
  assumes "parseQuestion request = Some (q, e)" "e \<le> length other"
    and "\<forall>i. i = 4 \<or> i = 5 \<or> 12 \<le> i \<and> i < e \<longrightarrow> other ! i = request ! i"
  shows "parseQuestion other = Some (q, e)"
proof -
  obtain labels where l: "q = \<lparr>q_name = Join labels ''.'', q_type = Uint16 request (e - 4)\<rparr>"
    "e = 12 + label_size labels + 1 + 4" "Uint16 request 4 = 1"
    "parse_labels request 12 [] = Some (labels, e - 4)"
    using assms(1) by (rule parseQuestion_SomeE)
  have "parse_labels other 12 [] = Some (labels, e - 4)"
    by (rule parse_labels_frame [OF l(4)]) (use assms(2,3) l(2) in auto)
  moreover have "Uint16 other 4 = Uint16 request 4" "Uint16 other (e - 4) = Uint16 request (e - 4)"
    using assms(3) l(2) by (simp_all add: Uint16_def)
  ultimately show ?thesis using assms(2) l by (simp add: parseQuestion_def)
qed

lemma reply_body_nth:
  assumes "i < e" "e \<le> length request" "i = 0 \<or> i = 1 \<or> i = 4 \<or> i = 5 \<or> 8 \<le> i"
  shows "reply_body request e ! i = request ! i"
  using assms by (auto simp: reply_body_def PutUint16_nth)

text \<open>An answer keeps the identifier and the question of its request, and says that it is one.\<close>

lemma reply_header:
  assumes "parseQuestion request = Some (q, e)" "r = reply_body request e @ rest"
  shows "take 2 r = take 2 request" "parseQuestion r = Some (q, e)" "Uint16 r 2 = reply_flags request"
    "Uint16 r 6 = 1" "drop e r = rest" "Uint16 r 8 = Uint16 request 8" "Uint16 r 10 = Uint16 request 10"
proof -
  note e = parseQuestion_end [OF assms(1)]
  then have l: "length (reply_body request e) = e" by simp
  have n: "r ! i = request ! i" if "i < e" "i = 0 \<or> i = 1 \<or> i = 4 \<or> i = 5 \<or> 8 \<le> i" for i
    using reply_body_nth [of i e request] that e l assms(2) by (simp add: nth_append)
  show "take 2 r = take 2 request"
    using e l n [of 0] n [of 1] assms(2)
    by (intro nth_equalityI) (auto simp: less_2_cases_iff nth_append)
  show "parseQuestion r = Some (q, e)"
    using e l n assms(2) by (intro parseQuestion_frame [OF assms(1)]) auto
  show "Uint16 r 2 = reply_flags request" "Uint16 r 6 = 1"
    using e l by (simp_all add: assms(2) Uint16_append reply_body_def Uint16_Put_other)
  show "drop e r = rest" using l assms(2) by simp
  show "Uint16 r 8 = Uint16 request 8" "Uint16 r 10 = Uint16 request 10"
    using e n by (simp_all add: Uint16_def)
qed

lemma AddrFromSlice_AsSlice: "AddrFromSlice (AsSlice (V4 w)) = V4 w"
proof -
  have "from_bytes (AsSlice (V4 w)) = w"
  proof (rule bit_word_eqI)
    fix n assume "n < LENGTH(32)"
    then consider "n < 8" | "8 \<le> n" "n < 16" | "16 \<le> n" "n < 24" | "24 \<le> n" "n < 32" by fastforce
    then show "bit (from_bytes (AsSlice (V4 w)) :: 32 word) n = bit w n"
      by cases (auto simp: from_bytes_def bit_simps)
  qed
  then show ?thesis by (simp add: AddrFromSlice_def)
qed

lemma parse_rdata:
  assumes "wire_labels labels"
  shows "parse_labels (pre @ encode_labels labels @ [0]) (length pre) [] = Some (labels, length pre + label_size labels + 1)"
  using parse_encoded [OF assms, of pre "[]" "[]"] by simp

text \<open>Names that fit the wire: no empty label and none over 63 bytes, at most 253 bytes.\<close>

definition wire_name :: "string \<Rightarrow> bool" where
  "wire_name name \<longleftrightarrow> length name \<le> 253 \<and> wire_labels (SplitByte (CHR ''.'') name)"

lemma wire_name_no_dot: "wire_name name \<Longrightarrow> TrimSuffix name ''.'' = name"
proof -
  assume w: "wire_name name"
  have "\<not> suffix ''.'' name"
  proof
    assume "suffix ''.'' name"
    then obtain s where "name = s @ ''.''" by (auto simp: suffix_def)
    then have "[] \<in> set (SplitByte (CHR ''.'') name)" by (simp add: SplitByte_concat)
    with w show False by (auto simp: wire_name_def wire_labels_def list_all_iff)
  qed
  then show ?thesis by (rule TrimSuffix_id)
qed

lemma encodeName_length: "wire_name name \<Longrightarrow> length (encodeName name) = length name + 2"
  using label_size_Join [of "SplitByte (CHR ''.'') name" "CHR ''.''"]
  by (simp add: encodeName_labels wire_name_no_dot Join_SplitByte)

section \<open>Properties\<close>

lemma parse_query:
  assumes "wire_name name" and "length hdr = 12" and "Uint16 hdr 4 = 1" and "n \<in> {name, name @ ''.''}"
  shows "parseQuestion (hdr @ encodeName n @ [t1, t0, c1, c0] @ extra) =
    Some (\<lparr>q_name = name, q_type = push_bit 8 (ucast t1) OR ucast t0\<rparr>, 12 + (length name + 2) + 4)"
proof -
  let ?ls = "SplitByte (CHR ''.'') name"
  have n: "encodeName n = encode_labels ?ls @ [0]"
    using assms(4) wire_name_no_dot [OF assms(1)] by (auto simp: encodeName_labels)
  have sz: "label_size ?ls = length name + 1"
    using label_size_Join [of ?ls "CHR ''.''"] by (simp add: Join_SplitByte)
  let ?r = "hdr @ encode_labels ?ls @ 0 # [t1, t0, c1, c0] @ extra"
  have p: "parse_labels ?r 12 [] = Some (?ls, length name + 14)"
    using parse_encoded [of ?ls hdr "[t1, t0, c1, c0] @ extra" "[]"] assms(1,2) sz by (simp add: wire_name_def)
  have "?r ! (length name + 14) = t1" "?r ! (15 + length name) = t0"
    using assms(2) sz by (simp_all add: nth_append)
  then have "Uint16 ?r (length name + 14) = push_bit 8 (ucast t1) OR ucast t0" by (simp add: Uint16_def)
  moreover have "Uint16 ?r 4 = 1" using assms(2,3) by (simp add: Uint16_append)
  ultimately show ?thesis using p assms(2) sz by (simp add: parseQuestion_def n Join_SplitByte)
qed

text \<open>
  C23: A query is read back exactly. For every name of non-empty labels of at most 63 bytes,
  written with or without its final dot, every type and every header that announces one
  question, \<open>parseQuestion\<close> of the encoded query gives the name without the dot, the type and
  the position right behind the question, whatever follows it in the datagram.
\<close>

theorem parseQuestion_query:
  assumes "wire_name name" and "length hdr = 12" and "Uint16 hdr 4 = 1" and "n \<in> {name, name @ ''.''}"
  shows "parseQuestion (hdr @ encodeName n @ [t1, t0, c1, c0] @ extra) =
    Some (\<lparr>q_name = name, q_type = push_bit 8 (ucast t1) OR ucast t0\<rparr>, 12 + (length name + 2) + 4)"
  using assms by (rule parse_query)

section \<open>Reading an answer the way a client does\<close>

text \<open>
  A resolver's view of the record at position \<open>p\<close> of a message, in the compressed form the
  server writes: owner, type, class, time to live and data.
\<close>

definition answer_at :: "bytes \<Rightarrow> nat \<Rightarrow> (string \<times> u16 \<times> u16 \<times> 32 word \<times> bytes) option" where
  "answer_at r p =
     (if length r < p + 12 \<or> r ! p \<noteq> 0xc0 then None
      else (case parse_labels r (unat (r ! (p + 1))) [] of
              None \<Rightarrow> None
            | Some (labels, _) \<Rightarrow>
                let n = unat (Uint16 r (p + 10)) in
                if length r < p + 12 + n then None
                else Some (Join labels ''.'', Uint16 r (p + 2), Uint16 r (p + 4),
                       from_bytes (take 4 (drop (p + 6) r)), take n (drop (p + 12) r))))"

lemma record_fields:
  assumes "length body = e" "length rdata < 65536" and r_def: "r = body @ record_bytes t rdata"
  shows "r ! e = 0xc0" "r ! (e + 1) = 0x0c" "Uint16 r (e + 2) = t" "Uint16 r (e + 4) = 1"
    "from_bytes (take 4 (drop (e + 6) r)) = (600 :: 32 word)" "unat (Uint16 r (e + 10)) = length rdata"
    "drop (e + 12) r = rdata" "length r = e + 12 + length rdata"
proof -
  have u: "(of_nat (length rdata) :: u8) = ucast (of_nat (length rdata) :: u16)"
    by (rule bit_word_eqI) (auto simp: bit_simps)
  show "Uint16 r (e + 2) = t" "Uint16 r (e + 4) = 1"
    using be16_join [of t] by (simp_all add: r_def record_bytes_def Uint16_def nth_append assms(1))
  have "Uint16 r (e + 10) = of_nat (length rdata)"
    using be16_join [of "of_nat (length rdata)"]
    by (simp add: r_def record_bytes_def Uint16_def nth_append assms(1) u)
  then show "unat (Uint16 r (e + 10)) = length rdata" using assms(2) by (simp add: unat_of_nat)
qed (simp_all add: r_def record_bytes_def assms(1) nth_append from_bytes_def)

lemma answer_at_record:
  assumes "parseQuestion request = Some (q, e)" "r = reply_body request e @ record_bytes t rdata"
    and "length rdata < 65536"
  shows "answer_at r e = Some (q_name q, t, 1, 600, rdata)"
proof -
  have l: "length (reply_body request e) = e" using parseQuestion_end [OF assms(1)] by simp
  note f = record_fields [OF l assms(3,2)]
  have "parseQuestion r = Some (q, e)" by (rule reply_header [OF assms(1,2)])
  then obtain labels where "q_name q = Join labels ''.''" "parse_labels r 12 [] = Some (labels, e - 4)"
    by (rule parseQuestion_SomeE) simp
  then show ?thesis by (simp add: answer_at_def f del: One_nat_def add_2_eq_Suc')
qed

lemma ptr_rdata_bound: "wire_name n \<Longrightarrow> length (encodeName n) < 65536"
  using encodeName_length [of n] by (simp add: wire_name_def)

section \<open>Properties of the responses\<close>

lemma answered_address:
  assumes "parseQuestion request = Some (q, e)" and "q_type q = TypeA"
    and "decide (sourceIP source) q s = (\<lparr>dec_outcome = Address, dec_address = V4 w, dec_ptr = n\<rparr>, s')"
  shows "\<exists>r. Respond (Some decide) request source s = ((Some r, False), s') \<and>
    take 2 r = take 2 request \<and> parseQuestion r = Some (q, e) \<and> Uint16 r 2 = reply_flags request \<and>
    Uint16 r 6 = 1 \<and> length r = e + 16 \<and>
    answer_at r e = Some (q_name q, TypeA, 1, 600, AsSlice (V4 w)) \<and> AddrFromSlice (AsSlice (V4 w)) = V4 w"
proof -
  let ?r = "reply_body request e @ record_bytes TypeA (AsSlice (V4 w))"
  have e: "17 \<le> e" "e \<le> length request" using parseQuestion_end [OF assms(1)] by auto
  then have "Respond (Some decide) request source s = ((Some ?r, False), s')"
    by (simp add: Respond_def respond_with_def assms addressAnswer_valid IsValid_def)
  moreover have "length ?r = e + 16" using e by (simp add: record_bytes_def)
  ultimately show ?thesis
    using reply_header [OF assms(1) refl, of "record_bytes TypeA (AsSlice (V4 w))"]
      answer_at_record [OF assms(1) refl, of "AsSlice (V4 w)" TypeA] AddrFromSlice_AsSlice [of w]
    by simp
qed

text \<open>
  C21: What a client reads in an address answer. For an accepted question of type A and a decision
  with an IPv4 address the response has the identifier and the question of the request, is marked
  as a response with the client's recursion bit and no error, announces one answer and is exactly
  that long; the record behind the question belongs to the asked name, is of type A and class IN,
  lives ten minutes, and its four bytes are the decided address.
\<close>

theorem Respond_address:
  assumes "parseQuestion request = Some (q, e)" and "q_type q = TypeA"
    and "decide (sourceIP source) q s = (\<lparr>dec_outcome = Address, dec_address = V4 w, dec_ptr = n\<rparr>, s')"
  shows "\<exists>r. Respond (Some decide) request source s = ((Some r, False), s') \<and>
    take 2 r = take 2 request \<and> parseQuestion r = Some (q, e) \<and> Uint16 r 2 = reply_flags request \<and>
    Uint16 r 6 = 1 \<and> length r = e + 16 \<and>
    answer_at r e = Some (q_name q, TypeA, 1, 600, AsSlice (V4 w)) \<and> AddrFromSlice (AsSlice (V4 w)) = V4 w"
  using assms by (rule answered_address)

lemma answered_ptr:
  assumes "parseQuestion request = Some (q, e)" and "wire_name n"
    and "decide (sourceIP source) q s = (\<lparr>dec_outcome = PTR, dec_address = a, dec_ptr = n\<rparr>, s')"
    and "n \<noteq> []"
  shows "\<exists>r labels. Respond (Some decide) request source s = ((Some r, False), s') \<and>
    take 2 r = take 2 request \<and> parseQuestion r = Some (q, e) \<and> Uint16 r 2 = reply_flags request \<and>
    Uint16 r 6 = 1 \<and> length r = e + 12 + (length n + 2) \<and>
    answer_at r e = Some (q_name q, TypePTR, 1, 600, encodeName n) \<and>
    parse_labels r (e + 12) [] = Some (labels, length r) \<and> Join labels ''.'' = n"
proof -
  let ?r = "reply_body request e @ record_bytes TypePTR (encodeName n)"
  let ?ls = "SplitByte (CHR ''.'') n"
  have e: "17 \<le> e" "e \<le> length request" using parseQuestion_end [OF assms(1)] by auto
  then have "Respond (Some decide) request source s = ((Some ?r, False), s')"
    by (simp add: Respond_def respond_with_def assms ptrAnswer_layout)
  moreover have l: "length ?r = e + 12 + (length n + 2)"
    using e encodeName_length [OF assms(2)] by (simp add: record_bytes_def)
  moreover obtain pre where pre: "?r = pre @ encode_labels ?ls @ [0]" "length pre = e + 12"
    using that [of "reply_body request e @ take 12 (record_bytes TypePTR (encodeName n))"] e
    by (simp add: record_bytes_def encodeName_labels wire_name_no_dot [OF assms(2)])
  moreover from pre(1) have "length ?r = length pre + label_size ?ls + 1" by simp
  ultimately have "parse_labels ?r (e + 12) [] = Some (?ls, length ?r)"
    using parse_rdata [of ?ls pre] assms(2) by (simp add: wire_name_def)
  then show ?thesis
    using reply_header [OF assms(1) refl, of "record_bytes TypePTR (encodeName n)"] l
      answer_at_record [OF assms(1) refl ptr_rdata_bound [OF assms(2)], of TypePTR]
      \<open>Respond (Some decide) request source s = ((Some ?r, False), s')\<close> Join_SplitByte [of "CHR ''.''" n]
    by (metis (no_types, lifting))
qed

text \<open>
  C22: What a client reads in a reverse answer. For an accepted question and a decision with a name
  that fits the wire, the response keeps identifier and question, announces one answer and is
  exactly that long; the record behind the question belongs to the asked name, is of type PTR and
  class IN, and the name read from its data is the decided one, to the last byte of the message.
\<close>

theorem Respond_ptr:
  assumes "parseQuestion request = Some (q, e)" and "wire_name n"
    and "decide (sourceIP source) q s = (\<lparr>dec_outcome = PTR, dec_address = a, dec_ptr = n\<rparr>, s')"
    and "n \<noteq> []"
  shows "\<exists>r labels. Respond (Some decide) request source s = ((Some r, False), s') \<and>
    take 2 r = take 2 request \<and> parseQuestion r = Some (q, e) \<and> Uint16 r 2 = reply_flags request \<and>
    Uint16 r 6 = 1 \<and> length r = e + 12 + (length n + 2) \<and>
    answer_at r e = Some (q_name q, TypePTR, 1, 600, encodeName n) \<and>
    parse_labels r (e + 12) [] = Some (labels, length r) \<and> Join labels ''.'' = n"
  using assms by (rule answered_ptr)

section \<open>Every response answers its request\<close>

text \<open>The parts of a response that tie it to its request.\<close>

definition answers :: "bytes \<Rightarrow> Question \<times> nat \<Rightarrow> bytes \<Rightarrow> bool" where
  "answers request qe r \<longleftrightarrow> take 2 r = take 2 request \<and> parseQuestion r = Some qe \<and> snd qe \<le> length r"

lemma answers_body:
  assumes "parseQuestion request = Some (q, e)"
  shows "answers request (q, e) (reply_body request e @ rest)" "Uint16 (reply_body request e @ rest) 2 = reply_flags request"
  using reply_header [OF assms refl, of rest] parseQuestion_end [OF assms] by (auto simp: answers_def)

lemma answers_plain:
  assumes "parseQuestion request = Some (q, e)"
  shows "answers request (q, e) (PutUint16 2 f (take e request))" "Uint16 (PutUint16 2 f (take e request)) 2 = f"
proof -
  let ?r = "PutUint16 2 f (take e request)"
  have e: "17 \<le> e" "e \<le> length request" using parseQuestion_end [OF assms] by auto
  have n: "?r ! i = request ! i" if "i < e" "i \<noteq> 2" "i \<noteq> 3" for i
    using that e by (simp add: PutUint16_nth)
  have "take 2 ?r = take 2 request"
    using e n [of 0] n [of 1] by (intro nth_equalityI) (auto simp: less_2_cases_iff)
  moreover have "parseQuestion ?r = Some (q, e)"
    using e by (intro parseQuestion_frame [OF assms]) (auto intro: n)
  ultimately show "answers request (q, e) ?r" using e by (simp add: answers_def)
  show "Uint16 ?r 2 = f" using e by simp
qed

lemma respond_with_answers:
  assumes "parseQuestion request = Some (q, e)" "respond_with request q e d = (Some r, fwd)"
  shows "answers request (q, e) r \<and>
    Uint16 r 2 = (if dec_outcome d = Unavailable then reply_flags request OR 2 else reply_flags request)"
proof -
  have e: "12 \<le> e" "e \<le> length request" using parseQuestion_end [OF assms(1)] by auto
  note l = addressAnswer_valid [OF e] addressAnswer_empty [OF e] ptrAnswer_layout [OF e]
    answers_body [OF assms(1)] answers_plain [OF assms(1)]
  have "IsValid a \<or> a = NoAddr" for a by (simp add: IsValid_def)
  then show ?thesis
    using assms(2) by (cases "dec_outcome d") (auto simp: respond_with_def l split: if_splits, (metis l)+)
qed

text \<open>
  C13: A response always answers its own request. Whatever the decision, a response carries the
  request's identifier and exactly its question, has the response bit set and only the client's
  recursion bit copied, and has return code 2 exactly when the decision is Unavailable and 0
  otherwise. Forwarding is asked for exactly when an accepted question is decided as passthrough,
  and then there is no response; a datagram that is no well-formed single question, or a server
  without a decision, yields neither, and leaves the state behind the decision alone.
\<close>

theorem Respond_sound:
  assumes "Respond decide request source s = ((reply, fwd), s')"
  shows "(\<forall>r. reply = Some r \<longrightarrow>
      (\<exists>q e f. parseQuestion request = Some (q, e) \<and> decide = Some f \<and>
        take 2 r = take 2 request \<and> parseQuestion r = Some (q, e) \<and>
        Uint16 r 2 = 0x8000 OR (Uint16 request 2 AND 0x0100) OR
          (if dec_outcome (fst (f (sourceIP source) q s)) = Unavailable then 2 else 0))) \<and>
    (fwd \<longleftrightarrow> (\<exists>q e f. parseQuestion request = Some (q, e) \<and> decide = Some f \<and>
        dec_outcome (fst (f (sourceIP source) q s)) = Passthrough)) \<and>
    (fwd \<longrightarrow> reply = None) \<and>
    (parseQuestion request = None \<or> decide = None \<longrightarrow> reply = None \<and> s' = s)"
proof (cases "parseQuestion request = None \<or> decide = None")
  case True
  with assms show ?thesis by (auto simp: Respond_def split: option.splits)
next
  case False
  then obtain q e f where q: "parseQuestion request = Some (q, e)" "decide = Some f" by auto
  obtain d t where d: "f (sourceIP source) q s = (d, t)" by fastforce
  with assms q have r: "respond_with request q e d = (reply, fwd)" by (simp add: Respond_def)
  have "fwd \<longleftrightarrow> dec_outcome d = Passthrough" "fwd \<longrightarrow> reply = None"
    using r by (auto simp: respond_with_def split: Outcome.splits if_splits)
  moreover have "take 2 x = take 2 request \<and> parseQuestion x = Some (q, e) \<and>
      Uint16 x 2 = 0x8000 OR (Uint16 request 2 AND 0x0100) OR (if dec_outcome d = Unavailable then 2 else 0)"
    if "reply = Some x" for x
    using respond_with_answers [OF q(1), of d x fwd] r that by (simp add: answers_def reply_flags_def or.assoc)
  ultimately show ?thesis using q d by auto
qed

section \<open>Reverse names\<close>

lemma foldl_digits_mono: "(n :: nat) \<le> foldl (\<lambda>n c. n * 10 + digit_val c) n s"
proof (induction s arbitrary: n)
  case (Cons c s)
  show ?case using Cons [of "n * 10 + digit_val c"] by simp
qed simp

text \<open>
  The digit loop computes in 16 bits what it would compute with unbounded integers: it stops
  before a product can wrap.
\<close>

lemma reverse_octet_fold:
  "n \<le> 255 \<Longrightarrow> reverse_octet (of_nat n) s =
     (if all_digits s \<and> foldl (\<lambda>n c. n * 10 + digit_val c) n s \<le> 255
      then Some (of_nat (foldl (\<lambda>n c. n * 10 + digit_val c) n s)) else None)"
proof (induction s arbitrary: n)
  case Nil
  then show ?case by (simp add: all_digits_def)
next
  case (Cons c s)
  let ?m = "n * 10 + digit_val c"
  show ?case
  proof (cases "is_digit c")
    case True
    then have m: "?m \<le> 2559" using Cons.prems digit_val_le [of c] by simp
    have w: "of_nat n * 10 + of_nat (digit_val c) = (of_nat ?m :: u16)" by simp
    have "(255 :: u16) < of_nat ?m \<longleftrightarrow> 255 < ?m"
      using m by (simp add: word_less_nat_alt unat_of_nat del: of_nat_add of_nat_mult)
    then show ?thesis
      using True Cons.IH [of ?m] foldl_digits_mono [of ?m s]
      by (auto simp: all_digits_def w simp del: of_nat_add of_nat_mult)
  qed (simp add: all_digits_def)
qed

lemma reverse_octet_value:
  "reverse_octet 0 l = (if all_digits l \<and> atoi l \<le> 255 then Some (of_nat (atoi l)) else None)"
  using reverse_octet_fold [of 0 l] by (simp add: atoi_def)

text \<open>
  The digit loop of \<open>ReverseIPv4\<close> never wraps its 16-bit accumulator: for every label it
  yields the label's decimal value when the label consists of digits and that value, as an
  unbounded number, is at most 255, and rejects the label otherwise.
\<close>

theorem reverse_octet_exact:
  "reverse_octet 0 label =
     (if all_digits label \<and> atoi label \<le> 255 then Some (of_nat (atoi label)) else None)"
  by (rule reverse_octet_value)

lemma push_or_add: "push_bit 8 w OR ucast (b :: u8) = w * 256 + (ucast b :: 32 word)"
proof -
  have "push_bit 8 w + ucast b = push_bit 8 w OR (ucast b :: 32 word)"
    by (rule disjunctive_add) (auto simp: bit_simps dest!: bit_imp_le_length [of b])
  then show ?thesis by (simp add: push_bit_eq_mult)
qed

lemma from_bytes_octets:
  assumes "a \<le> 255" "b \<le> 255" "c \<le> 255" "d \<le> 255"
  shows "V4 (from_bytes [ucast (of_nat a :: u16), ucast (of_nat b :: u16), ucast (of_nat c :: u16), ucast (of_nat d :: u16)]) =
    AddrFrom4 a b c d"
proof -
  have u: "(ucast (ucast (of_nat n :: u16) :: u8) :: 32 word) = of_nat n" if "n \<le> 255" for n
  proof -
    have "unat (ucast (of_nat n :: u16) :: u8) = n"
      using that by (simp add: unsigned_ucast_eq unat_of_nat take_bit_eq_mod)
    then show ?thesis by (metis of_nat_unat)
  qed
  show ?thesis using assms by (simp add: from_bytes_def AddrFrom4_def push_or_add u)
qed

lemma ReverseIPv4_parts:
  "SplitByte (CHR ''.'') (TrimSuffix (ToLower ul name) ''.'') = [a, b, c, d, ''in-addr'', ''arpa''] \<Longrightarrow>
   ReverseIPv4 ul name =
     (if list_all (\<lambda>l. all_digits l \<and> atoi l \<le> 255) [a, b, c, d]
      then Some (AddrFrom4 (atoi d) (atoi c) (atoi b) (atoi a)) else None)"
  by (simp add: ReverseIPv4_def reverse_octet_value from_bytes_octets)

lemma ReverseIPv4_SomeE:
  assumes "ReverseIPv4 ul name = Some ip"
  obtains a b c d where "SplitByte (CHR ''.'') (TrimSuffix (ToLower ul name) ''.'') = [a, b, c, d, ''in-addr'', ''arpa'']"
  using assms by (auto simp: ReverseIPv4_def split: list.splits if_splits)

text \<open>
  C37: Exactly which names are reverse names of IPv4 addresses: after lowering and dropping a final
  dot, four labels of digits with values up to 255 and then \<^verbatim>\<open>in-addr.arpa\<close>, and the address is
  the one with those octets in reverse order.
\<close>

theorem ReverseIPv4_exact:
  "ReverseIPv4 ul name = Some ip \<longleftrightarrow>
     (\<exists>a b c d. TrimSuffix (ToLower ul name) ''.'' = Join [a, b, c, d, ''in-addr'', ''arpa''] ''.'' \<and>
        list_all (\<lambda>l. all_digits l \<and> atoi l \<le> 255) [a, b, c, d] \<and>
        ip = AddrFrom4 (atoi d) (atoi c) (atoi b) (atoi a))" (is "?L = (\<exists>a b c d. ?R a b c d)")
proof
  assume r: ?L
  then obtain a b c d where s:
    "SplitByte (CHR ''.'') (TrimSuffix (ToLower ul name) ''.'') = [a, b, c, d, ''in-addr'', ''arpa'']"
    by (rule ReverseIPv4_SomeE)
  have "?R a b c d"
    using r ReverseIPv4_parts [OF s] Join_SplitByte [of "CHR ''.''" "TrimSuffix (ToLower ul name) ''.''"]
    by (simp add: s split: if_splits)
  then show "\<exists>a b c d. ?R a b c d" by blast
next
  assume "\<exists>a b c d. ?R a b c d"
  then obtain a b c d where r: "?R a b c d" by blast
  then have "list_all (\<lambda>x. CHR ''.'' \<notin> set x) [a, b, c, d, ''in-addr'', ''arpa'']"
    using digit_not_sep by auto
  then have "SplitByte (CHR ''.'') (TrimSuffix (ToLower ul name) ''.'') = [a, b, c, d, ''in-addr'', ''arpa'']"
    using SplitByte_Join [of "[a, b, c, d, ''in-addr'', ''arpa'']" "CHR ''.''"] r by simp
  from ReverseIPv4_parts [OF this] r show ?L by simp
qed

section \<open>The server loop\<close>

text \<open>
  \<open>Serve\<close> as a step relation. Buffers are numbered and live in a memory; the pool holds those
  that were put back, and getting one takes any of them or a new one. The loop gets a buffer, reads a
  datagram into it, waits for a free place among the 256 and starts a handler, which owns the
  buffer. A handler replies from what its buffer holds at that moment, then gives back its place,
  then its buffer. The decision and the exchange with the upstream are evaluated in the reply step.
\<close>

definition buffer_size :: nat where "buffer_size = 65535"
definition max_jobs :: nat where "max_jobs = 256"

datatype loop = Getting | Reading nat | Received nat nat net_addr | Returned

datatype phase = Handling | Replied | Released

record handler =
  h_buffer :: nat
  h_length :: nat
  h_source :: net_addr
  h_phase :: phase

record 's server =
  sv_loop :: loop
  sv_pool :: "nat list"
  sv_made :: nat
  sv_memory :: "nat \<Rightarrow> bytes"
  sv_jobs :: nat
  sv_handlers :: "handler list"
  sv_state :: 's
  sv_received :: "(bytes \<times> net_addr) list"
  sv_sent :: "(bytes \<times> net_addr) list"

definition h_request :: "'s server \<Rightarrow> handler \<Rightarrow> bytes" where
  "h_request s h = take (h_length h) (sv_memory s (h_buffer h))"

definition serve_init :: "'s \<Rightarrow> 's server" where
  "serve_init s0 = \<lparr>sv_loop = Getting, sv_pool = [], sv_made = 0, sv_memory = (\<lambda>_. []), sv_jobs = 0,
     sv_handlers = [], sv_state = s0, sv_received = [], sv_sent = []\<rparr>"

inductive serve_step :: "'s decide option \<Rightarrow> string option \<Rightarrow> 's server \<Rightarrow> 's server \<Rightarrow> bool"
  for decide upstream where
  get_pooled: "sv_loop s = Getting \<Longrightarrow> b \<in> set (sv_pool s) \<Longrightarrow>
    serve_step decide upstream s (s\<lparr>sv_loop := Reading b, sv_pool := remove1 b (sv_pool s)\<rparr>)"
| get_new: "sv_loop s = Getting \<Longrightarrow>
    serve_step decide upstream s
      (s\<lparr>sv_loop := Reading (sv_made s), sv_made := Suc (sv_made s),
         sv_memory := (sv_memory s)(sv_made s := replicate buffer_size 0)\<rparr>)"
| read: "sv_loop s = Reading b \<Longrightarrow> length datagram \<le> buffer_size \<Longrightarrow>
    serve_step decide upstream s
      (s\<lparr>sv_loop := Received b (length datagram) source,
         sv_memory := (sv_memory s)(b := copy_at 0 buffer_size datagram (sv_memory s b)),
         sv_received := sv_received s @ [(datagram, source)]\<rparr>)"
| read_error: "sv_loop s = Reading b \<Longrightarrow>
    serve_step decide upstream s (s\<lparr>sv_loop := Returned, sv_pool := b # sv_pool s\<rparr>)"
| spawn: "sv_loop s = Received b n source \<Longrightarrow> sv_jobs s < max_jobs \<Longrightarrow>
    serve_step decide upstream s
      (s\<lparr>sv_loop := Getting, sv_jobs := Suc (sv_jobs s),
         sv_handlers := \<lparr>h_buffer = b, h_length = n, h_source = source, h_phase = Handling\<rparr> # sv_handlers s\<rparr>)"
| reply: "sv_handlers s = hs @ h # hs' \<Longrightarrow> h_phase h = Handling \<Longrightarrow>
    handle decide upstream exchange (h_request s h) (h_source h) (sv_state s) = (response, t) \<Longrightarrow>
    serve_step decide upstream s
      (s\<lparr>sv_handlers := hs @ h\<lparr>h_phase := Replied\<rparr> # hs', sv_state := t,
         sv_sent := sv_sent s @ (case response of None \<Rightarrow> [] | Some r \<Rightarrow> [(r, h_source h)])\<rparr>)"
| release: "sv_handlers s = hs @ h # hs' \<Longrightarrow> h_phase h = Replied \<Longrightarrow>
    serve_step decide upstream s
      (s\<lparr>sv_handlers := hs @ h\<lparr>h_phase := Released\<rparr> # hs', sv_jobs := sv_jobs s - 1\<rparr>)"
| put: "sv_handlers s = hs @ h # hs' \<Longrightarrow> h_phase h = Released \<Longrightarrow>
    serve_step decide upstream s
      (s\<lparr>sv_handlers := hs @ hs', sv_pool := h_buffer h # sv_pool s\<rparr>)"

inductive_cases serve_stepE: "serve_step decide upstream s s'"

section \<open>Invariants of the loop\<close>

fun loop_buffer :: "loop \<Rightarrow> nat list" where
  "loop_buffer (Reading b) = [b]"
| "loop_buffer (Received b _ _) = [b]"
| "loop_buffer _ = []"

definition owned :: "'s server \<Rightarrow> nat list" where
  "owned s = loop_buffer (sv_loop s) @ sv_pool s @ map h_buffer (sv_handlers s)"

definition active :: "handler list \<Rightarrow> nat" where
  "active hs = length (filter (\<lambda>h. h_phase h \<noteq> Released) hs)"

definition exclusive :: "'s server \<Rightarrow> bool" where
  "exclusive s \<longleftrightarrow> distinct (owned s) \<and> list_all (\<lambda>b. b < sv_made s) (owned s)"

definition tokens :: "'s server \<Rightarrow> bool" where
  "tokens s \<longleftrightarrow> sv_jobs s = active (sv_handlers s) \<and> sv_jobs s \<le> max_jobs"

definition intact :: "'s server \<Rightarrow> bool" where
  "intact s \<longleftrightarrow>
     list_all (\<lambda>h. h_phase h = Handling \<longrightarrow> (h_request s h, h_source h) \<in> set (sv_received s)) (sv_handlers s) \<and>
     (\<forall>b n source. sv_loop s = Received b n source \<longrightarrow>
        (take n (sv_memory s b), source) \<in> set (sv_received s))"

lemma active_simps [simp]:
  "active [] = 0" "active (h # hs) = (if h_phase h \<noteq> Released then 1 else 0) + active hs"
  "active (hs @ hs') = active hs + active hs'"
  by (simp_all add: active_def)

lemma exclusive_step: "serve_step decide upstream s s' \<Longrightarrow> exclusive s \<Longrightarrow> exclusive s'"
  by (erule serve_stepE) (auto simp: exclusive_def owned_def list_all_iff intro: less_SucI)

lemma tokens_step: "serve_step decide upstream s s' \<Longrightarrow> tokens s \<Longrightarrow> tokens s'"
  by (erule serve_stepE) (auto simp: tokens_def)

lemma copy_at_start: "length src \<le> n \<Longrightarrow> take (length src) (copy_at 0 n src b) = src"
  by (simp add: copy_at_def Let_def)

text \<open>Steps change no buffer that a handler or the loop holds, except the one being read into.\<close>

lemma step_memory:
  assumes "serve_step decide upstream s s'" "exclusive s"
    and "h \<in> set (sv_handlers s)"
  shows "sv_memory s' (h_buffer h) = sv_memory s (h_buffer h)"
proof -
  have "h_buffer h < sv_made s" "h_buffer h \<notin> set (loop_buffer (sv_loop s))"
    using assms(2,3) by (auto simp: exclusive_def owned_def list_all_iff)
  with assms(1) show ?thesis by cases auto
qed

lemma intact_step:
  assumes "serve_step decide upstream s s'" "exclusive s" "intact s"
  shows "intact s'"
proof -
  have k: "h_request s' h = h_request s h" if "h \<in> set (sv_handlers s)" for h
    using step_memory [OF assms(1,2) that] by (simp add: h_request_def)
  from assms(1) show ?thesis
  proof cases
    case (read b datagram source)
    with assms(3) k show ?thesis
      by (auto simp: intact_def list_all_iff copy_at_start)
  next
    case (spawn b n source)
    with assms(3) k show ?thesis
      by (auto simp: intact_def list_all_iff h_request_def)
  next
    case get_new
    with assms(3) k show ?thesis by (auto simp: intact_def list_all_iff)
  qed (use assms(3) k in \<open>auto simp: intact_def list_all_iff h_request_def\<close>)
qed

text \<open>Everything sent is what the handler computes for a datagram that was received.\<close>

definition faithful :: "'s decide option \<Rightarrow> string option \<Rightarrow> 's server \<Rightarrow> bool" where
  "faithful decide upstream s \<longleftrightarrow>
     list_all (\<lambda>(r, source). \<exists>request exchange t. (request, source) \<in> set (sv_received s) \<and>
       fst (handle decide upstream exchange request source t) = Some r) (sv_sent s)"

lemma faithful_step:
  assumes "serve_step decide upstream s s'" "intact s" "faithful decide upstream s"
  shows "faithful decide upstream s'"
  using assms(1)
proof cases
  case (reply hs h hs' exchange response t)
  have m: "(h_request s h, h_source h) \<in> set (sv_received s)"
    using assms(2) reply(2,3) by (simp add: intact_def)
  show ?thesis
  proof (cases response)
    case None
    with reply(1) assms(3) show ?thesis by (simp add: faithful_def)
  next
    case (Some r)
    have "fst (handle decide upstream exchange (h_request s h) (h_source h) (sv_state s)) = Some r"
      using reply(4) Some by simp
    with m have "\<exists>request exchange t. (request, h_source h) \<in> set (sv_received s) \<and>
        fst (handle decide upstream exchange request (h_source h) t) = Some r" by blast
    with reply(1) Some assms(3) show ?thesis by (simp add: faithful_def)
  qed
next
  case (read b datagram source)
  with assms(3) show ?thesis by (fastforce simp: faithful_def list_all_iff)
qed (use assms(3) in \<open>simp_all add: faithful_def\<close>)

definition reachable :: "'s decide option \<Rightarrow> string option \<Rightarrow> 's \<Rightarrow> 's server \<Rightarrow> bool" where
  "reachable decide upstream s0 s \<longleftrightarrow> (serve_step decide upstream)\<^sup>*\<^sup>* (serve_init s0) s"

lemma reachable_inv:
  assumes "reachable decide upstream s0 s"
  shows "exclusive s \<and> tokens s \<and> intact s \<and> faithful decide upstream s"
  using assms unfolding reachable_def
proof (induction rule: rtranclp_induct)
  case base
  show ?case
    by (simp add: serve_init_def exclusive_def owned_def tokens_def intact_def faithful_def max_jobs_def)
next
  case (step s s')
  then show ?case using exclusive_step tokens_step intact_step faithful_step by metis
qed

section \<open>Properties of the loop\<close>

text \<open>
  C10: No cross-talk between requests. Whatever the interleaving of reads, handlers and buffer
  reuse, every datagram the server has sent to an address is the reply that the handler computes
  for a datagram that was received from that very address: a handler never sees a buffer that a
  later read has overwritten.
\<close>

theorem serve_replies:
  assumes "reachable decide upstream s0 s" and "(r, source) \<in> set (sv_sent s)"
  shows "\<exists>request exchange t. (request, source) \<in> set (sv_received s) \<and>
    fst (handle decide upstream exchange request source t) = Some r"
  using reachable_inv [OF assms(1)] assms(2) by (fastforce simp: faithful_def list_all_iff)

text \<open>
  C25: Bounded concurrency. In every reachable state at most 256 handlers hold a place, the count of
  places is exact, and every buffer has one owner: the loop, the pool or one handler.
\<close>

theorem serve_bounded:
  assumes "reachable decide upstream s0 s"
  shows "length (filter (\<lambda>h. h_phase h \<noteq> Released) (sv_handlers s)) = sv_jobs s \<and> sv_jobs s \<le> 256 \<and>
    distinct (loop_buffer (sv_loop s) @ sv_pool s @ map h_buffer (sv_handlers s))"
  using reachable_inv [OF assms] by (simp add: exclusive_def owned_def tokens_def active_def max_jobs_def)

fun phase_left :: "phase \<Rightarrow> nat" where
  "phase_left Handling = 3"
| "phase_left Replied = 2"
| "phase_left Released = 1"

definition work_left :: "'s server \<Rightarrow> nat" where
  "work_left s = sum_list (map (phase_left \<circ> h_phase) (sv_handlers s))"

lemma handler_progress:
  assumes "sv_handlers s \<noteq> []"
  shows "\<exists>s'. serve_step decide upstream s s' \<and> work_left s' < work_left s \<and> sv_loop s' = sv_loop s \<and>
    sv_received s' = sv_received s"
proof -
  from assms obtain h hs where h: "sv_handlers s = [] @ h # hs" by (cases "sv_handlers s") auto
  show ?thesis
  proof (cases "h_phase h")
    case Handling
    obtain response t where "handle decide upstream (\<lambda>_ _. None) (h_request s h) (h_source h) (sv_state s) = (response, t)"
      by fastforce
    from serve_step.reply [OF h Handling this] h Handling show ?thesis
      by (intro exI conjI) (assumption, simp_all add: work_left_def)
  next
    case Replied
    from serve_step.release [OF h Replied] h Replied show ?thesis
      by (intro exI conjI) (assumption, simp_all add: work_left_def)
  next
    case Released
    from serve_step.put [OF h Released] h Released show ?thesis
      by (intro exI conjI) (assumption, simp_all add: work_left_def)
  qed
qed

lemma handlers_drain:
  "\<exists>s'. (serve_step decide upstream)\<^sup>*\<^sup>* s s' \<and> sv_handlers s' = [] \<and> sv_loop s' = sv_loop s \<and>
    sv_received s' = sv_received s"
proof (induction "work_left s" arbitrary: s rule: less_induct)
  case less
  show ?case
  proof (cases "sv_handlers s = []")
    case False
    then obtain t where t: "serve_step decide upstream s t" "work_left t < work_left s" "sv_loop t = sv_loop s"
      "sv_received t = sv_received s"
      using handler_progress by blast
    from less [OF t(2)] obtain s' where "(serve_step decide upstream)\<^sup>*\<^sup>* t s'" "sv_handlers s' = []"
      "sv_loop s' = sv_loop t" "sv_received s' = sv_received t" by blast
    with t show ?thesis by (metis converse_rtranclp_into_rtranclp)
  qed auto
qed

text \<open>
  C26: The loop never deadlocks. From every reachable state the running handlers can all finish, one
  step after the other, without another datagram arriving; all places are then free, and a loop that
  was waiting for a place with a received datagram can start its handler.
\<close>

theorem serve_drains:
  assumes "reachable decide upstream s0 s"
  shows "\<exists>s'. (serve_step decide upstream)\<^sup>*\<^sup>* s s' \<and> sv_handlers s' = [] \<and> sv_jobs s' = 0 \<and>
    sv_loop s' = sv_loop s \<and> sv_received s' = sv_received s \<and>
    (\<forall>b n source. sv_loop s = Received b n source \<longrightarrow>
      (\<exists>s'' h. serve_step decide upstream s' s'' \<and> sv_loop s'' = Getting \<and> sv_handlers s'' = [h] \<and>
        h_source h = source \<and> (h_request s'' h, source) \<in> set (sv_received s)))"
proof -
  obtain s' where s': "(serve_step decide upstream)\<^sup>*\<^sup>* s s'" "sv_handlers s' = []" "sv_loop s' = sv_loop s"
    "sv_received s' = sv_received s"
    using handlers_drain by blast
  then have "reachable decide upstream s0 s'" using assms by (auto simp: reachable_def)
  then have j: "sv_jobs s' = 0" and i: "intact s'" using reachable_inv s'(2) by (fastforce simp: tokens_def)+
  have "\<exists>s'' h. serve_step decide upstream s' s'' \<and> sv_loop s'' = Getting \<and> sv_handlers s'' = [h] \<and>
      h_source h = source \<and> (h_request s'' h, source) \<in> set (sv_received s)"
    if w: "sv_loop s = Received b n source" for b n source
  proof -
    let ?h = "\<lparr>h_buffer = b, h_length = n, h_source = source, h_phase = Handling\<rparr>"
    let ?s = "s'\<lparr>sv_loop := Getting, sv_jobs := Suc (sv_jobs s'), sv_handlers := ?h # sv_handlers s'\<rparr>"
    have l: "sv_loop s' = Received b n source" using s'(3) w by simp
    have "serve_step decide upstream s' ?s"
      by (rule serve_step.spawn [OF l]) (simp add: j max_jobs_def)
    moreover have "(h_request ?s ?h, source) \<in> set (sv_received s)"
      using i l s'(4) by (simp add: intact_def h_request_def)
    ultimately show ?thesis using s'(2) by (intro exI [of _ ?s] exI [of _ ?h]) simp
  qed
  with s' j show ?thesis by blast
qed

text \<open>
  The header of an address answer still counts the authority and additional records of the
  request, while the message ends with its one answer: the reply to a query with an EDNS record
  announces an additional record that it does not contain.
\<close>

theorem Respond_counts_dropped_records:
  assumes "parseQuestion request = Some (q, e)" and "q_type q = TypeA"
    and "decide (sourceIP source) q s = (\<lparr>dec_outcome = Address, dec_address = V4 w, dec_ptr = n\<rparr>, s')"
  shows "\<exists>r. Respond (Some decide) request source s = ((Some r, False), s') \<and>
    Uint16 r 8 = Uint16 request 8 \<and> Uint16 r 10 = Uint16 request 10 \<and> drop e r = record_bytes TypeA (AsSlice (V4 w))"
proof -
  have e: "17 \<le> e" "e \<le> length request" using parseQuestion_end [OF assms(1)] by auto
  then have "Respond (Some decide) request source s =
      ((Some (reply_body request e @ record_bytes TypeA (AsSlice (V4 w))), False), s')"
    by (simp add: Respond_def respond_with_def assms addressAnswer_valid IsValid_def)
  then show ?thesis using reply_header(5-7) [OF assms(1) refl] by blast
qed

section \<open>Witnesses\<close>

text \<open>A query for \<^verbatim>\<open>db.example\<close> with recursion desired and an EDNS record, and the same for a reverse name.\<close>

definition demo_header :: bytes where
  "demo_header = [0x12, 0x34, 1, 0, 0, 1, 0, 0, 0, 0, 0, 1]"

definition demo_edns :: bytes where
  "demo_edns = [0, 0, 41, 4, 208, 0, 0, 0, 0, 0, 0]"

definition demo_query :: bytes where
  "demo_query = demo_header @ encodeName ''db.example.'' @ [0, 1, 0, 1] @ demo_edns"

definition demo_reverse :: bytes where
  "demo_reverse = demo_header @ encodeName ''7.0.64.100.in-addr.arpa'' @ [0, 12, 0, 1]"

definition demo_source :: net_addr where
  "demo_source = UDPAddr [100, 64, 0, 9]"

definition demo_decide :: "nat decide" where
  "demo_decide source q s =
     (if q_type q = TypePTR then \<lparr>dec_outcome = PTR, dec_address = NoAddr, dec_ptr = ''db.example''\<rparr>
      else \<lparr>dec_outcome = Address, dec_address = V4 0x64400007, dec_ptr = []\<rparr>, s + 1)"

lemma demo_wire_name: "wire_name ''db.example'' \<and> wire_name ''7.0.64.100.in-addr.arpa''"
  by (simp add: wire_name_def wire_labels_def)

lemma demo_parse:
  "parseQuestion demo_query = Some (\<lparr>q_name = ''db.example'', q_type = 1\<rparr>, 28)"
  "parseQuestion demo_reverse = Some (\<lparr>q_name = ''7.0.64.100.in-addr.arpa'', q_type = 12\<rparr>, 41)"
  by code_simp+

theorem parseQuestion_query_witness:
  "parseQuestion (demo_header @ encodeName ''db.example.'' @ [0, 28, 0, 1] @ demo_edns) =
     Some (\<lparr>q_name = ''db.example'', q_type = TypeAAAA\<rparr>, 28)"
  using parseQuestion_query [of "''db.example''" demo_header "''db.example.''" 0 28 0 1 demo_edns] demo_wire_name
  by (simp add: demo_header_def Uint16_def TypeAAAA_def)

theorem Respond_address_witness:
  "\<exists>r. Respond (Some demo_decide) demo_query demo_source 4 = ((Some r, False), 5) \<and>
    take 2 r = [0x12, 0x34] \<and> Uint16 r 6 = 1 \<and> length r = 44 \<and>
    answer_at r 28 = Some (''db.example'', TypeA, 1, 600, AsSlice (V4 0x64400007))"
  using Respond_address [OF demo_parse(1), where decide = demo_decide and source = demo_source and s = 4
      and w = "0x64400007" and n = "[]" and s' = 5]
  by (auto simp: demo_decide_def TypeA_def TypePTR_def demo_query_def demo_header_def)

theorem Respond_ptr_witness:
  "\<exists>r labels. Respond (Some demo_decide) demo_reverse demo_source 4 = ((Some r, False), 5) \<and>
    length r = 65 \<and> parse_labels r 53 [] = Some (labels, length r) \<and> Join labels ''.'' = ''db.example''"
  using Respond_ptr [OF demo_parse(2), where decide = demo_decide and source = demo_source and s = 4
      and a = NoAddr and n = "''db.example''" and s' = 5] demo_wire_name
  by (auto simp: demo_decide_def TypePTR_def)

theorem Respond_sound_witness:
  "\<exists>r. fst (Respond (Some demo_decide) demo_reverse demo_source 4) = (Some r, False) \<and>
    take 2 r = [0x12, 0x34] \<and> Uint16 r 2 = 0x8100"
proof -
  obtain reply fwd s' where r: "Respond (Some demo_decide) demo_reverse demo_source 4 = ((reply, fwd), s')"
    using prod.exhaust by metis
  from r obtain x where "reply = Some x" "\<not> fwd"
    by (auto simp: Respond_def demo_parse demo_decide_def TypePTR_def respond_with_def)
  with Respond_sound [OF r] r show ?thesis
    by (auto simp: demo_parse demo_decide_def TypePTR_def demo_reverse_def demo_header_def Uint16_def)
qed

theorem Respond_counts_dropped_records_witness:
  "\<exists>r. Respond (Some demo_decide) demo_query demo_source 4 = ((Some r, False), 5) \<and>
    Uint16 r 10 = 1 \<and> drop 28 r = record_bytes TypeA (AsSlice (V4 0x64400007))"
proof -
  have "Uint16 demo_query 10 = 1" by (simp add: demo_query_def demo_header_def Uint16_def)
  then show ?thesis
    using Respond_counts_dropped_records [OF demo_parse(1), where decide = demo_decide and source = demo_source
        and s = 4 and w = "0x64400007" and n = "[]" and s' = 5]
    by (auto simp: demo_decide_def TypeA_def TypePTR_def)
qed

text \<open>A run of the loop: a datagram is received, its handler replies and another buffer is made for the next read.\<close>

lemma demo_run:
  "\<exists>s r. reachable (Some demo_decide) None 4 s \<and> sv_loop s = Reading 1 \<and> sv_jobs s = 1 \<and>
     sv_received s = [(demo_query, demo_source)] \<and> sv_sent s = [(r, demo_source)]"
proof -
  let ?step = "serve_step (Some demo_decide) None"
  let ?s0 = "serve_init (4 :: nat)"
  let ?h = "\<lparr>h_buffer = 0, h_length = length demo_query, h_source = demo_source, h_phase = Handling\<rparr>"
  have len: "length demo_query \<le> buffer_size"
    by (simp add: demo_query_def demo_header_def demo_edns_def encodeName_def TrimSuffix_def HasSuffix_def buffer_size_def)
  obtain s1 where s1: "?step ?s0 s1" "sv_loop s1 = Reading 0" "sv_made s1 = 1" "sv_jobs s1 = 0" "sv_handlers s1 = []"
    "sv_received s1 = []" "sv_sent s1 = []" "sv_state s1 = 4"
    using serve_step.get_new [of ?s0 "Some demo_decide" None] by (auto simp: serve_init_def)
  obtain s2 where s2: "?step s1 s2" "sv_loop s2 = Received 0 (length demo_query) demo_source" "sv_made s2 = 1"
    "sv_jobs s2 = 0" "sv_handlers s2 = []" "sv_received s2 = [(demo_query, demo_source)]" "sv_sent s2 = []"
    "sv_state s2 = 4" "take (length demo_query) (sv_memory s2 0) = demo_query"
    using serve_step.read [OF s1(2) len, of "Some demo_decide" None demo_source] s1
    by (auto simp: copy_at_start len)
  obtain s3 where s3: "?step s2 s3" "sv_loop s3 = Getting" "sv_made s3 = 1" "sv_jobs s3 = 1"
    "sv_handlers s3 = [] @ ?h # []" "sv_received s3 = [(demo_query, demo_source)]" "sv_sent s3 = []" "sv_state s3 = 4"
    "h_request s3 ?h = demo_query"
    using serve_step.spawn [OF s2(2), of "Some demo_decide" None] s2 by (auto simp: max_jobs_def h_request_def)
  obtain r t where r: "handle (Some demo_decide) None (\<lambda>_ _. None) demo_query demo_source 4 = (Some r, t)"
    by (auto simp: handle_def Respond_def demo_parse demo_decide_def TypePTR_def TypeA_def respond_with_def)
  obtain s4 where s4: "?step s3 s4" "sv_loop s4 = Getting" "sv_made s4 = 1" "sv_jobs s4 = 1"
    "sv_received s4 = [(demo_query, demo_source)]" "sv_sent s4 = [(r, demo_source)]"
    using serve_step.reply [OF s3(5), of "Some demo_decide" None "\<lambda>_ _. None" "Some r" t] s3 r by auto
  obtain s5 where s5: "?step s4 s5" "sv_loop s5 = Reading 1" "sv_jobs s5 = 1"
    "sv_received s5 = [(demo_query, demo_source)]" "sv_sent s5 = [(r, demo_source)]"
    using serve_step.get_new [OF s4(2), of "Some demo_decide" None] s4 by auto
  have "?step\<^sup>*\<^sup>* ?s0 s5"
    using s1(1) s2(1) s3(1) s4(1) s5(1) by (meson rtranclp.rtrancl_into_rtrancl rtranclp.rtrancl_refl)
  with s5 show ?thesis by (auto simp: reachable_def)
qed

theorem serve_replies_witness:
  "\<exists>s r. reachable (Some demo_decide) None 4 s \<and> sv_sent s = [(r, demo_source)] \<and>
    (\<exists>exchange t. fst (handle (Some demo_decide) None exchange demo_query demo_source t) = Some r)"
proof -
  obtain s r where s: "reachable (Some demo_decide) None 4 s" "sv_received s = [(demo_query, demo_source)]"
    "sv_sent s = [(r, demo_source)]" using demo_run by blast
  have "(r, demo_source) \<in> set (sv_sent s)" using s by simp
  from serve_replies [OF s(1) this] s show ?thesis by auto
qed

theorem serve_bounded_witness:
  "\<exists>s. reachable (Some demo_decide) None 4 s \<and> sv_loop s = Reading 1 \<and>
    length (filter (\<lambda>h. h_phase h \<noteq> Released) (sv_handlers s)) = 1 \<and> distinct (1 # sv_pool s @ map h_buffer (sv_handlers s))"
proof -
  obtain s r where s: "reachable (Some demo_decide) None 4 s" "sv_loop s = Reading 1" "sv_jobs s = 1"
    using demo_run by blast
  with serve_bounded [OF s(1)] show ?thesis by auto
qed

theorem serve_drains_witness:
  "\<exists>s s'. reachable (Some demo_decide) None 4 s \<and> sv_jobs s = 1 \<and>
    (serve_step (Some demo_decide) None)\<^sup>*\<^sup>* s s' \<and> sv_handlers s' = [] \<and> sv_jobs s' = 0"
proof -
  obtain s r where s: "reachable (Some demo_decide) None 4 s" "sv_jobs s = 1" using demo_run by blast
  with serve_drains [OF s(1)] show ?thesis by blast
qed

end
