(* ===== verification/Proxy.thy ===== *)
theory Proxy
  imports Service DnsUdp
begin

text \<open>
  The data plane of an egress instance: \<^verbatim>\<open>internal/domain/gateway.go\<close> and
  \<^verbatim>\<open>tsnet_gateway.go\<close>. A connection is followed up to the point where its bytes are
  relayed: which name the destination stands for, whether the flow is allowed, which resolver is
  asked over which path, and which backend is dialled. The network is a parameter. The lemmas
  show that nothing is dialled without authorization, and that the routes an embedded gateway
  advertises are exactly the destinations its handler takes, registered before they are
  advertised.
\<close>

section \<open>The world of a gateway\<close>

text \<open>
  The optional functions of a \<open>Service\<close> that only a gateway uses. A way to reach a resolver is a
  value of some type, since the code only passes it on.
\<close>

record 'd dataplane =
  dp_ptr_lookup :: "(addr \<Rightarrow> string list result) option"
  dp_resolver_dial :: "'d option"
  dp_system_resolver :: "string result option"

text \<open>
  What the standard library does on the network: the default resolver's reverse lookup, the
  host's dialer, the lookup of a name at a resolver over a path, and dialling a backend.
\<close>

record 'd network =
  net_lookup_addr :: "addr \<Rightarrow> string list result"
  net_host_dial :: 'd
  net_lookup_ip :: "'d \<Rightarrow> string \<Rightarrow> string \<Rightarrow> addr list result"
  net_dial_tcp :: "string \<Rightarrow> bool"

text \<open>How a connection ends: at the step that failed, or relayed to a backend.\<close>

datatype proxied = NoName | Denied | NoResolver | NoBackend | DialFailed string | Relayed string

section \<open>Proxying a connection\<close>

definition ProxyTCP ::
  "'d network \<Rightarrow> 'd dataplane \<Rightarrow> env \<Rightarrow> addr \<Rightarrow> addr \<times> u16 \<Rightarrow> Service \<Rightarrow> proxied \<times> Service" where
  "ProxyTCP net dp env src dst s =
     (let lookupPTR = (case dp_ptr_lookup dp of None \<Rightarrow> net_lookup_addr net | Some f \<Rightarrow> f) in
      case lookupPTR (fst dst) of
        Inl _ \<Rightarrow> (NoName, s)
      | Inr names \<Rightarrow>
          if length names \<noteq> 1 then (NoName, s)
          else (case FlowDomain env src (fst dst) (hd names) ''tcp'' (snd dst) s of
                  (None, s1) \<Rightarrow> (Denied, s1)
                | (Some g, s1) \<Rightarrow>
                    (case (if gw_system g \<and> IsSystemResolver (gw_resolver g)
                           then (case dp_system_resolver dp of None \<Rightarrow> Inl [] | Some r \<Rightarrow> r)
                           else Inr (gw_resolver g)) of
                       Inl _ \<Rightarrow> (NoResolver, s1)
                     | Inr resolverAddress \<Rightarrow>
                         let dial = (case dp_resolver_dial dp of
                                       None \<Rightarrow> net_host_dial net
                                     | Some d \<Rightarrow> if gw_system g then net_host_dial net else d) in
                         (case net_lookup_ip net dial resolverAddress (TrimSuffix (hd names) ''.'') of
                            Inl _ \<Rightarrow> (NoBackend, s1)
                          | Inr ips \<Rightarrow>
                              if ips = [] then (NoBackend, s1)
                              else let backend = JoinHostPort (AddrString (hd ips)) (itoa (unat (snd dst))) in
                                (if net_dial_tcp net backend then Relayed backend else DialFailed backend, s1)))))"

section \<open>Redirected connections\<close>

text \<open>
  What \<open>originalDestination\<close> meets: the raw connection may be unavailable, and running the
  control function on it may fail, which the code does not look at. The system call gets its
  level, option and last argument and yields an error number or the 16 bytes of a socket address.
\<close>

record raw_conn =
  rc_available :: bool
  rc_control :: bool
  rc_getsockopt :: "nat \<Rightarrow> nat \<Rightarrow> nat \<Rightarrow> nat + bytes"

definition SOL_IP :: nat where "SOL_IP = 0"

definition originalDestination :: "raw_conn \<Rightarrow> (addr \<times> u16) \<times> bool" where
  "originalDestination c =
     (if \<not> rc_available c then ((NoAddr, 0), False)
      else if \<not> rc_control c then ((NoAddr, 0), True)
      else (case rc_getsockopt c SOL_IP 80 16 of
              Inl errno \<Rightarrow> ((NoAddr, 0), False)
            | Inr b \<Rightarrow> ((V4 (from_bytes [b ! 4, b ! 5, b ! 6, b ! 7]), Uint16 b 2), True)))"

text \<open>An accepted connection: a TCP connection with the text of its remote address, or another kind.\<close>

datatype conn = TCPConn string raw_conn | OtherConn

definition proxy :: "'d network \<Rightarrow> 'd dataplane \<Rightarrow> env \<Rightarrow> conn \<Rightarrow> Service \<Rightarrow> proxied option \<times> Service" where
  "proxy net dp env client s =
     (case client of
        OtherConn \<Rightarrow> (None, s)
      | TCPConn remote raw \<Rightarrow>
          let src = (case ParseAddrPort remote of None \<Rightarrow> NoAddr | Some (a, _) \<Rightarrow> a) in
          (case originalDestination raw of
             (_, False) \<Rightarrow> (None, s)
           | (dst, True) \<Rightarrow> (case ProxyTCP net dp env src dst s of (r, s') \<Rightarrow> (Some r, s'))))"

text \<open>
  \<open>ServeTCP\<close>: the connections accepted before the first error are proxied, each in a goroutine of
  its own; the order in which they reach the service is the order of the list.
\<close>

fun accept_loop ::
  "'d network \<Rightarrow> 'd dataplane \<Rightarrow> env \<Rightarrow> conn result list \<Rightarrow> Service \<Rightarrow> string option \<times> proxied option list \<times> Service" where
  "accept_loop net dp env [] s = (None, [], s)"
| "accept_loop net dp env (Inl err # cs) s = (Some err, [], s)"
| "accept_loop net dp env (Inr c # cs) s =
     (case proxy net dp env c s of
        (r, s1) \<Rightarrow> (case accept_loop net dp env cs s1 of (err, rs, s2) \<Rightarrow> (err, r # rs, s2)))"

definition ServeTCP ::
  "'d network \<Rightarrow> 'd dataplane \<Rightarrow> env \<Rightarrow> (conn result list) result \<Rightarrow> Service \<Rightarrow> string option \<times> proxied option list \<times> Service" where
  "ServeTCP net dp env listen s =
     (case listen of Inl err \<Rightarrow> (Some err, [], s) | Inr accepts \<Rightarrow> accept_loop net dp env accepts s)"

section \<open>The embedded gateway\<close>

text \<open>The fallback handler: whether it takes the connection, and what it then does with it.\<close>

definition fallback_known :: "Service \<Rightarrow> addr \<Rightarrow> bool" where
  "fallback_known s dst \<longleftrightarrow> list_ex (\<lambda>gateway. containsPrefix (gw_prefixes gateway) dst) (map snd (sv_gateways s))"

definition fallback_handler ::
  "'d network \<Rightarrow> 'd dataplane \<Rightarrow> env \<Rightarrow> addr \<Rightarrow> addr \<times> u16 \<Rightarrow> Service \<Rightarrow> proxied option \<times> Service" where
  "fallback_handler net dp env src dst s =
     (if \<not> fallback_known s (fst dst) then (None, s)
      else (case ProxyTCP net dp env src dst s of (r, s') \<Rightarrow> (Some r, s')))"

text \<open>
  What serving does to the embedded node, in order, and the error it ends with; the context's own
  error once everything is in place and the context is done.
\<close>

datatype ts_event = Started | FallbackRegistered | RoutesAdvertised "prefix list"

definition gateway_routes :: "Service \<Rightarrow> prefix list" where
  "gateway_routes s = concat (map (gw_prefixes \<circ> snd) (sv_gateways s))"

record ts_server =
  ts_start :: "string option"
  ts_client :: "string option"
  ts_edit_prefs :: "prefix list \<Rightarrow> string option"
  ts_ctx_err :: string

definition ServeTSNetGateway :: "ts_server \<Rightarrow> Service \<Rightarrow> ts_event list \<times> string" where
  "ServeTSNetGateway server s =
     (case ts_start server of
        Some err \<Rightarrow> ([], err)
      | None \<Rightarrow>
          (case ts_client server of
             Some err \<Rightarrow> ([Started], err)
           | None \<Rightarrow>
               let routes = gateway_routes s in
               (case ts_edit_prefs server routes of
                  Some err \<Rightarrow> ([Started, FallbackRegistered], err)
                | None \<Rightarrow> ([Started, FallbackRegistered, RoutesAdvertised routes], ts_ctx_err server))))"

section \<open>What is dialled\<close>

lemma FlowDomain_SomeE:
  assumes "FlowDomain env src dst name proto port s = (Some g, s')"
  obtains n gw caps where "NormalName (env_lower env) name = (n, True)" "gatewayForDestination s dst = Some gw"
    "containsPrefix (gw_prefixes gw) dst" "id_caps (env_identity env) src dst = Inr caps"
    "GatewayFor (Parse (env_lower env) caps) gw n proto port = Some g" "s' = bump_allowed s"
proof -
  from assms obtain n gw caps where f: "NormalName (env_lower env) name = (n, True)" "gatewayForDestination s dst = Some gw"
    "id_caps (env_identity env) src dst = Inr caps"
    "GatewayFor (Parse (env_lower env) caps) gw n proto port = Some g" "s' = bump_allowed s"
    by (auto simp: FlowDomain_def split: prod.splits bool.splits option.splits sum.splits)
  have "gw \<in> set (filter (\<lambda>g. containsPrefix (gw_prefixes g) dst) (map snd (sv_gateways s)))"
    using f(2) unfolding gatewayForDestination_Some by simp
  then have "containsPrefix (gw_prefixes gw) dst" by simp
  with f that show ?thesis by blast
qed

lemma ProxyTCP_dialledE:
  assumes "ProxyTCP net dp env src dst s = (r, s')" "r \<in> {Relayed b, DialFailed b}"
  obtains name g address dial ips where
    "(case dp_ptr_lookup dp of None \<Rightarrow> net_lookup_addr net | Some f \<Rightarrow> f) (fst dst) = Inr [name]"
    "FlowDomain env src (fst dst) name ''tcp'' (snd dst) s = (Some g, s')"
    "if gw_system g \<and> IsSystemResolver (gw_resolver g) then dp_system_resolver dp = Some (Inr address)
     else address = gw_resolver g"
    "dial = (if gw_system g then net_host_dial net else case dp_resolver_dial dp of None \<Rightarrow> net_host_dial net | Some d \<Rightarrow> d)"
    "net_lookup_ip net dial address (TrimSuffix name ''.'') = Inr ips" "ips \<noteq> []"
    "b = JoinHostPort (AddrString (hd ips)) (itoa (unat (snd dst)))"
    "r = (if net_dial_tcp net b then Relayed b else DialFailed b)"
proof -
  let ?ptr = "case dp_ptr_lookup dp of None \<Rightarrow> net_lookup_addr net | Some f \<Rightarrow> f"
  obtain names where p: "?ptr (fst dst) = Inr names" "length names = 1"
    using assms by (auto simp: ProxyTCP_def Let_def split: sum.splits if_splits)
  then obtain name where n: "names = [name]" by (cases names) auto
  obtain g where f: "FlowDomain env src (fst dst) name ''tcp'' (snd dst) s = (Some g, s')"
    using assms p n
    by (auto simp: ProxyTCP_def Let_def split: sum.splits if_splits prod.splits option.splits)
  show ?thesis
    using assms p(1) n f that [of name g]
    by (auto simp: ProxyTCP_def Let_def split: sum.splits if_splits option.splits)
qed



section \<open>Redirected connections never reach a backend\<close>

lemma no_gateway_NoAddr: "gatewayForDestination s NoAddr = None"
proof -
  have "\<not> Contains p NoAddr" for p by (cases "(p, NoAddr)" rule: Contains.cases) auto
  then have "filter (\<lambda>g. containsPrefix (gw_prefixes g) NoAddr) (map snd (sv_gateways s)) = []"
    by (simp add: containsPrefix_def list_ex_iff filter_empty_conv)
  then show ?thesis using gatewayForDestination_Some [of s NoAddr] by (cases "gatewayForDestination s NoAddr") auto
qed

text \<open>
  C39: The system call of \<open>originalDestination\<close> passes the number 16 where the kernel expects a
  pointer to the length. Given what getsockopt documents, that it fails with EFAULT (14) when this
  pointer is not in the process's memory, and that nothing is mapped in the first page, the call
  always fails, and no redirected connection is ever relayed or even makes the gateway dial.
\<close>

theorem proxy_never_dials:
  assumes "\<forall>remote raw. client = TCPConn remote raw \<longrightarrow>
      (\<forall>level option optlen. optlen < 4096 \<longrightarrow> rc_getsockopt raw level option optlen = Inl 14)"
  shows "fst (proxy net dp env client s) \<in> {None, Some NoName, Some Denied}"
proof (cases client)
  case (TCPConn remote raw)
  have e: "rc_getsockopt raw SOL_IP 80 16 = Inl 14" using assms TCPConn by simp
  have d: "fst (FlowDomain env src NoAddr name ''tcp'' 0 s) = None" for src name
    by (auto simp: FlowDomain_def no_gateway_NoAddr split: prod.splits bool.splits)
  have "fst (ProxyTCP net dp env src (NoAddr, 0) s) \<in> {NoName, Denied}" for src
  proof (cases "(case dp_ptr_lookup dp of None \<Rightarrow> net_lookup_addr net | Some f \<Rightarrow> f) NoAddr")
    case (Inr names)
    obtain t where "FlowDomain env src NoAddr (hd names) ''tcp'' 0 s = (None, t)" using d by (metis prod.collapse)
    with Inr show ?thesis by (simp add: ProxyTCP_def)
  qed (simp add: ProxyTCP_def)
  then show ?thesis
    using TCPConn by (auto simp: proxy_def originalDestination_def e Let_def split: prod.splits) (metis fst_conv insertE singletonD)+
qed (simp add: proxy_def)

text \<open>With a working call the destination is read from the socket address: family, port, address.\<close>

lemma originalDestination_sockaddr:
  assumes "rc_available c" "rc_control c"
    and "rc_getsockopt c SOL_IP 80 16 = Inr ([2, 0] @ PutUint16 0 port [0, 0] @ AsSlice (V4 w) @ zeros)"
  shows "originalDestination c = ((V4 w, port), True)"
proof -
  have "AddrFromSlice (AsSlice (V4 w)) = V4 w" by (rule AddrFromSlice_AsSlice)
  then have "from_bytes (AsSlice (V4 w)) = w" by (simp add: AddrFromSlice_def)
  moreover have "Uint16 ([2, 0] @ PutUint16 0 port [0, 0] @ AsSlice (V4 w) @ zeros) 2 = port"
    using Uint16_Put [of 0 "[0, 0]" port] by (simp add: Uint16_def PutUint16_def)
  ultimately show ?thesis
    using assms by (simp add: originalDestination_def PutUint16_def)
qed

section \<open>The embedded gateway\<close>

lemma gateway_routes_contain: "containsPrefix (gateway_routes s) dst \<longleftrightarrow> fallback_known s dst"
  by (auto simp: containsPrefix_def gateway_routes_def fallback_known_def list_ex_iff)

text \<open>
  C28: Routes are advertised only once their receiver is in place, and are exactly what it
  receives. Whenever serving an embedded gateway has advertised routes, the fallback handler was
  registered before; a destination lies in an advertised route exactly when the handler takes the
  connection, so no routed connection is dropped for want of a handler and no other is taken.
\<close>

theorem ServeTSNetGateway_routes:
  assumes "RoutesAdvertised routes \<in> set (fst (ServeTSNetGateway server s))"
  shows "\<exists>before after. fst (ServeTSNetGateway server s) = before @ FallbackRegistered # after \<and>
    RoutesAdvertised routes \<in> set after \<and> RoutesAdvertised routes \<notin> set before \<and>
    (containsPrefix routes dst \<longleftrightarrow> fst (fallback_handler net dp env src (dst, port) s) \<noteq> None)"
proof -
  have r: "fst (ServeTSNetGateway server s) = [Started] @ FallbackRegistered # [RoutesAdvertised routes]" "routes = gateway_routes s"
    using assms by (auto simp: ServeTSNetGateway_def Let_def split: option.splits)
  then show ?thesis
    by (intro exI [of _ "[Started]"] exI [of _ "[RoutesAdvertised routes]"])
      (auto simp: gateway_routes_contain fallback_handler_def split: prod.splits)
qed

section \<open>Witnesses\<close>

definition demo_net :: "nat network" where
  "demo_net = \<lparr>net_lookup_addr = (\<lambda>ip. Inl ''no default''), net_host_dial = 0,
     net_lookup_ip = (\<lambda>d resolver name.
       if d = 1 \<and> resolver = ''9.9.9.9:53'' \<and> name = ''a.example.com'' then Inr [V4 0xC0000205] else Inl ''nxdomain''),
     net_dial_tcp = (\<lambda>b. b = ''192.0.2.5:443'')\<rparr>"

definition demo_plane :: "nat dataplane" where
  "demo_plane = \<lparr>dp_ptr_lookup = Some (\<lambda>ip. if ip = V4 0x0AFE0001 then Inr [''a.example.com.''] else Inl ''none''),
     dp_resolver_dial = Some 1, dp_system_resolver = None\<rparr>"

lemma demo_relay:
  "fst (ProxyTCP demo_net demo_plane demo_env demo_client (V4 0x0AFE0001, 443) demo_service) = Relayed ''192.0.2.5:443''"
proof -
  have f: "FlowDomain demo_env demo_client (V4 0x0AFE0001) ''a.example.com.'' ''tcp'' 443 demo_service =
      (Some (example_gateway\<lparr>gw_resolver := ''9.9.9.9:53''\<rparr>), bump_allowed demo_service)"
  proof -
    have "NormalName id ''a.example.com.'' = (''a.example.com'', True)"
      "gatewayForDestination demo_service (V4 0x0AFE0001) = Some example_gateway" by code_simp+
    then show ?thesis
      using demo_policy GatewayFor_example by (simp add: FlowDomain_def) (simp add: demo_env_def)
  qed
  have "JoinHostPort (AddrString (V4 0xC0000205)) (itoa (unat (443 :: u16))) = ''192.0.2.5:443''"
    "TrimSuffix ''a.example.com.'' ''.'' = ''a.example.com''" by code_simp+
  then show ?thesis
    by (simp add: ProxyTCP_def demo_plane_def f) (simp add: demo_net_def example_gateway_def)
qed



theorem proxy_never_dials_witness:
  "fst (proxy demo_net demo_plane demo_env
     (TCPConn ''100.64.0.2:40000'' \<lparr>rc_available = True, rc_control = True,
        rc_getsockopt = (\<lambda>level option optlen. if optlen < 4096 then Inl 14 else Inr (replicate 16 0))\<rparr>) demo_service) = None \<and>
   fst (proxy demo_net demo_plane demo_env
     (TCPConn ''100.64.0.2:40000'' \<lparr>rc_available = True, rc_control = False,
        rc_getsockopt = (\<lambda>level option optlen. Inl 14)\<rparr>) demo_service) \<in> {None, Some NoName, Some Denied}"
proof
  let ?c = "TCPConn ''100.64.0.2:40000'' \<lparr>rc_available = True, rc_control = True,
    rc_getsockopt = (\<lambda>level option optlen. if optlen < 4096 then Inl 14 else Inr (replicate 16 0))\<rparr>"
  show "fst (proxy demo_net demo_plane demo_env ?c demo_service) = None"
    using proxy_never_dials [of ?c demo_net demo_plane demo_env demo_service]
    by (auto simp: proxy_def originalDestination_def Let_def)
  show "fst (proxy demo_net demo_plane demo_env
     (TCPConn ''100.64.0.2:40000'' \<lparr>rc_available = True, rc_control = False,
        rc_getsockopt = (\<lambda>level option optlen. Inl 14)\<rparr>) demo_service) \<in> {None, Some NoName, Some Denied}"
    by (rule proxy_never_dials) simp
qed

definition demo_ts :: ts_server where
  "demo_ts = \<lparr>ts_start = None, ts_client = None, ts_edit_prefs = (\<lambda>routes. None), ts_ctx_err = ''context canceled''\<rparr>"

theorem ServeTSNetGateway_routes_witness:
  "fst (fallback_handler demo_net demo_plane demo_env demo_client (V4 0x0AFE0001, 443) demo_service) \<noteq> None \<and>
   fst (fallback_handler demo_net demo_plane demo_env demo_client (V4 0x08080808, 443) demo_service) = None"
proof -
  have m: "RoutesAdvertised (gateway_routes demo_service) \<in> set (fst (ServeTSNetGateway demo_ts demo_service))"
    by (simp add: ServeTSNetGateway_def demo_ts_def Let_def)
  have "containsPrefix (gateway_routes demo_service) (V4 0x0AFE0001)"
    "\<not> containsPrefix (gateway_routes demo_service) (V4 0x08080808)" by code_simp+
  then show ?thesis
    using ServeTSNetGateway_routes [OF m, of "V4 0x0AFE0001" demo_net demo_plane demo_env demo_client 443]
      ServeTSNetGateway_routes [OF m, of "V4 0x08080808" demo_net demo_plane demo_env demo_client 443]
    by blast
qed

end
