(* ===== verification/Config.thy ===== *)
theory Config
  imports Policy
begin

text \<open>
  The command line and configuration of \<^verbatim>\<open>cmd/domain-gateway/main.go\<close>: reading the
  configuration file, the flags over it, the validation of both, and the pure helpers that select
  resolvers, ranges and paths. Reading a file and parsing its text into a JSON tree is a
  parameter; the functions of \<^verbatim>\<open>flag\<close>, \<^verbatim>\<open>path/filepath\<close>, \<^verbatim>\<open>strings\<close> and
  \<^verbatim>\<open>time\<close> that the code calls are modelled. The lemmas show what an accepted command is, that
  start-up validation covers what the running daemon relies on, and which endpoints the
  resolver settings can select.
\<close>

section \<open>Library functions\<close>

text \<open>\<^verbatim>\<open>filepath.Clean\<close> on a Unix path, with the elements written so far in reverse.\<close>

fun clean_elems :: "bool \<Rightarrow> string list \<Rightarrow> string list \<Rightarrow> string list" where
  "clean_elems rooted out [] = rev out"
| "clean_elems rooted out (e # es) =
     (if e = [] \<or> e = ''.'' then clean_elems rooted out es
      else if e = ''..'' then
        (case out of
           o1 # os \<Rightarrow> if o1 \<noteq> ''..'' then clean_elems rooted os es else clean_elems rooted (''..'' # out) es
         | [] \<Rightarrow> clean_elems rooted (if rooted then [] else [''..'']) es)
      else clean_elems rooted (e # out) es)"

definition Clean :: "string \<Rightarrow> string" where
  "Clean path =
     (let rooted = (path \<noteq> [] \<and> hd path = CHR ''/'');
          elems = clean_elems rooted [] (SplitByte (CHR ''/'') path) in
      if rooted then CHR ''/'' # Join elems ''/''
      else if elems = [] then ''.'' else Join elems ''/'')"

text \<open>
  \<^verbatim>\<open>strings.Fields\<close>: the maximal runs of bytes outside white space. White space beyond ASCII is
  U+0085, U+00A0, U+1680, U+2000 to U+200A, U+2028, U+2029, U+202F, U+205F and U+3000, recognized
  by its encoding; \<open>space_len\<close> is the length of the white space character a text starts with.
\<close>

fun space_len :: "string \<Rightarrow> nat" where
  "space_len [] = 0"
| "space_len (a # s) =
     (if code a \<in> {9, 10, 11, 12, 13, 32} then 1
      else (case map code (take 2 s) of
              b # r \<Rightarrow>
                if code a = 0xC2 \<and> b \<in> {0x85, 0xA0} then 2
                else (case r of
                        [c] \<Rightarrow>
                          if (code a, b, c) = (0xE1, 0x9A, 0x80) \<or> (code a, b, c) = (0xE2, 0x81, 0x9F) \<or>
                             (code a, b, c) = (0xE3, 0x80, 0x80) \<or>
                             (code a = 0xE2 \<and> b = 0x80 \<and> (c \<in> {0xA8, 0xA9, 0xAF} \<or> 0x80 \<le> c \<and> c \<le> 0x8A))
                          then 3 else 0
                      | _ \<Rightarrow> 0)
            | [] \<Rightarrow> 0))"

definition end_field :: "string \<Rightarrow> string list \<Rightarrow> string list" where
  "end_field cur fs = (if cur = [] then fs else rev cur # fs)"

function fields_loop :: "string \<Rightarrow> string \<Rightarrow> string list" where
  "fields_loop cur s =
     (if s = [] then end_field cur []
      else if space_len s = 0 then fields_loop (hd s # cur) (tl s)
      else end_field cur (fields_loop [] (drop (space_len s) s)))"
  by pat_completeness auto
termination
  by (relation "measure (\<lambda>(cur, s). length s)") auto

declare fields_loop.simps [simp del]

definition Fields :: "string \<Rightarrow> string list" where
  "Fields s = fields_loop [] s"

text \<open>\<^verbatim>\<open>time.ParseDuration\<close>: numbers with units, as nanoseconds in 64-bit arithmetic.\<close>

definition unit_ns :: "string \<Rightarrow> nat option" where
  "unit_ns u =
     (if u = ''ns'' then Some 1
      else if u = ''us'' \<or> u = [CHR 0xC2, CHR 0xB5, CHR ''s''] \<or> u = [CHR 0xCE, CHR 0xBC, CHR ''s''] then Some 1000
      else if u = ''ms'' then Some 1000000
      else if u = ''s'' then Some 1000000000
      else if u = ''m'' then Some (60 * 1000000000)
      else if u = ''h'' then Some (3600 * 1000000000)
      else None)"

fun leadingInt :: "nat \<Rightarrow> string \<Rightarrow> (nat \<times> string) option" where
  "leadingInt x [] = Some (x, [])"
| "leadingInt x (c # s) =
     (if \<not> is_digit c then Some (x, c # s)
      else if 2 ^ 63 div 10 < x then None
      else let y = x * 10 + digit_val c in if 2 ^ 63 < y then None else leadingInt y s)"

fun leadingFraction :: "nat \<Rightarrow> nat \<Rightarrow> bool \<Rightarrow> string \<Rightarrow> nat \<times> nat \<times> string" where
  "leadingFraction x scale overflow [] = (x, scale, [])"
| "leadingFraction x scale overflow (c # s) =
     (if \<not> is_digit c then (x, scale, c # s)
      else if overflow \<or> (2 ^ 63 - 1) div 10 < x \<or> 2 ^ 63 < x * 10 + digit_val c then leadingFraction x scale True s
      else leadingFraction (x * 10 + digit_val c) (scale * 10) False s)"

definition unit_char :: "char \<Rightarrow> bool" where
  "unit_char c \<longleftrightarrow> c \<noteq> CHR ''.'' \<and> \<not> is_digit c"

lemma leadingInt_length: "leadingInt x s = Some (v, r) \<Longrightarrow> length r \<le> length s"
  by (induction x s rule: leadingInt.induct) (auto simp: Let_def split: if_splits)

lemma leadingFraction_length: "length (snd (snd (leadingFraction x scale overflow s))) \<le> length s"
  by (induction x scale overflow s rule: leadingFraction.induct) auto

text \<open>
  One number with its unit. The contribution of a fraction is a floating point product in the
  code; it is the parameter \<open>frac\<close>, of the fraction's digits, the unit and the scale.
\<close>

definition fraction_part :: "string \<Rightarrow> nat \<times> nat \<times> string \<times> bool" where
  "fraction_part s =
     (if s \<noteq> [] \<and> hd s = CHR ''.''
      then (case leadingFraction 0 1 False (tl s) of
              (f, scale, r) \<Rightarrow> (f, scale, r, length r \<noteq> length (tl s)))
      else (0, 1, s, False))"

definition duration_term :: "(nat \<Rightarrow> nat \<Rightarrow> nat \<Rightarrow> nat) \<Rightarrow> string \<Rightarrow> (nat \<times> string) option" where
  "duration_term frac s =
     (case leadingInt 0 s of
        None \<Rightarrow> None
      | Some (v, s1) \<Rightarrow>
          let (f, scale, s2, post) = fraction_part s1;
              u = takeWhile unit_char s2 in
          if length s1 = length s \<and> \<not> post then None
          else if u = [] then None
          else (case unit_ns u of
                  None \<Rightarrow> None
                | Some unit \<Rightarrow>
                    if 2 ^ 63 div unit < v then None
                    else let w = v * unit + (if 0 < f then frac f unit scale else 0) in
                      if 0 < f \<and> 2 ^ 63 < w then None
                      else Some (w, drop (length u) s2)))"

lemma duration_term_length:
  assumes "duration_term frac s = Some (w, r)"
  shows "length r < length s"
proof -
  obtain v s1 where s1: "leadingInt 0 s = Some (v, s1)"
    using assms by (auto simp: duration_term_def split: option.splits)
  obtain f scale s2 post where s2: "fraction_part s1 = (f, scale, s2, post)" by (metis prod_cases4)
  have "length s2 \<le> length s1"
    using s2 leadingFraction_length [of 0 1 False "tl s1"] by (auto simp: fraction_part_def split: if_splits prod.splits)
  moreover have r: "takeWhile unit_char s2 \<noteq> []" "r = drop (length (takeWhile unit_char s2)) s2"
    using assms by (auto simp: duration_term_def s1 s2 Let_def split: option.splits if_splits)
  moreover have "0 < length (takeWhile unit_char s2)" "length (takeWhile unit_char s2) \<le> length s2"
    using r(1) by (simp, intro length_takeWhile_le)
  ultimately show ?thesis using leadingInt_length [OF s1] unfolding r(2) length_drop by linarith
qed

function duration_loop :: "(nat \<Rightarrow> nat \<Rightarrow> nat \<Rightarrow> nat) \<Rightarrow> nat \<Rightarrow> string \<Rightarrow> nat option" where
  "duration_loop frac d s =
     (if s = [] then Some d
      else (case duration_term frac s of
              None \<Rightarrow> None
            | Some (v, r) \<Rightarrow>
                let d' = (d + v) mod 2 ^ 64 in if 2 ^ 63 < d' then None else duration_loop frac d' r))"
  by pat_completeness auto
termination
  by (relation "measure (\<lambda>(frac, d, s). length s)") (auto dest: duration_term_length)

declare duration_loop.simps [simp del]

definition ParseDuration :: "(nat \<Rightarrow> nat \<Rightarrow> nat \<Rightarrow> nat) \<Rightarrow> string \<Rightarrow> int option" where
  "ParseDuration frac s =
     (let neg = (s \<noteq> [] \<and> hd s = CHR ''-'');
          r = (if s \<noteq> [] \<and> (hd s = CHR ''-'' \<or> hd s = CHR ''+'') then tl s else s) in
      if r = ''0'' then Some 0
      else if r = [] then None
      else (case duration_loop frac 0 r of
              None \<Rightarrow> None
            | Some d \<Rightarrow>
                if neg then Some (- int d) else if 2 ^ 63 - 1 < d then None else Some (int d)))"

section \<open>Configuration\<close>

record tsnetConfig =
  tc_dir :: string
  tc_hostname :: string
  tc_auth_key :: string
  tc_control_url :: string
  tc_tags :: "string list"

record egressConfig =
  eg_ranges :: "string list"
  eg_ptr_resolver :: string
  eg_ptr_interface :: string

record config =
  c_listen :: string
  c_gateway_listen :: string
  c_socket :: string
  c_database :: string
  c_lease :: string
  c_upstream :: string
  c_upstream_interface :: string
  c_egress :: "egressConfig option"
  c_tsnet :: tsnetConfig

record command =
  cmd_role :: string
  cmd_transport :: string
  cmd_config :: config

definition localEgressGatewayKey :: string where
  "localEgressGatewayKey = ''local-egress''"

text \<open>
  Decoding the file into the structures: a nested structure is decoded member by member into what
  an earlier member of the same name left, and null drops an optional one.
\<close>

definition decode_egress :: "(string \<times> json) list \<Rightarrow> egressConfig \<Rightarrow> egressConfig option" where
  "decode_egress obj e =
     (case (those (map (as_list as_string) (members ''ranges'' obj)),
            string_steps (eg_ptr_resolver e) (members ''ptr_resolver'' obj),
            string_steps (eg_ptr_interface e) (members ''ptr_resolver_interface'' obj)) of
        (Some rs, Some p, Some i) \<Rightarrow>
          Some \<lparr>eg_ranges = (if rs = [] then eg_ranges e else last rs), eg_ptr_resolver = p, eg_ptr_interface = i\<rparr>
      | _ \<Rightarrow> None)"

definition no_egress :: egressConfig where
  "no_egress = \<lparr>eg_ranges = [], eg_ptr_resolver = [], eg_ptr_interface = []\<rparr>"

fun egress_steps :: "egressConfig option \<Rightarrow> json list \<Rightarrow> egressConfig option option" where
  "egress_steps cur [] = Some cur"
| "egress_steps cur (JNull # vs) = egress_steps None vs"
| "egress_steps cur (JObj obj # vs) =
     (case decode_egress obj (case cur of None \<Rightarrow> no_egress | Some e \<Rightarrow> e) of
        None \<Rightarrow> None
      | Some e \<Rightarrow> egress_steps (Some e) vs)"
| "egress_steps cur (v # vs) = None"

definition decode_tsnet :: "(string \<times> json) list \<Rightarrow> tsnetConfig \<Rightarrow> tsnetConfig option" where
  "decode_tsnet obj t =
     (case (string_steps (tc_dir t) (members ''dir'' obj), string_steps (tc_hostname t) (members ''hostname'' obj),
            string_steps (tc_auth_key t) (members ''auth_key'' obj),
            string_steps (tc_control_url t) (members ''control_url'' obj),
            those (map (as_list as_string) (members ''tags'' obj))) of
        (Some d, Some h, Some a, Some u, Some ts) \<Rightarrow>
          Some \<lparr>tc_dir = d, tc_hostname = h, tc_auth_key = a, tc_control_url = u,
                tc_tags = (if ts = [] then tc_tags t else last ts)\<rparr>
      | _ \<Rightarrow> None)"

fun tsnet_steps :: "tsnetConfig \<Rightarrow> json list \<Rightarrow> tsnetConfig option" where
  "tsnet_steps cur [] = Some cur"
| "tsnet_steps cur (JNull # vs) = tsnet_steps cur vs"
| "tsnet_steps cur (JObj obj # vs) =
     (case decode_tsnet obj cur of None \<Rightarrow> None | Some t \<Rightarrow> tsnet_steps t vs)"
| "tsnet_steps cur (v # vs) = None"

definition decode_config :: "(string \<times> json) list \<Rightarrow> config option" where
  "decode_config obj =
     (case those (map (\<lambda>f. field_string f obj)
             [''dns_listen'', ''gateway_listen'', ''tailscaled_socket'', ''database'', ''allocation_lease'',
              ''upstream_resolver'', ''upstream_resolver_interface'']) of
        Some [l, g, s, d, a, u, i] \<Rightarrow>
          (case (egress_steps None (members ''egress'' obj),
                 tsnet_steps \<lparr>tc_dir = [], tc_hostname = [], tc_auth_key = [], tc_control_url = [], tc_tags = []\<rparr>
                   (members ''tsnet'' obj)) of
             (Some e, Some t) \<Rightarrow>
               Some \<lparr>c_listen = l, c_gateway_listen = g, c_socket = s, c_database = d, c_lease = a,
                     c_upstream = u, c_upstream_interface = i, c_egress = e, c_tsnet = t\<rparr>
           | _ \<Rightarrow> None)
      | _ \<Rightarrow> None)"


section \<open>Flags\<close>

text \<open>
  \<^verbatim>\<open>FlagSet.Parse\<close> for flags that all take a value: the assignments in order, or an error. A
  first argument that is no flag, or a double dash, ends the flags.
\<close>

fun parse_flags :: "string list \<Rightarrow> string list \<Rightarrow> (string \<times> string) list result" where
  "parse_flags names [] = Inr []"
| "parse_flags names (s # args) =
     (if length s < 2 \<or> hd s \<noteq> CHR ''-'' \<or> s = ''--'' then Inr []
      else let name = (if s ! 1 = CHR ''-'' then drop 2 s else drop 1 s) in
        if name = [] \<or> hd name = CHR ''-'' \<or> hd name = CHR ''='' then Inl ''bad flag syntax''
        else (case CutByte name (CHR ''='') of
                Some (n, v) \<Rightarrow>
                  if n \<notin> set names then Inl ''flag provided but not defined''
                  else map_sum id (Cons (n, v)) (parse_flags names args)
              | None \<Rightarrow>
                  if name \<notin> set names then Inl ''flag provided but not defined''
                  else (case args of
                          [] \<Rightarrow> Inl ''flag needs an argument''
                        | v # args' \<Rightarrow> map_sum id (Cons (name, v)) (parse_flags names args'))))"

definition flag_value :: "string \<Rightarrow> string \<Rightarrow> (string \<times> string) list \<Rightarrow> string" where
  "flag_value name dflt assigns =
     (case filter (\<lambda>a. fst a = name) assigns of [] \<Rightarrow> dflt | as \<Rightarrow> snd (last as))"

definition flag_names :: "string list" where
  "flag_names =
     [''mode'', ''config'', ''dns-listen'', ''gateway-listen'', ''tailscaled-socket'', ''database'',
      ''allocation-lease'', ''upstream-resolver'', ''tsnet-dir'', ''tsnet-hostname'', ''tsnet-auth-key'',
      ''tsnet-control-url'', ''tsnet-tags'']"

fun config_path_loop :: "string \<Rightarrow> string list \<Rightarrow> string result" where
  "config_path_loop path [] = Inr path"
| "config_path_loop path (a # args) =
     (if a = ''-config'' \<or> a = ''--config''
      then (case args of
              [] \<Rightarrow> Inl (a @ '' requires a path'')
            | v # args' \<Rightarrow> config_path_loop v args')
      else let path1 = (if HasPrefix a ''-config='' then drop 8 a else path);
               path2 = (if HasPrefix a ''--config='' then drop 9 a else path1) in
        config_path_loop path2 args)"

definition configPath :: "string list \<Rightarrow> string result" where
  "configPath args = map_sum id Clean (config_path_loop ''config.json'' args)"

text \<open>The flags over the configuration, in the order of their definition.\<close>

definition apply_flags :: "(string \<times> string) list \<Rightarrow> config \<Rightarrow> config" where
  "apply_flags assigns c =
     (let v = (\<lambda>name dflt. flag_value name dflt assigns);
          t = c_tsnet c in
      c\<lparr>c_listen := v ''dns-listen'' (c_listen c), c_gateway_listen := v ''gateway-listen'' (c_gateway_listen c),
        c_socket := v ''tailscaled-socket'' (c_socket c), c_database := v ''database'' (c_database c),
        c_lease := v ''allocation-lease'' (c_lease c), c_upstream := v ''upstream-resolver'' (c_upstream c),
        c_tsnet := t\<lparr>tc_dir := v ''tsnet-dir'' (tc_dir t), tc_hostname := v ''tsnet-hostname'' (tc_hostname t),
          tc_auth_key := v ''tsnet-auth-key'' (tc_auth_key t),
          tc_control_url := v ''tsnet-control-url'' (tc_control_url t)\<rparr>\<rparr>)"

section \<open>Resolvers and ranges\<close>

definition configuredResolver :: "string \<Rightarrow> string result" where
  "configuredResolver resolver =
     (let err = Inl (''invalid upstream_resolver '' @ resolver) in
      if resolver = [] \<or> IsSystemResolver resolver then Inr resolver
      else (case SplitHostPort resolver of
              None \<Rightarrow>
                if \<not> ContainsByte resolver (CHR '':'') \<or> ParseIP_ok resolver then Inr (JoinHostPort resolver ''53'') else err
            | Some (host, port) \<Rightarrow>
                if host = [] \<or> port = [] then err
                else (case ParseUint16 port of
                        None \<Rightarrow> err
                      | Some n \<Rightarrow> if n = 0 then err else Inr (JoinHostPort host port))))"

text \<open>The lines of \<^verbatim>\<open>/etc/resolv.conf\<close>, if it can be read, are an argument.\<close>

fun nameserver_loop :: "string list \<Rightarrow> string result" where
  "nameserver_loop [] = Inl ''system resolver has no non-Tailscale nameserver''"
| "nameserver_loop (line # lines) =
     (let fields = Fields line in
      if length fields \<noteq> 2 \<or> fields ! 0 \<noteq> ''nameserver'' \<or> fields ! 1 = ''100.100.100.100'' then nameserver_loop lines
      else if ParseIP_ok (fields ! 1) then Inr (JoinHostPort (fields ! 1) (itoa 53))
      else nameserver_loop lines)"

definition systemUpstream :: "string result \<Rightarrow> string result" where
  "systemUpstream resolv_conf =
     (case resolv_conf of Inl e \<Rightarrow> Inl e | Inr b \<Rightarrow> nameserver_loop (SplitByte (CHR 0x0A) b))"

definition egressBackendResolver :: "string result \<Rightarrow> config \<Rightarrow> NodeConfig \<Rightarrow> (string \<times> bool) result" where
  "egressBackendResolver resolv_conf c nodeConfig =
     (let r0 = (if nc_has_upstream nodeConfig then nc_upstream nodeConfig else c_upstream c);
          r1 = (if r0 = [] then ''system'' else r0) in
      case configuredResolver r1 of
        Inl e \<Rightarrow> Inl e
      | Inr resolver \<Rightarrow>
          if IsSystemResolver resolver
          then (case systemUpstream resolv_conf of Inl e \<Rightarrow> Inl e | Inr r \<Rightarrow> Inr (r, True))
          else Inr (resolver, False))"

fun range_prefixes :: "prefix list \<Rightarrow> string list \<Rightarrow> prefix list result" where
  "range_prefixes acc [] = Inr acc"
| "range_prefixes acc (raw # raws) =
     (case ParsePrefix raw of
        None \<Rightarrow> Inl (''invalid egress range '' @ raw)
      | Some p \<Rightarrow>
          if \<not> Is4 (pfx_addr p) \<or> p \<noteq> Masked p then Inl (''invalid egress range '' @ raw)
          else if list_ex (\<lambda>prior. Overlaps p prior) acc then Inl (''overlapping egress range '' @ raw)
          else range_prefixes (acc @ [p]) raws)"

definition egressGateways :: "config \<Rightarrow> string \<Rightarrow> bool list \<Rightarrow> (string \<times> Gateway) list result" where
  "egressGateways c resolver systemResolver =
     (case c_egress c of
        None \<Rightarrow> Inl ''egress requires at least one egress.ranges entry''
      | Some e \<Rightarrow>
          if eg_ranges e = [] then Inl ''egress requires at least one egress.ranges entry''
          else (case range_prefixes [] (eg_ranges e) of
                  Inl err \<Rightarrow> Inl err
                | Inr acc \<Rightarrow>
                    Inr [(localEgressGatewayKey,
                      \<lparr>gw_prefixes = acc, gw_resolver = resolver,
                       gw_system = (systemResolver \<noteq> [] \<and> hd systemResolver)\<rparr>)]))"

definition egressResolverInterface :: "string \<Rightarrow> string result" where
  "egressResolverInterface v =
     (let value = (if v = [] then ''auto'' else v) in
      if value \<in> {''auto'', ''tailnet'', ''host''} then Inr value
      else Inl (''invalid egress upstream_dns_interface '' @ value))"

definition egressUpstreamResolverInterface :: "config \<Rightarrow> string result" where
  "egressUpstreamResolverInterface c = egressResolverInterface (c_upstream_interface c)"

definition egressPTRResolverInterface :: "config \<Rightarrow> string result" where
  "egressPTRResolverInterface c =
     egressResolverInterface (case c_egress c of None \<Rightarrow> [] | Some e \<Rightarrow> eg_ptr_interface e)"

text \<open>\<^term>\<open>Inr None\<close> is the result \<^verbatim>\<open>("", false, nil)\<close>.\<close>

definition egressPTRResolver :: "config \<Rightarrow> string option result" where
  "egressPTRResolver c =
     (case c_egress c of
        None \<Rightarrow> Inr None
      | Some e \<Rightarrow>
          if eg_ptr_resolver e = [] then Inr None
          else let err = Inl (''invalid egress PTR resolver IP '' @ eg_ptr_resolver e);
                   resolver = (case SplitHostPort (eg_ptr_resolver e) of
                                 None \<Rightarrow> JoinHostPort (eg_ptr_resolver e) ''53''
                               | Some _ \<Rightarrow> eg_ptr_resolver e) in
            (case SplitHostPort resolver of
               None \<Rightarrow> err
             | Some (host, port) \<Rightarrow>
                 if \<not> ParseIP_ok host then err
                 else (case ParseUint16 port of
                         None \<Rightarrow> err
                       | Some n \<Rightarrow> if n = 0 then err else Inr (Some resolver))))"

section \<open>Commands\<close>

definition legacy_names :: "string list" where
  "legacy_names = [''tsnet_dir'', ''tsnet_hostname'', ''tsnet_auth_key'', ''tsnet_tags'']"

text \<open>The members of the old \<^verbatim>\<open>egress\<close> map, over all members of that name.\<close>

fun legacy_egress :: "string list \<Rightarrow> json list \<Rightarrow> string list option" where
  "legacy_egress keys [] = Some keys"
| "legacy_egress keys (JNull # vs) = legacy_egress [] vs"
| "legacy_egress keys (JObj obj # vs) = legacy_egress (keys @ map fst obj) vs"
| "legacy_egress keys (v # vs) = None"

text \<open>Go walks the two renamed settings in either order; both orders report an error when one is there.\<close>

definition read_config :: "json \<Rightarrow> config result" where
  "read_config data =
     (case as_object data of
        None \<Rightarrow> Inl ''json''
      | Some obj \<Rightarrow>
          (case find (\<lambda>name. name \<in> fst ` set obj) legacy_names of
             Some name \<Rightarrow> Inl (name @ '' is no longer supported; use tsnet.'' @ TrimPrefix name ''tsnet_'')
           | None \<Rightarrow>
               (case legacy_egress [] (members ''egress'' obj) of
                  None \<Rightarrow> Inl ''json''
                | Some keys \<Rightarrow>
                    if ''tag'' \<in> set keys then Inl ''egress.tag is no longer supported''
                    else if ''dns_resolver'' \<in> set keys then Inl ''egress.dns_resolver is no longer supported; use ptr_resolver''
                    else if ''upstream_dns_interface'' \<in> set keys
                    then Inl ''egress.upstream_dns_interface is no longer supported; use upstream_resolver_interface or ptr_resolver_interface''
                    else (case decode_config obj of None \<Rightarrow> Inl ''json'' | Some c \<Rightarrow> Inr c))))"

definition check_lease :: "(nat \<Rightarrow> nat \<Rightarrow> nat \<Rightarrow> nat) \<Rightarrow> config \<Rightarrow> bool" where
  "check_lease frac c \<longleftrightarrow>
     c_lease c = [] \<or> (case ParseDuration frac (c_lease c) of None \<Rightarrow> False | Some l \<Rightarrow> 0 < l)"

text \<open>The first error of the validations of the egress role, if any.\<close>

definition egress_error :: "config \<Rightarrow> string option" where
  "egress_error c =
     (case egressGateways c [] [] of
        Inl e \<Rightarrow> Some e
      | Inr _ \<Rightarrow>
          (case egressUpstreamResolverInterface c of
             Inl e \<Rightarrow> Some e
           | Inr _ \<Rightarrow>
               (case egressPTRResolverInterface c of
                  Inl e \<Rightarrow> Some e
                | Inr _ \<Rightarrow>
                    (case egressPTRResolver c of
                       Inl e \<Rightarrow> Some e
                     | Inr _ \<Rightarrow> (case configuredResolver (c_upstream c) of Inl e \<Rightarrow> Some e | Inr _ \<Rightarrow> None)))))"

definition set_tags :: "(string \<times> string) list \<Rightarrow> config \<Rightarrow> config" where
  "set_tags assigns c =
     (let tags = flag_value ''tsnet-tags'' (Join (tc_tags (c_tsnet c)) '','') assigns in
      c\<lparr>c_tsnet := (c_tsnet c)\<lparr>tc_tags := (if tags = [] then [] else SplitByte (CHR '','') tags)\<rparr>\<rparr>)"

text \<open>The document of a path, or the error of reading or parsing it, is the parameter \<open>load\<close>.\<close>

definition parseCommand ::
  "(nat \<Rightarrow> nat \<Rightarrow> nat \<Rightarrow> nat) \<Rightarrow> (string \<Rightarrow> json result) \<Rightarrow> string list \<Rightarrow> command result" where
  "parseCommand frac load args =
     (if args = [] \<or> (hd args \<noteq> ''dns'' \<and> hd args \<noteq> ''egress'') then Inl ''usage''
      else (case configPath (tl args) of
              Inl e \<Rightarrow> Inl e
            | Inr path \<Rightarrow>
                (case load path of
                   Inl e \<Rightarrow> Inl e
                 | Inr data \<Rightarrow>
                     (case read_config data of
                        Inl e \<Rightarrow> Inl e
                      | Inr c0 \<Rightarrow>
                          (case parse_flags flag_names (tl args) of
                             Inl e \<Rightarrow> Inl e
                           | Inr assigns \<Rightarrow>
                               let mode = flag_value ''mode'' ''tsnet'' assigns;
                                   c = apply_flags assigns c0 in
                               if mode \<noteq> ''tsnet'' \<and> mode \<noteq> ''tailscaled'' then Inl (''invalid -mode '' @ mode)
                               else if \<not> check_lease frac c then Inl (''invalid allocation lease '' @ c_lease c)
                               else if hd args = ''dns'' \<and> c_egress c \<noteq> None
                               then Inl ''egress assignment is only valid for the egress role''
                               else (case (if hd args = ''egress'' then egress_error c else None) of
                                       Some e \<Rightarrow> Inl e
                                     | None \<Rightarrow>
                                         Inr \<lparr>cmd_role = hd args, cmd_transport = mode,
                                              cmd_config = set_tags assigns c\<rparr>))))))"

section \<open>Paths to a resolver\<close>

record ipn_peer =
  pr_ips :: "addr list"
  pr_routes :: "prefix list option"

record ipn_status =
  st_self :: "ipn_peer option"
  st_ips :: "addr list"
  st_peers :: "ipn_peer option list"

definition resolver_addr :: "string \<Rightarrow> addr option" where
  "resolver_addr resolver =
     (case SplitHostPort resolver of None \<Rightarrow> None | Some (host, _) \<Rightarrow> ParseAddr host)"

definition prefixesContainResolver :: "prefix list \<Rightarrow> string \<Rightarrow> bool" where
  "prefixesContainResolver ps resolver \<longleftrightarrow>
     (case resolver_addr resolver of None \<Rightarrow> False | Some address \<Rightarrow> list_ex (\<lambda>p. Contains p address) ps)"

definition peerRoutesContainResolver :: "ipn_status option \<Rightarrow> string \<Rightarrow> bool" where
  "peerRoutesContainResolver status resolver \<longleftrightarrow>
     (case status of
        None \<Rightarrow> False
      | Some st \<Rightarrow>
          list_ex (\<lambda>peer. case peer of
              None \<Rightarrow> False
            | Some p \<Rightarrow> (case pr_routes p of None \<Rightarrow> False | Some routes \<Rightarrow> prefixesContainResolver routes resolver))
            (st_peers st))"

definition tailnetResolver :: "ipn_status option \<Rightarrow> string \<Rightarrow> bool" where
  "tailnetResolver status resolver \<longleftrightarrow>
     (case status of
        None \<Rightarrow> False
      | Some st \<Rightarrow>
          (case resolver_addr resolver of
             None \<Rightarrow> False
           | Some address \<Rightarrow>
               (case st_self st of None \<Rightarrow> False | Some self \<Rightarrow> address \<in> set (pr_ips self)) \<or>
               address \<in> set (st_ips st) \<or>
               list_ex (\<lambda>peer. case peer of None \<Rightarrow> False | Some p \<Rightarrow> address \<in> set (pr_ips p)) (st_peers st)))"

definition autoUsesTailnet :: "ipn_status option \<Rightarrow> string \<Rightarrow> bool" where
  "autoUsesTailnet status resolver \<longleftrightarrow> tailnetResolver status resolver \<or> peerRoutesContainResolver status resolver"

text \<open>
  The reverse lookup over several resolvers: the first that gives a name, else the error of the
  last one, which may be none. What a lookup at one resolver yields is the parameter.
\<close>

fun lookupPTR :: "(string \<Rightarrow> addr \<Rightarrow> string list result) \<Rightarrow> addr \<Rightarrow> string list \<Rightarrow> string option \<Rightarrow> string list result" where
  "lookupPTR lookup_at ip [] last_err = (case last_err of None \<Rightarrow> Inr [] | Some e \<Rightarrow> Inl e)"
| "lookupPTR lookup_at ip (dnsAddr # resolvers) last_err =
     (case lookup_at dnsAddr ip of
        Inr names \<Rightarrow> if names \<noteq> [] then Inr names else lookupPTR lookup_at ip resolvers None
      | Inl e \<Rightarrow> lookupPTR lookup_at ip resolvers (Some e))"

section \<open>Durations\<close>

lemma duration_loop_bound: "duration_loop frac d s = Some x \<Longrightarrow> d \<le> 2 ^ 63 \<Longrightarrow> x \<le> 2 ^ 63"
proof (induction frac d s rule: duration_loop.induct)
  case (1 frac d s)
  show ?case
  proof (cases "s = []")
    case True
    with 1(2,3) show ?thesis by (simp add: duration_loop.simps [of frac d "[]"])
  next
    case False
    with 1(2) obtain v r where v: "duration_term frac s = Some (v, r)" "\<not> 2 ^ 63 < (d + v) mod 2 ^ 64"
      "duration_loop frac ((d + v) mod 2 ^ 64) r = Some x"
      by (auto simp: duration_loop.simps [of frac d s] Let_def split: option.splits if_splits)
    from 1(1) [OF False v(1) refl refl v(2,3)] v(2) show ?thesis by simp
  qed
qed

text \<open>
  A parsed duration is a signed 64-bit number of nanoseconds, whatever the text: the checks of
  the parser keep every intermediate sum in range.
\<close>

theorem ParseDuration_range:
  assumes "ParseDuration frac s = Some l"
  shows "- (2 ^ 63) \<le> l \<and> l < 2 ^ 63"
proof -
  let ?r = "if s \<noteq> [] \<and> (hd s = CHR ''-'' \<or> hd s = CHR ''+'') then tl s else s"
  consider "l = 0" | d where "duration_loop frac 0 ?r = Some d" "l = - int d \<or> (l = int d \<and> d < 2 ^ 63)"
    using assms by (fastforce simp: ParseDuration_def Let_def split: if_splits option.splits)
  then show ?thesis
  proof cases
    case (2 d)
    have "d \<le> 2 ^ 63" by (rule duration_loop_bound [OF 2(1)]) simp
    with 2(2) show ?thesis by auto
  qed simp
qed

theorem ParseDuration_range_witness:
  "ParseDuration frac ''-1h30m'' = Some (- 5400000000000) \<and> (- 5400000000000 :: int) < 2 ^ 63"
proof -
  have "leadingInt 0 ''1h30m'' = Some (1, ''h30m'')" "leadingInt 0 ''30m'' = Some (30, ''m'')"
    by (simp_all add: is_digit_def digit_val_def code_def)
  then have t: "duration_term frac ''1h30m'' = Some (3600000000000, ''30m'')"
    "duration_term frac ''30m'' = Some (1800000000000, [])"
    by (simp_all add: duration_term_def fraction_part_def unit_ns_def unit_char_def is_digit_def code_def)
  have "ParseDuration frac ''-1h30m'' = Some (- 5400000000000)"
    by (simp add: ParseDuration_def duration_loop.simps t)
  with ParseDuration_range [OF this] show ?thesis by simp
qed

section \<open>Ranges of an egress instance\<close>

lemma range_prefixes_iff:
  "disjoint_ranges acc \<Longrightarrow> range_prefixes acc raws = Inr ps \<longleftrightarrow>
     (\<exists>new. ps = acc @ new \<and> list_all2 (\<lambda>raw p. ParsePrefix raw = Some p \<and> canon4 p) raws new \<and> disjoint_ranges ps)"
proof (induction raws arbitrary: acc)
  case Nil
  then show ?case by auto
next
  case (Cons raw raws)
  show ?case
  proof (cases "ParsePrefix raw")
    case None
    then show ?thesis by (auto simp: list_all2_Cons1)
  next
    case (Some p)
    have c: "canon4 p \<longleftrightarrow> Is4 (pfx_addr p) \<and> p = Masked p"
      using ParsePrefix_bits [OF Some] by (auto simp: canon4_def)
    show ?thesis
    proof (cases "canon4 p \<and> \<not> list_ex (\<lambda>prior. Overlaps p prior) acc")
      case True
      then have "disjoint_ranges (acc @ [p])"
        using Cons.prems by (auto simp: disjoint_ranges_sorted sorted_wrt_append list_ex_iff)
      from Cons.IH [OF this] True Some c show ?thesis by (auto simp: list_all2_Cons1)
    next
      case False
      have "\<not> disjoint_ranges (acc @ p # new)" if "list_ex (\<lambda>prior. Overlaps p prior) acc" for new
        using that by (auto simp: disjoint_ranges_sorted sorted_wrt_append list_ex_iff)
      with False Some c show ?thesis by (auto simp: list_all2_Cons1)
    qed
  qed
qed

lemma range_prefixes_Inr:
  assumes "range_prefixes [] raws = Inr ps"
  shows "list_all2 (\<lambda>raw p. ParsePrefix raw = Some p) raws ps" "list_all canon4 ps" "disjoint_ranges ps"
proof -
  have "disjoint_ranges []" by (simp add: disjoint_ranges_sorted)
  with assms have l: "list_all2 (\<lambda>raw p. ParsePrefix raw = Some p \<and> canon4 p) raws ps" "disjoint_ranges ps"
    using range_prefixes_iff by auto
  then show "list_all2 (\<lambda>raw p. ParsePrefix raw = Some p) raws ps" "disjoint_ranges ps"
    by (auto elim: list_all2_mono)
  show "list_all canon4 ps" using l(1) by (auto simp: list_all2_conv_all_nth list_all_length)
qed

text \<open>
  C35: The ranges of an egress instance. A configuration gives gateways exactly when it lists at
  least one range, every range is an IPv4 prefix without host bits and no two of them overlap;
  then it gives the one local gateway, with the listed prefixes in their order and the given
  resolver.
\<close>

theorem egressGateways_exact:
  "egressGateways c resolver system = Inr gs \<longleftrightarrow>
     (\<exists>e ps. c_egress c = Some e \<and> eg_ranges e \<noteq> [] \<and>
        list_all2 (\<lambda>raw p. ParsePrefix raw = Some p \<and> canon4 p) (eg_ranges e) ps \<and>
        sorted_wrt (\<lambda>p q. \<not> Overlaps q p) ps \<and>
        gs = [(localEgressGatewayKey,
          \<lparr>gw_prefixes = ps, gw_resolver = resolver, gw_system = (system \<noteq> [] \<and> hd system)\<rparr>)])"
proof (cases "c_egress c")
  case (Some e)
  have "disjoint_ranges []" by (simp add: disjoint_ranges_sorted)
  note r = range_prefixes_iff [OF this, of "eg_ranges e", unfolded disjoint_ranges_sorted append_Nil]
  show ?thesis
  proof (cases "range_prefixes [] (eg_ranges e)")
    case (Inl err)
    then have "\<not> (list_all2 (\<lambda>raw p. ParsePrefix raw = Some p \<and> canon4 p) (eg_ranges e) ps \<and>
        sorted_wrt (\<lambda>p q. \<not> Overlaps q p) ps)" for ps using r [of ps] by auto
    with Some Inl show ?thesis by (auto simp: egressGateways_def)
  next
    case (Inr ps)
    then have "list_all2 (\<lambda>raw p. ParsePrefix raw = Some p \<and> canon4 p) (eg_ranges e) qs \<and>
        sorted_wrt (\<lambda>p q. \<not> Overlaps q p) qs \<longleftrightarrow> qs = ps" for qs using r [of qs] by auto
    then have "(\<exists>qs. list_all2 (\<lambda>raw p. ParsePrefix raw = Some p \<and> canon4 p) (eg_ranges e) qs \<and>
        sorted_wrt (\<lambda>p q. \<not> Overlaps q p) qs \<and> gs = F qs) \<longleftrightarrow> gs = F ps" for F
      by (metis (no_types, lifting))
    with Some Inr show ?thesis by (simp add: egressGateways_def eq_commute [of gs])
  qed
qed (simp add: egressGateways_def)

section \<open>Resolver settings\<close>

text \<open>
  The local fallback resolver is validated like the resolvers of the policy. Apart from the
  empty setting, which stays empty, \<open>configuredResolver\<close> accepts exactly the texts that
  \<open>normalizeResolver\<close> accepts and yields the same endpoint.
\<close>

theorem configuredResolver_normalizes:
  "configuredResolver resolver =
     (if resolver = [] then Inr []
      else case normalizeResolver resolver of
             None \<Rightarrow> Inl (''invalid upstream_resolver '' @ resolver)
           | Some endpoint \<Rightarrow> Inr endpoint)"
  by (auto simp: configuredResolver_def normalizeResolver_def ParseUint16_def Let_def split: option.splits)

lemma configuredResolver_iff:
  "configuredResolver resolver = Inr r \<longleftrightarrow> resolver = [] \<and> r = [] \<or> resolver \<noteq> [] \<and> normalizeResolver resolver = Some r"
  by (auto simp: configuredResolver_def normalizeResolver_def ParseUint16_def Let_def split: option.splits if_splits)

text \<open>The nameserver of a line, if the line names one that may be used.\<close>

definition usable_nameserver :: "string \<Rightarrow> string option" where
  "usable_nameserver line =
     (case Fields line of
        [key, ip] \<Rightarrow> if key = ''nameserver'' \<and> ip \<noteq> ''100.100.100.100'' \<and> ParseIP_ok ip then Some ip else None
      | _ \<Rightarrow> None)"

lemma nameserver_loop_eq:
  "nameserver_loop lines =
     (case List.map_filter usable_nameserver lines of
        [] \<Rightarrow> Inl ''system resolver has no non-Tailscale nameserver''
      | ip # _ \<Rightarrow> Inr (JoinHostPort ip (itoa 53)))"
proof (induction lines)
  case (Cons line lines)
  have "nameserver_loop (line # lines) =
      (case usable_nameserver line of None \<Rightarrow> nameserver_loop lines | Some ip \<Rightarrow> Inr (JoinHostPort ip (itoa 53)))"
  proof (cases "length (Fields line) = 2")
    case True
    then obtain key ip where "Fields line = [key, ip]" by (auto simp: length_Suc_conv numeral_2_eq_2)
    then show ?thesis by (auto simp: usable_nameserver_def Let_def)
  next
    case False
    then have "usable_nameserver line = None" by (auto simp: usable_nameserver_def split: list.splits)
    with False show ?thesis by simp
  qed
  with Cons.IH show ?case by (simp add: map_filter_simps split: option.splits)
qed (simp add: map_filter_simps)

text \<open>
  The system resolver is port 53 of the first nameserver line that has exactly one address, a
  valid one other than 100.100.100.100; there is an error exactly when there is no such line.
\<close>

theorem systemUpstream_first:
  "systemUpstream (Inr text) =
     (case List.map_filter usable_nameserver (SplitByte (CHR 0x0A) text) of
        [] \<Rightarrow> Inl ''system resolver has no non-Tailscale nameserver''
      | ip # _ \<Rightarrow> Inr (JoinHostPort ip (itoa 53)))"
  by (simp add: systemUpstream_def nameserver_loop_eq)

text \<open>
  The IPv6 address of the Tailscale resolver is not excluded, nor is the IPv4 address in its
  mapped form: both are taken for a host resolver outside the tailnet.
\<close>

theorem systemUpstream_takes_tailscale:
  "systemUpstream (Inr ''nameserver fd7a:115c:a1e0::53'') = Inr ''[fd7a:115c:a1e0::53]:53'' \<and>
   systemUpstream (Inr ''nameserver ::ffff:100.100.100.100'') = Inr ''[::ffff:100.100.100.100]:53''"
proof -
  have f: "Fields ''nameserver fd7a:115c:a1e0::53'' = [''nameserver'', ''fd7a:115c:a1e0::53'']"
    "Fields ''nameserver ::ffff:100.100.100.100'' = [''nameserver'', ''::ffff:100.100.100.100'']"
    by (simp_all add: Fields_def fields_loop.simps end_field_def code_def)
  have p: "parse6 None [] ''fd7a:115c:a1e0::53'' = Some (Some 6, [0xfd, 0x7a, 0x11, 0x5c, 0xa1, 0xe0, 0, 0x53], [])"
    "parse6 (Some 0) [] ''ffff:100.100.100.100'' = Some (Some 0, [0xff, 0xff, 100, 100, 100, 100], [])"
    by (simp_all add: parse6.simps hex_val_def is_digit_def digit_val_def code_def hex_num_def Let_def
        parseIPv4Fields_def parse_octet_def all_digits_def atoi_def)
  have "ParseIP_ok ''fd7a:115c:a1e0::53''" "ParseIP_ok ''::ffff:100.100.100.100''"
    by (simp_all add: ParseIP_ok_def ParseAddr_def parseIPv6_def HasPrefix_def expand6_def p)
  moreover have "itoa 53 = ''53''" by code_simp
  ultimately show ?thesis by (simp add: systemUpstream_def f JoinHostPort_def)
qed

section \<open>Accepted commands\<close>

lemma parseCommand_InrE:
  assumes "parseCommand frac load args = Inr cmd"
  obtains path data c0 assigns where "args \<noteq> []" "hd args \<in> {''dns'', ''egress''}" "configPath (tl args) = Inr path"
    "load path = Inr data" "read_config data = Inr c0" "parse_flags flag_names (tl args) = Inr assigns"
    "flag_value ''mode'' ''tsnet'' assigns \<in> {''tsnet'', ''tailscaled''}" "check_lease frac (apply_flags assigns c0)"
    "hd args = ''dns'' \<longrightarrow> c_egress c0 = None" "hd args = ''egress'' \<longrightarrow> egress_error (apply_flags assigns c0) = None"
    "cmd = \<lparr>cmd_role = hd args, cmd_transport = flag_value ''mode'' ''tsnet'' assigns,
      cmd_config = set_tags assigns (apply_flags assigns c0)\<rparr>"
proof -
  have e: "c_egress (apply_flags a c) = c_egress c" for a c by (simp add: apply_flags_def Let_def)
  show ?thesis
    using assms that
    by (auto simp: parseCommand_def e Let_def split: sum.splits if_splits option.splits)
qed

lemma set_tags_fields [simp]:
  "c_lease (set_tags a c) = c_lease c" "c_egress (set_tags a c) = c_egress c" "c_upstream (set_tags a c) = c_upstream c"
  "c_upstream_interface (set_tags a c) = c_upstream_interface c"
  by (simp_all add: set_tags_def Let_def)

lemma set_tags_checks:
  "check_lease frac (set_tags a c) = check_lease frac c" "egress_error (set_tags a c) = egress_error c"
  unfolding check_lease_def egress_error_def egressGateways_def egressUpstreamResolverInterface_def
    egressPTRResolverInterface_def egressPTRResolver_def set_tags_fields
  by (rule refl)+

lemma egressGateways_any: "egressGateways c r b = Inr gs \<Longrightarrow> \<exists>gs'. egressGateways c r' b' = Inr gs'"
  by (auto simp: egressGateways_def split: option.splits if_splits sum.splits)

lemma egress_error_None:
  assumes "egress_error c = None"
  shows "\<exists>gs. egressGateways c resolver system = Inr gs" "\<exists>i. egressUpstreamResolverInterface c = Inr i"
    "\<exists>i. egressPTRResolverInterface c = Inr i" "\<exists>p. egressPTRResolver c = Inr p" "\<exists>r. configuredResolver (c_upstream c) = Inr r"
proof -
  show "\<exists>gs. egressGateways c resolver system = Inr gs"
    using assms egressGateways_any by (auto simp: egress_error_def split: sum.splits)
qed (use assms in \<open>auto simp: egress_error_def split: sum.splits\<close>)

text \<open>
  C30: Validation at start-up is complete. A command that is accepted has one of the two roles and
  transports and, if it sets one, a positive lease; for the DNS role it has no egress section. For
  the egress role none of the checks that the daemon makes of its configuration can fail any more,
  whichever resolver is selected: the ranges give gateways, both interfaces and the reverse
  resolver are valid, and selecting the backend resolver from the configuration can fail only for
  want of a system resolver.
\<close>

theorem parseCommand_validates:
  assumes "parseCommand frac load args = Inr cmd"
  shows "cmd_role cmd \<in> {''dns'', ''egress''} \<and> cmd_transport cmd \<in> {''tsnet'', ''tailscaled''} \<and>
    (c_lease (cmd_config cmd) = [] \<or> (\<exists>l. ParseDuration frac (c_lease (cmd_config cmd)) = Some l \<and> 0 < l)) \<and>
    (cmd_role cmd = ''dns'' \<longrightarrow> c_egress (cmd_config cmd) = None) \<and>
    (cmd_role cmd = ''egress'' \<longrightarrow>
      (\<forall>resolver system. \<exists>gs. egressGateways (cmd_config cmd) resolver system = Inr gs) \<and>
      (\<exists>i. egressUpstreamResolverInterface (cmd_config cmd) = Inr i) \<and>
      (\<exists>i. egressPTRResolverInterface (cmd_config cmd) = Inr i) \<and>
      (\<exists>p. egressPTRResolver (cmd_config cmd) = Inr p) \<and>
      (\<forall>nc resolv. \<not> nc_has_upstream nc \<longrightarrow>
        (\<exists>r. egressBackendResolver resolv (cmd_config cmd) nc = Inr r) \<or> (\<exists>e. systemUpstream resolv = Inl e)))"
proof -
  obtain c0 assigns where p: "hd args \<in> {''dns'', ''egress''}"
    "flag_value ''mode'' ''tsnet'' assigns \<in> {''tsnet'', ''tailscaled''}" "check_lease frac (apply_flags assigns c0)"
    "hd args = ''dns'' \<longrightarrow> c_egress c0 = None" "hd args = ''egress'' \<longrightarrow> egress_error (apply_flags assigns c0) = None"
    "cmd = \<lparr>cmd_role = hd args, cmd_transport = flag_value ''mode'' ''tsnet'' assigns,
      cmd_config = set_tags assigns (apply_flags assigns c0)\<rparr>"
    using assms by (rule parseCommand_InrE)
  let ?c = "cmd_config cmd"
  have l: "check_lease frac ?c" and n: "hd args = ''dns'' \<longrightarrow> c_egress ?c = None"
    and e: "hd args = ''egress'' \<longrightarrow> egress_error ?c = None"
    using p by (simp_all add: set_tags_checks) (simp add: apply_flags_def Let_def)
  have "(\<exists>r. egressBackendResolver resolv ?c nc = Inr r) \<or> (\<exists>err. systemUpstream resolv = Inl err)"
    if role: "hd args = ''egress''" and nc: "\<not> nc_has_upstream nc" for nc resolv
  proof -
    obtain r where "configuredResolver (c_upstream ?c) = Inr r" using egress_error_None(5) [OF mp [OF e role]] by blast
    then have "\<exists>r. configuredResolver (if c_upstream ?c = [] then ''system'' else c_upstream ?c) = Inr r"
      by (auto simp: configuredResolver_def IsSystemResolver_def EqualFoldASCII_def upper_char_def is_lower_def code_def)
    then show ?thesis
      using nc by (auto simp: egressBackendResolver_def Let_def split: sum.splits if_splits)
  qed
  moreover have "c_lease ?c = [] \<or> (\<exists>l. ParseDuration frac (c_lease ?c) = Some l \<and> 0 < l)"
    using l by (auto simp: check_lease_def split: option.splits)
  ultimately show ?thesis using p n e egress_error_None [of ?c] by simp
qed

section \<open>The configuration path and the flags\<close>

text \<open>The arguments that flag parsing leaves unread.\<close>

fun flag_rest :: "string list \<Rightarrow> string list" where
  "flag_rest [] = []"
| "flag_rest (s # args) =
     (if length s < 2 \<or> hd s \<noteq> CHR ''-'' then s # args
      else if s = ''--'' then args
      else if CHR ''='' \<in> set s then flag_rest args
      else (case args of [] \<Rightarrow> [] | _ # args' \<Rightarrow> flag_rest args'))"

definition config_like :: "string \<Rightarrow> bool" where
  "config_like a \<longleftrightarrow> a = ''-config'' \<or> a = ''--config'' \<or> HasPrefix a ''-config='' \<or> HasPrefix a ''--config=''"

lemma config_path_skip:
  "\<not> config_like a \<Longrightarrow> config_path_loop path (a # args) = config_path_loop path args"
  by (simp add: config_like_def)

lemma config_path_rest: "list_all (\<lambda>a. \<not> config_like a) args \<Longrightarrow> config_path_loop path args = Inr path"
  by (induction args) (simp_all add: config_path_skip del: config_path_loop.simps(2))

lemma flag_value_Nil [simp]: "flag_value n v [] = v"
  by (simp add: flag_value_def)

lemma flag_value_Cons [simp]: "flag_value n v ((m, w) # assigns) = flag_value n (if m = n then w else v) assigns"
  by (simp add: flag_value_def split: list.splits)

text \<open>A flag argument is one or two dashes and a name that starts with neither dash nor equals sign.\<close>

lemma flag_argE:
  assumes "\<not> (length s < 2 \<or> hd s \<noteq> CHR ''-'' \<or> s = ''--'')" "name = (if s ! 1 = CHR ''-'' then drop 2 s else drop 1 s)"
    and "\<not> (name = [] \<or> hd name = CHR ''-'' \<or> hd name = CHR ''='')"
  obtains "s = ''-'' @ name" | "s = ''--'' @ name"
proof -
  obtain b r where s: "s = CHR ''-'' # b # r" using assms(1) by (cases s; cases "tl s") auto
  show ?thesis by (cases "b = CHR ''-''") (use s assms(2) that in auto)
qed

lemma parse_flags_step:
  assumes "\<not> (length s < 2 \<or> hd s \<noteq> CHR ''-'' \<or> s = ''--'')" "name = (if s ! 1 = CHR ''-'' then drop 2 s else drop 1 s)"
    and "\<not> (name = [] \<or> hd name = CHR ''-'' \<or> hd name = CHR ''='')"
  shows "parse_flags names (s # args) =
    (case CutByte name (CHR ''='') of
       Some (n, v) \<Rightarrow>
         if n \<notin> set names then Inl ''flag provided but not defined''
         else map_sum id (Cons (n, v)) (parse_flags names args)
     | None \<Rightarrow>
         if name \<notin> set names then Inl ''flag provided but not defined''
         else (case args of
                 [] \<Rightarrow> Inl ''flag needs an argument''
               | v # args' \<Rightarrow> map_sum id (Cons (name, v)) (parse_flags names args')))"
  unfolding parse_flags.simps(2) Let_def assms(2) [symmetric] if_not_P [OF assms(1)] if_not_P [OF assms(3)] ..

lemma config_path_attached:
  assumes "s = ''-'' @ name \<or> s = ''--'' @ name" "name \<noteq> []" "hd name \<noteq> CHR ''-''" "CutByte name (CHR ''='') = Some (n, v)"
  shows "config_path_loop path (s # args) = config_path_loop (if n = ''config'' then v else path) args"
proof -
  note nv = CutByte_SomeD [OF assms(4)]
  have p: "prefix ''config='' name \<longleftrightarrow> n = ''config''" using prefix_sep [of "CHR ''=''" "''config''" n v] nv by auto
  have q: "\<not> prefix ''-config='' name" using assms(2,3) by (cases name) auto
  have "CHR ''='' \<in> set s" using assms(1) nv(1) by auto
  then have "s \<noteq> ''-config''" "s \<noteq> ''--config''" by auto
  with assms(1) p q nv(1) show ?thesis by (auto simp: HasPrefix_def)
qed

lemma config_like_flag:
  assumes "s = ''-'' @ name \<or> s = ''--'' @ name" "name \<noteq> []" "hd name \<noteq> CHR ''-''" "CHR ''='' \<notin> set name"
  shows "config_like s \<longleftrightarrow> name = ''config''" "name = ''config'' \<Longrightarrow> s = ''-config'' \<or> s = ''--config''"
proof -
  have "\<not> prefix (m @ ''='') s" for m
    using assms(1,4) by (auto dest!: set_mono_prefix)
  from this [of "''-config''"] this [of "''--config''"] have "\<not> HasPrefix s ''-config=''" "\<not> HasPrefix s ''--config=''"
    by (simp_all add: HasPrefix_def)
  then show "config_like s \<longleftrightarrow> name = ''config''" using assms(1-3) by (auto simp: config_like_def)
qed (use assms(1) in auto)

lemma config_path_loop_flags:
  assumes "parse_flags names args = Inr assigns" "list_all (\<lambda>a. \<not> config_like a) (flag_rest args)"
    and "list_all (\<lambda>(n, v). n = ''config'' \<or> \<not> config_like v) assigns"
  shows "config_path_loop path args = Inr (flag_value ''config'' path assigns)"
  using assms
proof (induction names args arbitrary: assigns path rule: parse_flags.induct)
  case (1 names)
  then show ?case by simp
next
  case (2 names s args)
  show ?case
  proof (cases "length s < 2 \<or> hd s \<noteq> CHR ''-'' \<or> s = ''--''")
    case True
    then have a: "assigns = []" using "2.prems"(1) by auto
    have "list_all (\<lambda>a. \<not> config_like a) (s # args)"
      using True "2.prems"(2) by (auto simp: config_like_def HasPrefix_def split: if_splits)
    from config_path_rest [OF this] a show ?thesis by (simp del: config_path_loop.simps)
  next
    case False
    define name where "name = (if s ! 1 = CHR ''-'' then drop 2 s else drop 1 s)"
    have n: "\<not> (name = [] \<or> hd name = CHR ''-'' \<or> hd name = CHR ''='')"
      using False "2.prems"(1) by (auto simp: name_def Let_def split: if_splits)
    have s: "s = ''-'' @ name \<or> s = ''--'' @ name" by (rule flag_argE [OF False name_def n]) auto
    note IH = "2.IH" [OF False name_def n]
    have eq: "CHR ''='' \<in> set s \<longleftrightarrow> CHR ''='' \<in> set name" using s by auto
    show ?thesis
    proof (cases "CutByte name (CHR ''='')")
      case None
      then have ne: "CHR ''='' \<notin> set name" by (simp add: CutByte_def split: if_splits)
      obtain v args' as where v: "args = v # args'" "name \<in> set names" "parse_flags names args' = Inr as" "assigns = (name, v) # as"
        using "2.prems"(1) None unfolding parse_flags_step [OF False name_def n]
        by (cases args; cases "parse_flags names (tl args)") (auto split: if_splits)
      have r: "list_all (\<lambda>a. \<not> config_like a) (flag_rest args')" "list_all (\<lambda>(n, v). n = ''config'' \<or> \<not> config_like v) as"
        using "2.prems"(2,3) False eq ne v by auto
      have IH': "config_path_loop path' args' = Inr (flag_value ''config'' path' as)" for path'
        using IH(1) [OF None _ v(1) v(3) r] v(2) by simp
      show ?thesis
      proof (cases "name = ''config''")
        case True
        with config_like_flag(2) [OF s _ _ ne] n have "s = ''-config'' \<or> s = ''--config''" by auto
        with True v IH' show ?thesis by auto
      next
        case nc: False
        with config_like_flag(1) [OF s _ _ ne] n have "\<not> config_like s" by auto
        moreover have "\<not> config_like v" using "2.prems"(3) v(4) nc by simp
        ultimately show ?thesis using v IH' nc by (simp add: config_path_skip del: config_path_loop.simps)
      qed
    next
      case (Some p)
      obtain m v where p: "p = (m, v)" by (cases p)
      obtain as where as: "m \<in> set names" "parse_flags names args = Inr as" "assigns = (m, v) # as"
        using "2.prems"(1) Some p unfolding parse_flags_step [OF False name_def n]
        by (cases "parse_flags names args") (auto split: if_splits)
      have "CHR ''='' \<in> set s" using eq CutByte_SomeD(1) Some p by fastforce
      then have r: "list_all (\<lambda>a. \<not> config_like a) (flag_rest args)" "list_all (\<lambda>(n, v). n = ''config'' \<or> \<not> config_like v) as"
        using "2.prems"(2,3) False as by auto
      have IH': "config_path_loop path' args = Inr (flag_value ''config'' path' as)" for path'
        using IH(2) [OF Some p [symmetric] _ as(2) r] as(1) by simp
      show ?thesis
        using config_path_attached [OF s _ _ Some [unfolded p], of path args] n IH' as(3)
        by (simp del: config_path_loop.simps)
    qed
  qed
qed

text \<open>
  C36: The configuration file is the one the flags name. Whenever the flags parse, and neither a value
  of another flag nor an argument behind the flags looks like a configuration flag, the path that
  \<open>configPath\<close> scans for before the flags are known is the cleaned value that flag parsing gives
  the \<^verbatim>\<open>config\<close> flag, the last one if it is given repeatedly.
\<close>

theorem configPath_is_flag:
  assumes "parse_flags flag_names args = Inr assigns"
    and "list_all (\<lambda>(n, v). n = ''config'' \<or> \<not> config_like v) assigns"
    and "list_all (\<lambda>a. \<not> config_like a) (flag_rest args)"
  shows "configPath args = Inr (Clean (flag_value ''config'' ''config.json'' assigns))"
  using config_path_loop_flags [OF assms(1,3,2)] by (simp add: configPath_def)

definition demo_args :: "string list" where
  "demo_args = [''-mode'', ''tailscaled'', ''--config=etc//../gw.json'', ''-database'', ''sqlite:///a.db'']"

theorem configPath_is_flag_witness:
  "configPath demo_args = Inr ''gw.json''"
proof -
  let ?as = "[(''mode'', ''tailscaled''), (''config'', ''etc//../gw.json''), (''database'', ''sqlite:///a.db'')]"
  have p: "parse_flags flag_names demo_args = Inr ?as"
    by (simp add: demo_args_def flag_names_def CutByte_def)
  have "configPath demo_args = Inr (Clean (flag_value ''config'' ''config.json'' ?as))"
    by (rule configPath_is_flag [OF p]) (simp_all add: config_like_def HasPrefix_def demo_args_def)
  then show ?thesis by (simp add: Clean_def)
qed

section \<open>A configuration\<close>

definition demo_document :: json where
  "demo_document = JObj
     [(''Upstream_Resolver'', JStr ''192.0.2.53''),
      (''egress'', JObj [(''ranges'', JArr [JStr ''10.254.0.0/29'', JStr ''10.254.1.0/30''])])]"

definition demo_load :: "string \<Rightarrow> json result" where
  "demo_load path = (if path = ''gw.json'' then Inr demo_document else Inl ''no such file'')"

definition demo_config :: config where
  "demo_config =
     \<lparr>c_listen = [], c_gateway_listen = [], c_socket = [], c_database = [], c_lease = [], c_upstream = ''192.0.2.53'',
      c_upstream_interface = [],
      c_egress = Some \<lparr>eg_ranges = [''10.254.0.0/29'', ''10.254.1.0/30''], eg_ptr_resolver = [], eg_ptr_interface = []\<rparr>,
      c_tsnet = \<lparr>tc_dir = [], tc_hostname = [], tc_auth_key = [], tc_control_url = [], tc_tags = []\<rparr>\<rparr>"

lemma demo_read: "read_config demo_document = Inr demo_config"
  by code_simp

lemma demo_command:
  "\<exists>cmd. parseCommand (\<lambda>_ _ _. 0) demo_load (''egress'' # demo_args) = Inr cmd \<and>
     cmd_role cmd = ''egress'' \<and> cmd_transport cmd = ''tailscaled''"
proof -
  have p: "parse_flags flag_names demo_args =
      Inr [(''mode'', ''tailscaled''), (''config'', ''etc//../gw.json''), (''database'', ''sqlite:///a.db'')]"
    by (simp add: demo_args_def flag_names_def CutByte_def)
  have c: "configPath demo_args = Inr ''gw.json''"
    by (simp add: configPath_def demo_args_def HasPrefix_def Clean_def)
  have "apply_flags [(''mode'', ''tailscaled''), (''config'', ''etc//../gw.json''), (''database'', ''sqlite:///a.db'')] demo_config =
      demo_config\<lparr>c_database := ''sqlite:///a.db''\<rparr>"
    by (simp add: apply_flags_def demo_config_def Let_def)
  moreover have "egress_error (demo_config\<lparr>c_database := ''sqlite:///a.db''\<rparr>) = None" by code_simp
  ultimately show ?thesis
    by (simp add: parseCommand_def p c demo_load_def demo_read check_lease_def Let_def) (simp add: demo_config_def)
qed

theorem parseCommand_validates_witness:
  "\<exists>cmd. parseCommand (\<lambda>_ _ _. 0) demo_load (''egress'' # demo_args) = Inr cmd \<and>
     (\<exists>gs. egressGateways (cmd_config cmd) ''192.0.2.53:53'' [False] = Inr gs) \<and>
     (\<exists>p. egressPTRResolver (cmd_config cmd) = Inr p)"
proof -
  obtain cmd where c: "parseCommand (\<lambda>_ _ _. 0) demo_load (''egress'' # demo_args) = Inr cmd" "cmd_role cmd = ''egress''"
    using demo_command by blast
  with parseCommand_validates [OF c(1)] show ?thesis by blast
qed

end
