(* ===== verification/Daemon.thy ===== *)
theory Daemon
  imports Config Proxy
begin

text \<open>
  The two daemons of \<^verbatim>\<open>cmd/domain-gateway\<close>: opening the tailnet transport
  (\<^verbatim>\<open>transport.go\<close>), starting the DNS authority and the egress gateway (\<open>runDNS\<close> and
  \<open>runEgress\<close> of \<^verbatim>\<open>main.go\<close>), and the decision function that ties the wire server to the
  service. What the operating system, the tailnet and the database do at start-up is a record of
  parameters; a fatal error is an error value. The lemmas compose the components: which questions
  leave the daemon, that an answered name is found again through a reverse query on the wire, and
  that an egress gateway which asks the authority dials the name the client asked for.
\<close>

section \<open>Decisions of the DNS authority\<close>

text \<open>The part of the decision behind the reverse names: tag expressions, then policy.\<close>

definition decide_name :: "env \<Rightarrow> TaggedNode list result \<Rightarrow> Service decide" where
  "decide_name env nodes source question s =
     (case ResolveTags (env_lower env) (q_name question) nodes of
        Some ips \<Rightarrow>
          (case (if q_type question = TypeA \<and> ips \<noteq> [] then ParseAddr (hd ips) else None) of
             Some ip \<Rightarrow> (\<lparr>dec_outcome = Address, dec_address = ip, dec_ptr = []\<rparr>, s)
           | None \<Rightarrow> (\<lparr>dec_outcome = NoResponse, dec_address = NoAddr, dec_ptr = []\<rparr>, s))
      | None \<Rightarrow>
          if \<not> IsValid source then (\<lparr>dec_outcome = NoResponse, dec_address = NoAddr, dec_ptr = []\<rparr>, s)
          else (case DNSAnswer env source (q_name question) s of
                  ((ip, outcome), s') \<Rightarrow>
                    (case outcome of
                       DNSSynthesized \<Rightarrow> \<lparr>dec_outcome = Address, dec_address = ip, dec_ptr = []\<rparr>
                     | DNSUnavailable \<Rightarrow> \<lparr>dec_outcome = Unavailable, dec_address = NoAddr, dec_ptr = []\<rparr>
                     | DNSPassthrough \<Rightarrow> \<lparr>dec_outcome = Passthrough, dec_address = NoAddr, dec_ptr = []\<rparr>, s')))"

definition dns_decide :: "env \<Rightarrow> TaggedNode list result \<Rightarrow> Service decide" where
  "dns_decide env nodes source question s =
     (case (if q_type question = TypePTR then ReverseIPv4 (env_lower env) (q_name question) else None) of
        Some synthetic \<Rightarrow>
          (case PTRMapping env synthetic s of
             (Some m, s') \<Rightarrow> (\<lparr>dec_outcome = PTR, dec_address = NoAddr, dec_ptr = map_domain m\<rparr>, s')
           | (None, s') \<Rightarrow> (\<lparr>dec_outcome = PTR, dec_address = NoAddr, dec_ptr = []\<rparr>, s'))
      | None \<Rightarrow> decide_name env nodes source question s)"

section \<open>The world at start-up\<close>

text \<open>Where a connection to a resolver goes; a resolver dialer chooses by the address.\<close>

datatype path = TailnetPath | HostPath

record tsnet_server =
  tv_dir :: string
  tv_hostname :: string
  tv_auth_key :: string
  tv_control_url :: string
  tv_tags :: "string list"

text \<open>
  What the outside gives: the resolver file, the key in the environment, the daemon behind a
  socket, the embedded node (joining, its client, its address, accepting routes, its status and
  DNS configuration), databases, listening and resolving of addresses, and reverse lookups at a
  resolver over a path.
\<close>

record world =
  w_resolv_conf :: "string result"
  w_env_auth_key :: string
  w_daemon :: "string \<Rightarrow> LocalAPI"
  w_up :: "tsnet_server \<Rightarrow> string option"
  w_client :: "tsnet_server \<Rightarrow> TSNetIdentity result"
  w_tailscale_ip :: addr
  w_accept_routes :: "string option"
  w_status :: "ipn_status result"
  w_dns_config :: "string list result"
  w_open_store :: "string \<Rightarrow> (string \<times> (string \<rightharpoonup> time) \<times> table) result"
  w_db_script :: "event list"
  w_listen_tailnet :: "string \<Rightarrow> string option"
  w_listen_host :: "string \<Rightarrow> string option"
  w_resolve_udp :: "string \<Rightarrow> string result"
  w_lookup_addr_at :: "path \<Rightarrow> string \<Rightarrow> addr \<Rightarrow> string list result"

section \<open>The tailnet transport\<close>

definition newTSNet :: "string \<Rightarrow> config \<Rightarrow> tsnet_server result" where
  "newTSNet env_key c =
     (let t = c_tsnet c in
      if tc_dir t = [] then Inl ''tsnet.dir is required for userspace mode''
      else let authKey = (if tc_auth_key t = [] then env_key else tc_auth_key t);
               advertiseTags = (if authKey \<noteq> [] then [] else tc_tags t) in
        Inr \<lparr>tv_dir = tc_dir t, tv_hostname = tc_hostname t, tv_auth_key = authKey,
             tv_control_url = tc_control_url t, tv_tags = advertiseTags\<rparr>)"

record tailnetTransport =
  tr_identity :: identity
  tr_nodes :: "TaggedNode list result"
  tr_config :: "NodeConfig result"
  tr_ip :: addr
  tr_server :: "tsnet_server option"

definition openTailnetTransport :: "world \<Rightarrow> config \<Rightarrow> string \<Rightarrow> bool \<Rightarrow> tailnetTransport result" where
  "openTailnetTransport w c mode needIP =
     (if mode = ''tailscaled''
      then let api = w_daemon w (c_socket c);
               transport = \<lparr>tr_identity = local_identity api, tr_nodes = LocalAPI_TaggedNodes api,
                            tr_config = LocalAPI_NodeConfig api, tr_ip = NoAddr, tr_server = None\<rparr> in
        if needIP
        then (case TailscaleIP api of Inl e \<Rightarrow> Inl e | Inr ip \<Rightarrow> Inr (transport\<lparr>tr_ip := ip\<rparr>))
        else Inr transport
      else (case newTSNet (w_env_auth_key w) c of
              Inl e \<Rightarrow> Inl e
            | Inr server \<Rightarrow>
                (case w_up w server of
                   Some e \<Rightarrow> Inl e
                 | None \<Rightarrow>
                     (case w_client w server of
                        Inl e \<Rightarrow> Inl e
                      | Inr i \<Rightarrow>
                          if TSNet_NodeConfig i = Inl ''panic'' then Inl ''panic''
                          else Inr \<lparr>tr_identity = tsnet_identity i, tr_nodes = TSNet_TaggedNodes i,
                                 tr_config = TSNet_NodeConfig i,
                                 tr_ip = (if needIP then w_tailscale_ip w else NoAddr), tr_server = Some server\<rparr>))))"

definition listenUDP :: "world \<Rightarrow> tailnetTransport \<Rightarrow> string \<Rightarrow> string option" where
  "listenUDP w t address = (if tr_server t \<noteq> None then w_listen_tailnet w address else w_listen_host w address)"

section \<open>The DNS role\<close>

definition dnsGateways :: "string result \<Rightarrow> NodeConfig \<Rightarrow> ((string \<times> Gateway) list \<times> string) result" where
  "dnsGateways resolv_conf nodeConfig =
     (if IsSystemResolver (nc_upstream nodeConfig)
      then (case systemUpstream resolv_conf of Inl e \<Rightarrow> Inl e | Inr upstream \<Rightarrow> Inr ([], upstream))
      else Inr ([], nc_upstream nodeConfig))"

definition dnsListenAddress :: "string \<Rightarrow> addr \<Rightarrow> string" where
  "dnsListenAddress configured ip =
     (if configured \<noteq> [] then configured else JoinHostPort (AddrString ip) ''53'')"

definition allocationStore :: "world \<Rightarrow> config \<Rightarrow> store option result" where
  "allocationStore w c =
     (if c_database c \<noteq> []
      then (case w_open_store w (c_database c) of
              Inl e \<Rightarrow> Inl e
            | Inr (driver, ren, t) \<Rightarrow>
                Inr (Some \<lparr>cache = NewAllocator, lastRenewed = ren, tab = t, script = w_db_script w\<rparr>))
      else Inr None)"

text \<open>\<^verbatim>\<open>mustAddr\<close> resolves an address or ends the process.\<close>

definition mustAddr :: "world \<Rightarrow> string \<Rightarrow> string result" where
  "mustAddr w s = w_resolve_udp w s"

record dns_daemon =
  dn_listen :: string
  dn_upstream :: string
  dn_transport :: tailnetTransport
  dn_service :: Service

definition dns_service :: "(string \<times> Gateway) list \<Rightarrow> store option \<Rightarrow> duration \<Rightarrow> Service" where
  "dns_service gs st L =
     \<lparr>sv_gateways = gs,
      sv_node = \<lparr>n_store = (case st of
                    None \<Rightarrow> \<lparr>cache = NewAllocator, lastRenewed = Map.empty, tab = [], script = []\<rparr>
                  | Some x \<Rightarrow> x),
                 n_fs = (\<lambda>_. NotExist)\<rparr>,
      sv_store = (st \<noteq> None), sv_lifecycle = Some \<lparr>lc_path = [], lc_lease = L\<rparr>, sv_path = [], sv_lease = 0,
      sv_synthesized = 0, sv_passthrough = 0, sv_allowed = 0, sv_denied = 0\<rparr>"

definition runDNS :: "(nat \<Rightarrow> nat \<Rightarrow> nat \<Rightarrow> nat) \<Rightarrow> world \<Rightarrow> config \<Rightarrow> string \<Rightarrow> dns_daemon result" where
  "runDNS frac w c transport =
     (case openTailnetTransport w c transport True of
        Inl e \<Rightarrow> Inl e
      | Inr tailnet \<Rightarrow>
          (case tr_config tailnet of
             Inl e \<Rightarrow> Inl (''missing or invalid domain-gateway NodeAttr: '' @ e)
           | Inr nodeConfig \<Rightarrow>
               (case dnsGateways (w_resolv_conf w) nodeConfig of
                  Inl e \<Rightarrow> Inl e
                | Inr (gs, upstream) \<Rightarrow>
                    (case allocationStore w c of
                       Inl e \<Rightarrow> Inl e
                     | Inr st \<Rightarrow>
                         let L = (if c_lease c \<noteq> []
                                      then (case ParseDuration frac (c_lease c) of None \<Rightarrow> 0 | Some l \<Rightarrow> l)
                                      else 3600 * 1000000000);
                             address = dnsListenAddress (c_listen c) (tr_ip tailnet) in
                         (case listenUDP w tailnet address of
                            Some e \<Rightarrow> Inl e
                          | None \<Rightarrow>
                              (case mustAddr w upstream of
                                 Inl e \<Rightarrow> Inl e
                               | Inr upstreamAddr \<Rightarrow>
                                   Inr \<lparr>dn_listen = address, dn_upstream = upstreamAddr, dn_transport = tailnet,
                                        dn_service = dns_service gs st L\<rparr>))))))"

section \<open>The egress role\<close>

definition resolverDialFor :: "ipn_status result \<Rightarrow> string \<Rightarrow> string \<Rightarrow> path" where
  "resolverDialFor reply resolverInterface address =
     (if resolverInterface = ''tailnet'' then TailnetPath
      else if resolverInterface = ''host'' then HostPath
      else (case reply of
              Inl _ \<Rightarrow> HostPath
            | Inr st \<Rightarrow> if autoUsesTailnet (Some st) address then TailnetPath else HostPath))"

text \<open>The advertised resolvers with the default port, empty entries left out.\<close>

definition advertised_resolvers :: "string list \<Rightarrow> string list" where
  "advertised_resolvers addrs =
     map (\<lambda>a. case SplitHostPort a of None \<Rightarrow> JoinHostPort a ''53'' | Some _ \<Rightarrow> a) (filter (\<lambda>a. a \<noteq> []) addrs)"

definition ptr_resolvers :: "world \<Rightarrow> string option \<Rightarrow> string list result" where
  "ptr_resolvers w configured =
     (case configured of
        Some ptrResolver \<Rightarrow> Inr [ptrResolver]
      | None \<Rightarrow>
          let err = Inl ''userspace gateway requires egress.ptr_resolver or an advertised Tailscale DNS resolver'' in
          (case w_dns_config w of
             Inl _ \<Rightarrow> err
           | Inr addrs \<Rightarrow> if advertised_resolvers addrs = [] then err else Inr (advertised_resolvers addrs)))"

record egress_daemon =
  ed_service :: Service
  ed_plane :: "(string \<Rightarrow> path) dataplane"
  ed_transport :: tailnetTransport

definition node_config :: "tailnetTransport \<Rightarrow> NodeConfig" where
  "node_config t = (case tr_config t of Inl _ \<Rightarrow> \<lparr>nc_upstream = [], nc_has_upstream = False\<rparr> | Inr nc \<Rightarrow> nc)"

text \<open>The service of an egress gateway has gateways and no allocation state.\<close>

definition egress_service :: "(string \<times> Gateway) list \<Rightarrow> Service" where
  "egress_service gs = (dns_service gs None 0)\<lparr>sv_lifecycle := None\<rparr>"

definition runEgress_tailscaled :: "world \<Rightarrow> config \<Rightarrow> egress_daemon result" where
  "runEgress_tailscaled w c =
     (case openTailnetTransport w c ''tailscaled'' False of
        Inl e \<Rightarrow> Inl e
      | Inr tailnet \<Rightarrow>
          (case egressBackendResolver (w_resolv_conf w) c (node_config tailnet) of
             Inl e \<Rightarrow> Inl e
           | Inr (resolver, systemResolver) \<Rightarrow>
               (case egressGateways c resolver [systemResolver] of
                  Inl e \<Rightarrow> Inl e
                | Inr gs \<Rightarrow>
                    (case egressPTRResolver c of
                       Inl e \<Rightarrow> Inl e
                     | Inr configured \<Rightarrow>
                         Inr \<lparr>ed_service = egress_service gs,
                              ed_plane = \<lparr>dp_ptr_lookup = map_option (w_lookup_addr_at w HostPath) configured,
                                          dp_resolver_dial = None,
                                          dp_system_resolver = Some (systemUpstream (w_resolv_conf w))\<rparr>,
                              ed_transport = tailnet\<rparr>))))"

definition runEgress_tsnet :: "world \<Rightarrow> config \<Rightarrow> string \<Rightarrow> egress_daemon result" where
  "runEgress_tsnet w c transport =
     (case openTailnetTransport w c transport False of
        Inl e \<Rightarrow> Inl e
      | Inr tailnet \<Rightarrow>
          (case w_accept_routes w of
             Some e \<Rightarrow> Inl (''userspace gateway cannot accept tailnet subnet routes: '' @ e)
           | None \<Rightarrow>
               (case (egressUpstreamResolverInterface c, egressPTRResolverInterface c) of
                  (Inl e, _) \<Rightarrow> Inl e
                | (Inr _, Inl e) \<Rightarrow> Inl e
                | (Inr upstreamInterface, Inr ptrInterface) \<Rightarrow>
                    (case egressBackendResolver (w_resolv_conf w) c (node_config tailnet) of
                       Inl e \<Rightarrow> Inl e
                     | Inr (resolver, systemResolver) \<Rightarrow>
                         (case egressPTRResolver c of
                            Inl e \<Rightarrow> Inl e
                          | Inr configured \<Rightarrow>
                              (case ptr_resolvers w configured of
                                 Inl e \<Rightarrow> Inl e
                               | Inr dnsResolvers \<Rightarrow>
                                   (case egressGateways c resolver [systemResolver] of
                                      Inl e \<Rightarrow> Inl e
                                    | Inr gs \<Rightarrow>
                                        let ptrResolverDial = resolverDialFor (w_status w) ptrInterface in
                                        Inr \<lparr>ed_service = egress_service gs,
                                             ed_plane =
                                               \<lparr>dp_ptr_lookup = Some (\<lambda>ip.
                                                  lookupPTR (\<lambda>a. w_lookup_addr_at w (ptrResolverDial a) a) ip dnsResolvers None),
                                                dp_resolver_dial = Some (resolverDialFor (w_status w) upstreamInterface),
                                                dp_system_resolver = Some (systemUpstream (w_resolv_conf w))\<rparr>,
                                             ed_transport = tailnet\<rparr>)))))))"

definition runEgress :: "world \<Rightarrow> config \<Rightarrow> string \<Rightarrow> egress_daemon result" where
  "runEgress w c transport =
     (if transport = ''tailscaled'' then runEgress_tailscaled w c else runEgress_tsnet w c transport)"

text \<open>\<^verbatim>\<open>main\<close>: the role decides which daemon is started.\<close>

definition main ::
  "(nat \<Rightarrow> nat \<Rightarrow> nat \<Rightarrow> nat) \<Rightarrow> (string \<Rightarrow> json result) \<Rightarrow> world \<Rightarrow> string list \<Rightarrow> (dns_daemon + egress_daemon) result" where
  "main frac load w args =
     (case parseCommand frac load args of
        Inl e \<Rightarrow> Inl e
      | Inr cmd \<Rightarrow>
          if cmd_role cmd = ''dns'' then map_sum id Inl (runDNS frac w (cmd_config cmd) (cmd_transport cmd))
          else map_sum id Inr (runEgress w (cmd_config cmd) (cmd_transport cmd)))"

section \<open>Names on the wire\<close>

lemma validName_wire: "validName n \<Longrightarrow> wire_name n \<and> n \<noteq> []"
  unfolding validName_def wire_name_def wire_labels_def valid_label_def
  by (auto elim: list.pred_mono_strong)

definition reverse_name :: "32 word \<Rightarrow> string" where
  "reverse_name w = Join (map itoa [octet 0 w, octet 1 w, octet 2 w, octet 3 w] @ [''in-addr'', ''arpa'']) ''.''"

lemma itoa_ascii: "list_all (\<lambda>c. code c < 128 \<and> \<not> is_upper c) (itoa n)"
  using itoa_digits [of n] by (auto simp: all_digits_def list_all_iff is_digit_def is_upper_def)

lemma Join_ascii:
  "list_all (list_all P) xs \<Longrightarrow> list_all P sep \<Longrightarrow> list_all P (Join xs sep)"
  by (induction xs sep rule: Join.induct) auto

lemma ReverseIPv4_reverse_name: "ReverseIPv4 ul (reverse_name w) = Some (V4 w)"
proof -
  let ?ls = "map itoa [octet 0 w, octet 1 w, octet 2 w, octet 3 w] @ [''in-addr'', ''arpa'']"
  have "list_all (\<lambda>c. code c < 128 \<and> \<not> is_upper c) (reverse_name w)"
    unfolding reverse_name_def 
  proof (rule Join_ascii)
    have i: "list_all (\<lambda>c. code c < 128 \<and> \<not> is_upper c) (itoa k)" for k by (rule itoa_ascii)
    show "list_all (list_all (\<lambda>c. code c < 128 \<and> \<not> is_upper c)) ?ls" "list_all (\<lambda>c. code c < 128 \<and> \<not> is_upper c) ''.''"
      using i by (simp, simp add: code_def is_upper_def) (simp add: code_def is_upper_def)
  qed
  then have l: "ToLower ul (reverse_name w) = reverse_name w" by (rule ToLower_fixed)
  have s: "SplitByte (CHR ''.'') (reverse_name w) = ?ls"
    unfolding reverse_name_def by (rule SplitByte_Join) (simp_all add: itoa_no_char)
  have "\<not> suffix ''.'' (reverse_name w)"
  proof
    assume "suffix ''.'' (reverse_name w)"
    then obtain r where "reverse_name w = r @ ''.''" by (auto simp: suffix_def)
    then have "last (SplitByte (CHR ''.'') (reverse_name w)) = []" by (simp add: SplitByte_concat)
    with s show False by simp
  qed
  then have "TrimSuffix (ToLower ul (reverse_name w)) ''.'' = reverse_name w" using l TrimSuffix_id by simp
  then have "ReverseIPv4 ul (reverse_name w) =
      Some (AddrFrom4 (octet 3 w) (octet 2 w) (octet 1 w) (octet 0 w))"
    using ReverseIPv4_parts [of ul "reverse_name w" "itoa (octet 0 w)" "itoa (octet 1 w)" "itoa (octet 2 w)" "itoa (octet 3 w)"] s
    by (simp add: less_Suc_eq_le [of _ 255, simplified, symmetric])
  moreover have "AddrFrom4 (octet 3 w) (octet 2 w) (octet 1 w) (octet 0 w) = V4 w"
  proof -
    have "of_nat (((octet 3 w * 256 + octet 2 w) * 256 + octet 1 w) * 256 + octet 0 w) = w"
      by (simp only: horner_octets) simp
    then show ?thesis by (simp add: AddrFrom4_def)
  qed
  ultimately show ?thesis by simp
qed

section \<open>What leaves the authority\<close>

lemma decide_name_passthrough:
  "dec_outcome (fst (decide_name env nodes src q s)) = Passthrough \<longleftrightarrow>
     ResolveTags (env_lower env) (q_name q) nodes = None \<and> IsValid src \<and>
     authorized_pool env src (q_name q) s = None"
  by (auto simp: decide_name_def DNSAnswer_eq split: option.splits prod.splits DNSOutcome.splits)

lemma dns_decide_passthrough:
  "dec_outcome (fst (dns_decide env nodes src q s)) = Passthrough \<longleftrightarrow>
     \<not> (q_type q = TypePTR \<and> ReverseIPv4 (env_lower env) (q_name q) \<noteq> None) \<and>
     ResolveTags (env_lower env) (q_name q) nodes = None \<and> IsValid src \<and>
     authorized_pool env src (q_name q) s = None"
  by (auto simp: dns_decide_def decide_name_passthrough [symmetric] split: option.splits prod.splits)


section \<open>Answered names are found again\<close>

lemma dns_decide_address:
  assumes "q_type q = TypeA" "ResolveTags (env_lower env) (q_name q) nodes = None" "IsValid src"
    and "DNSAnswer env src (q_name q) s = ((ip, DNSSynthesized), s')"
  shows "dns_decide env nodes src q s = (\<lparr>dec_outcome = Address, dec_address = ip, dec_ptr = []\<rparr>, s')"
  using assms by (simp add: dns_decide_def decide_name_def TypeA_def TypePTR_def)

lemma dns_decide_reverse:
  assumes "q_type q = TypePTR" "q_name q = reverse_name w" "PTRMapping env (V4 w) s = (Some m, s')"
  shows "dns_decide env nodes src q s = (\<lparr>dec_outcome = PTR, dec_address = NoAddr, dec_ptr = map_domain m\<rparr>, s')"
  using assms by (simp add: dns_decide_def ReverseIPv4_reverse_name)

text \<open>
  C2: An answered name is found again on the wire. When the authority is in order and synthesizes
  an address for an A question, the client reads that IPv4 address in the response; a PTR question
  for the reverse name of this address, sent by anybody right after, is answered with a response in
  which the name read from the record is the normalized form of the name first asked for.
\<close>

theorem dns_round_trip:
  assumes "sv_store s" and "sinv (env_now env) (lease (service_lifecycle s)) (n_store (sv_node s))"
    and "parseQuestion request = Some (q, e)" and "q_type q = TypeA"
    and "ResolveTags (env_lower env) (q_name q) nodes = None" and "IsValid (sourceIP source)"
    and "DNSAnswer env (sourceIP source) (q_name q) s = ((ip, DNSSynthesized), s1)"
  shows "\<exists>r w n. Respond (Some (dns_decide env nodes)) request source s = ((Some r, False), s1) \<and>
    ip = V4 w \<and> answer_at r e = Some (q_name q, TypeA, 1, 600, AsSlice (V4 w)) \<and> AddrFromSlice (AsSlice (V4 w)) = V4 w \<and>
    NormalName (env_lower env) (q_name q) = (n, True) \<and>
    (\<forall>request' q' e' source'. parseQuestion request' = Some (q', e') \<and> q_type q' = TypePTR \<and> q_name q' = reverse_name w \<longrightarrow>
      (\<exists>r' labels. fst (Respond (Some (dns_decide env nodes)) request' source' s1) = (Some r', False) \<and>
        answer_at r' e' = Some (reverse_name w, TypePTR, 1, 600, encodeName n) \<and>
        parse_labels r' (e' + 12) [] = Some (labels, length r') \<and> Join labels ''.'' = n))"
proof -
  obtain n ranges where a: "authorized_pool env (sourceIP source) (q_name q) s = Some (n, ranges)"
    "sql_holds (env_now env) (lease (service_lifecycle s)) (n_store (sv_node s1)) (rangeKey ranges) n ip"
    "fst (PTRMapping env ip s1) = Some \<lparr>map_gateway = rangeKey ranges, map_domain = n\<rparr>"
    using DNSAnswer_registered [OF assms(1,2,7)] by blast
  obtain w where w: "ip = V4 w" using a(2) by (auto simp: sql_holds_def elim!: Is4.elims)
  have n: "NormalName (env_lower env) (q_name q) = (n, True)"
    using a(1) by (auto simp: authorized_pool_def split: if_splits prod.splits sum.splits)
  have v: "wire_name n" "n \<noteq> []" using authorized_pool_wf [OF a(1)] validName_wire by blast+
  note d = dns_decide_address [OF assms(4,5,6,7)]
  obtain r where r: "Respond (Some (dns_decide env nodes)) request source s = ((Some r, False), s1)"
    "answer_at r e = Some (q_name q, TypeA, 1, 600, AsSlice (V4 w))"
    using answered_address [OF assms(3,4), of "dns_decide env nodes"] d w by blast
  obtain s2 where p: "PTRMapping env (V4 w) s1 = (Some \<lparr>map_gateway = rangeKey ranges, map_domain = n\<rparr>, s2)"
    using a(3) w by (metis prod.collapse)
  have "\<exists>r' labels. fst (Respond (Some (dns_decide env nodes)) request' source' s1) = (Some r', False) \<and>
        answer_at r' e' = Some (reverse_name w, TypePTR, 1, 600, encodeName n) \<and>
        parse_labels r' (e' + 12) [] = Some (labels, length r') \<and> Join labels ''.'' = n"
    if q': "parseQuestion request' = Some (q', e')" "q_type q' = TypePTR" "q_name q' = reverse_name w"
    for request' q' e' source'
  proof -
    have "dns_decide env nodes (sourceIP source') q' s1 = (\<lparr>dec_outcome = PTR, dec_address = NoAddr, dec_ptr = n\<rparr>, s2)"
      using dns_decide_reverse [OF q'(2,3) p] by simp
    from answered_ptr [OF q'(1) v(1), of "dns_decide env nodes", OF this v(2)] q'(3) show ?thesis by fastforce
  qed
  with r w n AddrFromSlice_AsSlice [of w] show ?thesis by blast
qed

section \<open>The authority as seen by a gateway\<close>

text \<open>
  What a gateway relies on: the reverse lookup of a mapped address gives its one name, with or
  without the final dot of the DNS form.
\<close>

locale ptr_authority =
  fixes lookup_name :: "addr \<Rightarrow> string list result"
    and mapped :: "addr \<Rightarrow> string option"
  assumes mapped_valid: "mapped ip = Some d \<Longrightarrow> validName d"
    and mapped_lookup: "mapped ip = Some d \<Longrightarrow> lookup_name ip \<in> {Inr [d], Inr [d @ ''.'']}"
begin

lemma looked_up_name:
  assumes "mapped ip = Some d" "lookup_name ip = Inr [name]"
  shows "NormalName ul name = (d, True)" "TrimSuffix name ''.'' = d"
proof -
  have v: "validName d" by (rule mapped_valid [OF assms(1)])
  have n: "name \<in> {d, d @ ''.''}" using mapped_lookup [OF assms(1)] assms(2) by auto
  then show "NormalName ul name = (d, True)" using validName_fixed [OF v] NormalName_dot [OF v] by auto
  show "TrimSuffix name ''.'' = d" using n TrimSuffix_id [OF validName_no_trailing_dot [OF v]] by auto
qed

text \<open>A gateway that asks the authority dials only for the mapped name, and only when it is granted.\<close>

lemma dials_mapped_name:
  assumes "dp_ptr_lookup dp = Some lookup_name" "mapped dst = Some d"
    and "ProxyTCP net dp env src (dst, port) s = (r, s')" "r \<in> {Relayed b, DialFailed b}"
  shows "\<exists>gw caps dial address ips.
    gatewayForDestination s dst = Some gw \<and> id_caps (env_identity env) src dst = Inr caps \<and>
    Authorize (Parse (env_lower env) caps) (gw_prefixes gw) d ''tcp'' port \<and>
    net_lookup_ip net dial address d = Inr ips \<and> ips \<noteq> [] \<and>
    b = JoinHostPort (AddrString (hd ips)) (itoa (unat port))"
proof -
  obtain name g address dial ips where p: "lookup_name dst = Inr [name]"
    "FlowDomain env src dst name ''tcp'' port s = (Some g, s')"
    "net_lookup_ip net dial address (TrimSuffix name ''.'') = Inr ips" "ips \<noteq> []"
    "b = JoinHostPort (AddrString (hd ips)) (itoa (unat port))"
    using assms(3,4) by (rule ProxyTCP_dialledE) (auto simp: assms(1))
  note n = looked_up_name [OF assms(2) p(1)]
  obtain gw caps where f: "gatewayForDestination s dst = Some gw" "id_caps (env_identity env) src dst = Inr caps"
    "GatewayFor (Parse (env_lower env) caps) gw d ''tcp'' port = Some g"
    by (rule FlowDomain_SomeE [OF p(2)]) (use n(1) [of "env_lower env"] in auto)
  then show ?thesis using GatewayFor_authorized [OF f(3)] p(3-5) n(2) by blast
qed

end

text \<open>
  A resolver's reverse lookup over the wire: the query it sends to the authority and what it reads
  in the response, with the final dot that Go's resolver puts behind every name.
\<close>

definition ptr_query :: "32 word \<Rightarrow> bytes" where
  "ptr_query w = [0x13, 0x37, 1, 0, 0, 1, 0, 0, 0, 0, 0, 0] @ encodeName (reverse_name w) @ [0, 12, 0, 1] @ []"

definition wire_lookup :: "env \<Rightarrow> TaggedNode list result \<Rightarrow> net_addr \<Rightarrow> Service \<Rightarrow> addr \<Rightarrow> string list result" where
  "wire_lookup env nodes source s ip =
     (case ip of
        V4 w \<Rightarrow>
          (let e = length (ptr_query w) in
           case fst (fst (Respond (Some (dns_decide env nodes)) (ptr_query w) source s)) of
             None \<Rightarrow> Inl ''timeout''
           | Some r \<Rightarrow>
               (case answer_at r e of
                  None \<Rightarrow> Inl ''no such host''
                | Some (_, t, _, _, _) \<Rightarrow>
                    if t \<noteq> TypePTR then Inl ''no such host''
                    else (case parse_labels r (e + 12) [] of
                            None \<Rightarrow> Inl ''malformed''
                          | Some (labels, _) \<Rightarrow> Inr [Join labels ''.'' @ ''.''])))
      | _ \<Rightarrow> Inl ''no such host'')"

definition mapped_name :: "env \<Rightarrow> Service \<Rightarrow> addr \<Rightarrow> string option" where
  "mapped_name env s ip =
     (if \<not> Is4 ip then None
      else (case fst (PTRMapping env ip s) of
              None \<Rightarrow> None
            | Some m \<Rightarrow> if validName (map_domain m) then Some (map_domain m) else None))"

lemma itoa_octet_length: "n < 256 \<Longrightarrow> 0 < length (itoa n) \<and> length (itoa n) \<le> 3"
proof -
  assume n: "n < 256"
  have "length (itoa n) \<le> 3"
    using n by (subst itoa.simps, subst itoa.simps, subst itoa.simps) auto
  then show ?thesis by simp
qed

lemma reverse_name_wire: "wire_name (reverse_name w)"
proof -
  let ?ls = "map itoa [octet 0 w, octet 1 w, octet 2 w, octet 3 w] @ [''in-addr'', ''arpa'']"
  have o: "0 < length (itoa (octet i w))" "length (itoa (octet i w)) \<le> 3" for i using itoa_octet_length [of "octet i w"] by auto
  have s: "SplitByte (CHR ''.'') (reverse_name w) = ?ls"
    unfolding reverse_name_def by (rule SplitByte_Join) (simp_all add: itoa_no_char)
  have "length (reverse_name w) \<le> 253" using o(2) [of 0] o(2) [of 1] o(2) [of 2] o(2) [of 3] by (simp add: reverse_name_def)
  moreover have "length (itoa (octet i w)) \<le> 63" for i using o(2) [of i] by simp
  ultimately show ?thesis using o(1) by (simp add: wire_name_def wire_labels_def s)
qed

lemma ptr_query_question:
  "parseQuestion (ptr_query w) = Some (\<lparr>q_name = reverse_name w, q_type = TypePTR\<rparr>, length (ptr_query w))"
proof -
  have h: "Uint16 [0x13, 0x37, 1, 0, 0, 1, 0, 0, 0, 0, 0, 0] 4 = 1" by (simp add: Uint16_def)
  show ?thesis
    using parse_query [OF reverse_name_wire [of w] _ h, where n = "reverse_name w" and ?t1.0 = 0 and ?t0.0 = 12 and ?c1.0 = 0
        and ?c0.0 = 1 and extra = "[]"] encodeName_length [OF reverse_name_wire, of w]
    by (simp add: ptr_query_def TypePTR_def)
qed

lemma wire_lookup_mapped:
  assumes "mapped_name env s ip = Some d"
  shows "wire_lookup env nodes source s ip = Inr [d @ ''.'']"
proof -
  from assms obtain m w where m: "ip = V4 w" "fst (PTRMapping env ip s) = Some m" "validName d" "map_domain m = d"
    by (cases ip) (auto simp: mapped_name_def split: option.splits if_splits)
  obtain s2 where p: "PTRMapping env (V4 w) s = (Some m, s2)" using m(1,2) by (metis prod.collapse)
  have d: "dns_decide env nodes (sourceIP source) \<lparr>q_name = reverse_name w, q_type = TypePTR\<rparr> s =
      (\<lparr>dec_outcome = PTR, dec_address = NoAddr, dec_ptr = d\<rparr>, s2)"
    using dns_decide_reverse [of "\<lparr>q_name = reverse_name w, q_type = TypePTR\<rparr>" w, OF _ _ p] m(4) by simp
  have v: "wire_name d" "d \<noteq> []" using validName_wire [OF m(3)] by auto
  obtain r labels where "fst (fst (Respond (Some (dns_decide env nodes)) (ptr_query w) source s)) = Some r"
    "answer_at r (length (ptr_query w)) = Some (reverse_name w, TypePTR, 1, 600, encodeName d)"
    "parse_labels r (length (ptr_query w) + 12) [] = Some (labels, length r)" "Join labels ''.'' = d"
    using answered_ptr [OF ptr_query_question v(1), of "dns_decide env nodes", OF d v(2)] by fastforce
  then show ?thesis by (simp add: wire_lookup_def m(1) Let_def)
qed

interpretation wire: ptr_authority "wire_lookup env nodes source s" "mapped_name env s"
  for env nodes source s
proof
  fix ip d
  assume m: "mapped_name env s ip = Some d"
  then show "validName d" by (auto simp: mapped_name_def split: if_splits option.splits)
  show "wire_lookup env nodes source s ip \<in> {Inr [d], Inr [d @ ''.'']}" using wire_lookup_mapped [OF m] by simp
qed


section \<open>Start-up\<close>

lemma containsPrefix_gateway:
  assumes "sv_gateways s = [(k, gw)]" "containsPrefix (gw_prefixes gw) dst"
  shows "gatewayForDestination s dst = Some gw"
  using assms by (simp add: gatewayForDestination_Some)

lemma egress_gateways:
  assumes "egressGateways c resolver system = Inr gs"
  shows "\<exists>gw. gs = [(localEgressGatewayKey, gw)] \<and> list_all canon4 (gw_prefixes gw) \<and> gw_prefixes gw \<noteq> []"
proof -
  obtain e :: egressConfig and ps where e: "range_prefixes [] (eg_ranges e) = Inr ps" "eg_ranges e \<noteq> []"
    "gs = [(localEgressGatewayKey, \<lparr>gw_prefixes = ps, gw_resolver = resolver, gw_system = (system \<noteq> [] \<and> hd system)\<rparr>)]"
    using assms by (fastforce simp: egressGateways_def split: option.splits if_splits sum.splits)
  have "ps \<noteq> []" using range_prefixes_Inr(1) [OF e(1)] e(2) by auto
  with e range_prefixes_Inr(2) [OF e(1)] show ?thesis by simp
qed

lemma backend_resolver:
  assumes "configuredResolver (c_upstream c) = Inr r" "systemUpstream resolv = Inr u"
    and "nc_has_upstream nc \<longrightarrow> normalizeResolver (nc_upstream nc) \<noteq> None"
  shows "\<exists>x. egressBackendResolver resolv c nc = Inr x"
proof -
  let ?r = "if nc_has_upstream nc then nc_upstream nc else c_upstream c"
  have "\<exists>x. configuredResolver ?r = Inr x"
    using assms(1,3) configuredResolver_iff [of "nc_upstream nc"] by (cases "nc_upstream nc = []") auto
  moreover have "configuredResolver ''system'' = Inr ''system''"
    by (simp add: configuredResolver_def IsSystemResolver_def EqualFoldASCII_def upper_char_def is_lower_def code_def)
  ultimately have "\<exists>x. configuredResolver (if ?r = [] then ''system'' else ?r) = Inr x"
    by (cases "?r = []") auto
  with assms(2) show ?thesis by (auto simp: egressBackendResolver_def Let_def split: if_splits)
qed



text \<open>
  C40: A gateway is never recognized by the DNS role. The daemon starts its service without gateways, so
  the check that lets gateways resolve names without synthesis compares their tags with nothing:
  for every source it either fails or says no, and a gateway that asks the authority is answered
  like a client.
\<close>

theorem dns_gateway_check_is_dead:
  assumes "runDNS frac w c mode = Inr d" and "env_identity env = tr_identity (dn_transport d)"
  shows "\<exists>check. id_gateway (env_identity env) = Some check \<and>
    (\<forall>src. check src (map fst (sv_gateways (dn_service d))) \<noteq> Inr True) \<and>
    (\<forall>src. is_gateway_source env (dn_service d) src \<longleftrightarrow> (\<exists>e. check src [] = Inl e))"
proof -
  obtain t where t: "openTailnetTransport w c mode True = Inr t" "dn_transport d = t" "sv_gateways (dn_service d) = []"
    using assms(1)
    by (auto simp: runDNS_def dnsGateways_def dns_service_def Let_def split: sum.splits option.splits if_splits prod.splits)
  have i: "(\<exists>api. tr_identity t = local_identity api) \<or> (\<exists>c. tr_identity t = tsnet_identity c)"
    using t(1) by (auto simp: openTailnetTransport_def Let_def split: if_splits sum.splits option.splits)
  obtain check where check: "id_gateway (env_identity env) = Some check" "\<And>src. check src [] \<noteq> Inr True"
  proof -
    have "LocalAPI_IsGateway api src [] \<noteq> Inr True" for api src
      by (simp add: LocalAPI_IsGateway_def list_ex_iff split: sum.splits)
    moreover have "TSNet_IsGateway k src [] \<noteq> Inr True" for k src
      by (simp add: TSNet_IsGateway_def list_ex_iff split: sum.splits prod.splits)
    ultimately show ?thesis using i that assms(2) t(2) by (auto simp: local_identity_def tsnet_identity_def)
  qed
  have "is_gateway_source env (dn_service d) src \<longleftrightarrow> (\<exists>e. check src [] = Inl e)" for src
    using check(2) [of src] by (auto simp: is_gateway_source_def check(1) t(3) split: sum.splits)
  with check t(3) show ?thesis by auto
qed

section \<open>Witnesses\<close>

definition ask_query :: bytes where
  "ask_query = demo_header @ encodeName ''A.Example.com'' @ [0, 1, 0, 1] @ demo_edns"

definition ask_source :: net_addr where
  "ask_source = UDPAddr [100, 64, 0, 2]"

definition asked_service :: Service where
  "asked_service = snd (DNSAnswer demo_env demo_client ''A.Example.com'' demo_service)"

lemma ask_question: "parseQuestion ask_query = Some (\<lparr>q_name = ''A.Example.com'', q_type = TypeA\<rparr>, 31)"
  by code_simp

lemma ask_source_ip: "sourceIP ask_source = demo_client"
  by (simp add: ask_source_def sourceIP_def AddrFromSlice_def from_bytes_def demo_client_def)

lemma asked_answer:
  "DNSAnswer demo_env demo_client ''A.Example.com'' demo_service = ((V4 0x0AFE0001, DNSSynthesized), asked_service)"
  using demo_answers(1) [OF demo_spellings(2)] by (simp only: asked_service_def)

theorem dns_round_trip_witness:
  "\<exists>r r' labels. fst (Respond (Some (dns_decide demo_env (Inr []))) ask_query ask_source demo_service) = (Some r, False) \<and>
     answer_at r 31 = Some (''A.Example.com'', TypeA, 1, 600, AsSlice (V4 0x0AFE0001)) \<and>
     fst (Respond (Some (dns_decide demo_env (Inr []))) (ptr_query 0x0AFE0001) (UDPAddr []) asked_service) = (Some r', False) \<and>
     parse_labels r' (length (ptr_query 0x0AFE0001) + 12) [] = Some (labels, length r') \<and> Join labels ''.'' = ''a.example.com''"
proof -
  let ?q = "\<lparr>q_name = ''A.Example.com'', q_type = TypeA\<rparr>"
  have qt: "q_type ?q = TypeA" by simp
  have t: "ResolveTags (env_lower demo_env) (q_name ?q) (Inr []) = None" by code_simp
  have n: "NormalName (env_lower demo_env) (q_name ?q) = (''a.example.com'', True)" by code_simp
  have v: "IsValid (sourceIP ask_source)" by (simp add: ask_source_ip demo_client_def IsValid_def)
  have a: "DNSAnswer demo_env (sourceIP ask_source) (q_name ?q) demo_service = ((V4 0x0AFE0001, DNSSynthesized), asked_service)"
    using asked_answer by (simp add: ask_source_ip)
  obtain r w n where r: "Respond (Some (dns_decide demo_env (Inr []))) ask_query ask_source demo_service = ((Some r, False), asked_service)"
    "V4 0x0AFE0001 = V4 w" "answer_at r 31 = Some (q_name ?q, TypeA, 1, 600, AsSlice (V4 w))"
    "NormalName (env_lower demo_env) (q_name ?q) = (n, True)"
    and R: "\<forall>request' q' e' source'. parseQuestion request' = Some (q', e') \<and> q_type q' = TypePTR \<and> q_name q' = reverse_name w \<longrightarrow>
      (\<exists>r' labels. fst (Respond (Some (dns_decide demo_env (Inr []))) request' source' asked_service) = (Some r', False) \<and>
        answer_at r' e' = Some (reverse_name w, TypePTR, 1, 600, encodeName n) \<and>
        parse_labels r' (e' + 12) [] = Some (labels, length r') \<and> Join labels ''.'' = n)"
    using dns_round_trip [OF demo_service_ok ask_question qt t v a] by blast
  have w: "w = 0x0AFE0001" "n = ''a.example.com''" using r(2,4) n by auto
  obtain r' labels where "fst (Respond (Some (dns_decide demo_env (Inr []))) (ptr_query w) (UDPAddr []) asked_service) = (Some r', False)"
    "parse_labels r' (length (ptr_query w) + 12) [] = Some (labels, length r')" "Join labels ''.'' = n"
    using R [rule_format, of "ptr_query w" "\<lparr>q_name = reverse_name w, q_type = TypePTR\<rparr>" "length (ptr_query w)" "UDPAddr []"]
      ptr_query_question by auto
  with r(1,3) show ?thesis unfolding w by (intro exI [of _ r] exI [of _ r'] exI [of _ labels]) (simp only: Question.select_convs fst_conv simp_thms)
qed

definition wire_plane :: "nat dataplane" where
  "wire_plane = demo_plane\<lparr>dp_ptr_lookup := Some (wire_lookup demo_env (Inr []) (UDPAddr []) asked_service)\<rparr>"

lemma ProxyTCP_plane:
  assumes "(case dp_ptr_lookup dp of None \<Rightarrow> net_lookup_addr net | Some f \<Rightarrow> f) (fst dst) =
      (case dp_ptr_lookup dp' of None \<Rightarrow> net_lookup_addr net | Some f \<Rightarrow> f) (fst dst)"
    and "dp_resolver_dial dp = dp_resolver_dial dp'" "dp_system_resolver dp = dp_system_resolver dp'"
  shows "ProxyTCP net dp env src dst s = ProxyTCP net dp' env src dst s"
  unfolding ProxyTCP_def Let_def assms ..

lemma wire_relay:
  "fst (ProxyTCP demo_net wire_plane demo_env demo_client (V4 0x0AFE0001, 443) demo_service) = Relayed ''192.0.2.5:443''"
proof -
  have "validName ''a.example.com''" by code_simp
  then have "mapped_name demo_env asked_service (V4 0x0AFE0001) = Some ''a.example.com''"
    using demo_reverse_mapping [OF demo_spellings(2)] by (simp add: mapped_name_def asked_service_def)
  then have "wire_lookup demo_env (Inr []) (UDPAddr []) asked_service (V4 0x0AFE0001) = Inr [''a.example.com.'']"
    using wire_lookup_mapped by fastforce
  then have "ProxyTCP demo_net wire_plane demo_env demo_client (V4 0x0AFE0001, 443) demo_service =
      ProxyTCP demo_net demo_plane demo_env demo_client (V4 0x0AFE0001, 443) demo_service"
    by (intro ProxyTCP_plane) (simp_all add: wire_plane_def demo_plane_def)
  then show ?thesis using demo_relay by simp
qed


text \<open>A tailnet whose daemon answers, with a node tagged as a gateway, and everything else in place.\<close>

definition demo_api :: LocalAPI where
  "demo_api = \<lparr>api_whois = (\<lambda>v. Decoded \<lparr>lw_capmap = Some example_caps, lw_tags = [''tag:dgw-egress'']\<rparr>),
     api_status = Decoded \<lparr>ls_self = \<lparr>sn_ips = [V4 0x64400009], sn_tags = [], sn_capmap = Map.empty\<rparr>, ls_peer = [],
       ls_ips = [V4 0x64400009]\<rparr>\<rparr>"

definition demo_world :: world where
  "demo_world =
     \<lparr>w_resolv_conf = Inr ''nameserver 192.0.2.53'', w_env_auth_key = [], w_daemon = (\<lambda>_. demo_api), w_up = (\<lambda>_. None),
      w_client = (\<lambda>_. Inl ''unused''), w_tailscale_ip = NoAddr, w_accept_routes = None, w_status = Inl ''unused'',
      w_dns_config = Inr [''100.64.0.9''], w_open_store = (\<lambda>_. Inr (''sqlite'', Map.empty, [])), w_db_script = [],
      w_listen_tailnet = (\<lambda>_. None), w_listen_host = (\<lambda>_. None), w_resolve_udp = Inr,
      w_lookup_addr_at = (\<lambda>_ _ _. Inr [''a.example.com.''])\<rparr>"

lemma demo_system: "systemUpstream (w_resolv_conf demo_world) = Inr ''192.0.2.53:53''"
proof -
  have "Fields ''nameserver 192.0.2.53'' = [''nameserver'', ''192.0.2.53'']"
    by (simp add: Fields_def fields_loop.simps end_field_def code_def)
  moreover have "ParseIP_ok ''192.0.2.53''" "itoa 53 = ''53''" by code_simp+
  ultimately show ?thesis by (simp add: systemUpstream_def demo_world_def JoinHostPort_def)
qed

lemma demo_transport:
  "openTailnetTransport demo_world c ''tailscaled'' needIP =
     Inr \<lparr>tr_identity = local_identity demo_api, tr_nodes = LocalAPI_TaggedNodes demo_api,
          tr_config = Inr \<lparr>nc_upstream = ''system'', nc_has_upstream = False\<rparr>,
          tr_ip = (if needIP then V4 0x64400009 else NoAddr), tr_server = None\<rparr>"
  by (simp add: openTailnetTransport_def demo_world_def demo_api_def TailscaleIP_def LocalAPI_NodeConfig_def status_def
      ConfigFromNodeAttrs_def Let_def)


definition dns_args :: "string list" where
  "dns_args = [''dns'', ''-mode=tailscaled'', ''--database'', ''sqlite:///gateway.db'']"

lemma dns_command:
  "\<exists>cmd. parseCommand (\<lambda>_ _ _. 0) (\<lambda>_. Inr (JObj [])) dns_args = Inr cmd \<and> cmd_role cmd = ''dns'' \<and>
     cmd_transport cmd = ''tailscaled'' \<and> c_lease (cmd_config cmd) = [] \<and> c_database (cmd_config cmd) = ''sqlite:///gateway.db''"
proof -
  have p: "parse_flags flag_names (tl dns_args) = Inr [(''mode'', ''tailscaled''), (''database'', ''sqlite:///gateway.db'')]"
    by (simp add: dns_args_def flag_names_def CutByte_def)
  have c: "\<exists>path. configPath (tl dns_args) = Inr path" by (simp add: configPath_def dns_args_def HasPrefix_def)
  have r: "read_config (JObj []) = Inr
      \<lparr>c_listen = [], c_gateway_listen = [], c_socket = [], c_database = [], c_lease = [], c_upstream = [],
       c_upstream_interface = [], c_egress = None,
       c_tsnet = \<lparr>tc_dir = [], tc_hostname = [], tc_auth_key = [], tc_control_url = [], tc_tags = []\<rparr>\<rparr>"
    by code_simp
  show ?thesis
    using c by (auto simp: parseCommand_def p r apply_flags_def set_tags_def check_lease_def Let_def) (simp_all add: dns_args_def)
qed


theorem dns_gateway_check_is_dead_witness:
  "\<exists>d. runDNS (\<lambda>_ _ _. 0) demo_world demo_config ''tailscaled'' = Inr d \<and>
     \<not> is_gateway_source (demo_env\<lparr>env_identity := local_identity demo_api\<rparr>) (dn_service d) demo_client"
proof -
  have "IsSystemResolver ''system''" by (simp add: IsSystemResolver_def EqualFoldASCII_def upper_char_def is_lower_def code_def)
  then obtain d where d: "runDNS (\<lambda>_ _ _. 0) demo_world demo_config ''tailscaled'' = Inr d"
    "tr_identity (dn_transport d) = local_identity demo_api"
    by (simp add: runDNS_def demo_transport demo_system dnsGateways_def allocationStore_def listenUDP_def mustAddr_def Let_def)
      (simp add: demo_world_def demo_config_def Let_def listenUDP_def mustAddr_def)
  have "LocalAPI_IsGateway demo_api demo_client [] = Inr False" by (simp add: LocalAPI_IsGateway_def whoIs_def demo_api_def Let_def)
  with dns_gateway_check_is_dead [OF d(1), of "demo_env\<lparr>env_identity := local_identity demo_api\<rparr>"] d show ?thesis
    by (auto simp: local_identity_def)
qed

end
