(* ===== verification/Spec2Isabelle.thy ===== *)
theory Spec2Isabelle
  imports Policy Allocation SqlStore Lifecycle Tags Identity Service DnsUdp Proxy Config Daemon
begin

text \<open>
  A verification development of the domain gateway, a daemon that gives the clients of a tailnet
  synthetic addresses for domain names they are granted, and relays connections to those addresses
  to the domains behind them.

  \<^bold>\<open>The program.\<close> One binary has two roles. The DNS role (\<^verbatim>\<open>runDNS\<close>) answers UDP
  questions: it asks the tailnet for the capabilities of the source, and if they grant the name it
  allocates an address of the granted ranges, in memory or in an SQL table shared by several
  processes; reverse questions are answered from the same allocations, names below
  \<^verbatim>\<open>.tags\<close> from the tailnet's inventory, and every other question is forwarded. The egress role
  (\<^verbatim>\<open>runEgress\<close>) receives connections to the synthetic addresses, recovers the name of the
  destination by a reverse question to the DNS role, authorizes name, protocol and port by the
  capabilities of the source, resolves the name at the selected resolver and relays the
  connection. The two roles share nothing but DNS and the policy.

  \<^bold>\<open>Theories and sources.\<close> Each theory models one part, its definitions in the order and with
  the names of the code; paths are relative to \<^verbatim>\<open>src/\<close>.

  \<^item> \<^verbatim>\<open>Prelude\<close>, \<^verbatim>\<open>Netip\<close> and \<^verbatim>\<open>Json\<close>: what the code uses of Go's strings,
    strconv, net, netip and encoding/json. Addresses are words, prefixes canonical intervals;
    printing and parsing of IPv4 addresses and prefixes are inverse.
  \<^item> \<^verbatim>\<open>Policy\<close> (\<^verbatim>\<open>internal/domain/domain.go\<close> up to the allocator, \<^verbatim>\<open>upstream.go\<close>):
    decoding of capabilities, name patterns, port lists, resolvers, and the decisions
    \<open>Authorize\<close>, \<open>GatewayFor\<close> and \<open>RangesForName\<close>. Parsed grants are well formed, the decisions
    are sound and, on unambiguous policies, total.
  \<^item> \<^verbatim>\<open>Allocation\<close> (the allocator of \<^verbatim>\<open>domain.go\<close>, its file in \<^verbatim>\<open>state.go\<close>): the two
    maps and their expiry. Allocated addresses are usable hosts of the ranges, one per name; the
    maps stay inverse; a saved state loads again.
  \<^item> \<^verbatim>\<open>SqlStore\<close> (\<^verbatim>\<open>SQLStore\<close> of \<^verbatim>\<open>state.go\<close>): statements as functions on a table, and
    around every statement the events of other processes and database faults as a script. The
    table never holds a name or an address twice, and a fleet of processes agrees on every answer.
  \<^item> \<^verbatim>\<open>Lifecycle\<close> (\<^verbatim>\<open>AllocationStore\<close> and \<^verbatim>\<open>AllocationLifecycle\<close>): the interface is
    a record of operations, its contract the locale \<open>allocation_store\<close>, interpreted on the SQL
    store and on the allocator.
  \<^item> \<^verbatim>\<open>Tags\<close> (\<^verbatim>\<open>tags.go\<close>) and \<^verbatim>\<open>Identity\<close> (\<^verbatim>\<open>service.go\<close>, \<^verbatim>\<open>tsnet.go\<close>):
    tag expressions against their meaning as a formula, and the two sources of identity.
  \<^item> \<^verbatim>\<open>Service\<close> (\<^verbatim>\<open>service.go\<close>): DNS answers, reverse mappings and flows over the state
    of the service, with the order of the gateway map left open.
  \<^item> \<^verbatim>\<open>DnsUdp\<close> (\<^verbatim>\<open>internal/dnsudp/server.go\<close>): messages as byte lists with the writes at
    positions as in the code. Questions and names read back, every response answers its own
    request, and the server loop is a step relation whose invariants are the bound on handlers, the
    exclusive ownership of buffers and that replies belong to their requests.
  \<^item> \<^verbatim>\<open>Proxy\<close> (\<^verbatim>\<open>gateway.go\<close>, \<^verbatim>\<open>tsnet_gateway.go\<close>): a connection up to the backend
    it is relayed to. Nothing is dialled without authorization; routes are advertised behind their
    handler and match it.
  \<^item> \<^verbatim>\<open>Config\<close> (\<^verbatim>\<open>cmd/domain-gateway/main.go\<close>, the command line and the pure helpers):
    what an accepted command is and that start-up validation is complete.
  \<^item> \<^verbatim>\<open>Daemon\<close> (the rest of \<^verbatim>\<open>main.go\<close>, \<^verbatim>\<open>transport.go\<close>): the two roles and the
    decision function between wire and service. The contract of a reverse lookup, the locale
    \<open>ptr_authority\<close>, is interpreted on the DNS role reached over the wire; with it the components
    compose: an answered name is found again by a reverse question, and a gateway that asks the
    authority dials the name the client asked for.

  \<^bold>\<open>Conventions.\<close> A Go string is a list of bytes; a call that returns a value and an error is a
  sum with the error on the left; state is passed explicitly. Counters are 64-bit words and wire
  fields 8- and 16-bit words. A method that holds a lock for its whole body is one function. Map
  iteration, which Go leaves unordered, is a list in any order.

  \<^bold>\<open>Termination.\<close> No definition uses fuel. The loops that are not structural end by a measure:
  the addresses left in a range, the bytes left of a message or a text, the groups left of an IPv6
  address. The server loop is a relation, and that its handlers can always finish is a theorem.

  \<^bold>\<open>Parameters.\<close> What is not in the repository is an argument: lower-casing of text outside
  ASCII, the replies of the tailnet daemon and client, the text of a URL taken apart, the events
  around database statements, reading a file into a JSON tree, lookups and dialling on the network,
  the system call for the original destination, the outcome of an upstream exchange, the floating
  point product in a fractional duration, and the clock, which is read once per operation.

  \<^bold>\<open>Not modelled.\<close> Sockets, files and the relaying of bytes beyond the choice of their ends;
  the syntax of JSON; log lines; cancellation through contexts. Handlers of one process interleave
  in the server loop, but each evaluates its decision in one step: interleavings inside a decision
  are those the script of database events expresses. Tests, examples and deployment files are not
  part of the program.
\<close>

end
